(* ===== verification/Nya_Prelude.thy ===== *)
theory Nya_Prelude
  imports Main "HOL-Library.Word" "HOL-Library.List_Lexorder" "HOL-Library.Monad_Syntax"
begin

text \<open>
  Shared vocabulary of the development: machine integers and byte strings, the error values of
  the program, slices with their panics, and substring search.
  \<^item> A Rust \<open>u8\<close>, \<open>u16\<close>, \<open>u64\<close> is a word of that width. \<open>Vec<u8>\<close>, \<open>&[u8]\<close>, \<open>String\<close> and
    \<open>&str\<close> are all lists of bytes, as in memory: a string is a byte list that is valid UTF-8, and
    its length is its length in bytes. \<open>lit ''abc''\<close> is the byte string of a literal.
  \<^item> An \<open>anyhow::Error\<close> is its message (\<open>Msg\<close>), possibly under a context (\<open>Context\<close>), or an
    operating-system error (\<open>IoError\<close>); a \<open>Result<T>\<close> is \<open>error + 'a\<close>. Of a message built with
    \<open>format!\<close> only the fixed part is kept, without the names and sizes put into it.
  \<^item> A computation that indexes or slices returns \<open>'a option\<close>, where \<open>None\<close> is the panic of an
    index out of range. That it never happens is then a theorem (\<open>\<noteq> None\<close>), not an assumption.
\<close>

unbundle bit_operations_syntax

type_synonym u8 = "8 word"
type_synonym u16 = "16 word"
type_synonym u64 = "64 word"
type_synonym bytes = "u8 list"
type_synonym str = "u8 list"

definition lit :: "string \<Rightarrow> str" where
  "lit s = map of_char s"

named_theorems panic_free \<open>indexing that stays in range\<close>

section \<open>Errors\<close>

text \<open>\<open>Panicked\<close> is not an error value of the program: it marks a task that a panic has ended.\<close>

datatype error = Msg str | Context str error | IoError str | Panicked

type_synonym 'a result = "error + 'a"

definition bail :: "string \<Rightarrow> 'a result" where
  "bail m = Inl (Msg (lit m))"

definition with_context :: "string \<Rightarrow> 'a result \<Rightarrow> 'a result" where
  "with_context m r =
     (case r of Inl e \<Rightarrow> Inl (if e = Panicked then Panicked else Context (lit m) e) | Inr x \<Rightarrow> Inr x)"

definition try_res :: "'a result \<Rightarrow> ('a \<Rightarrow> 'b result) \<Rightarrow> 'b result" where
  "try_res r f = (case r of Inl e \<Rightarrow> Inl e | Inr x \<Rightarrow> f x)"

definition ok_or :: "string \<Rightarrow> 'a option \<Rightarrow> 'a result" where
  "ok_or m r = (case r of None \<Rightarrow> bail m | Some x \<Rightarrow> Inr x)"

lemma bail_neq_Inr [simp]: "bail m \<noteq> Inr x" "Inr x \<noteq> bail m"
  by (simp_all add: bail_def)

lemma isl_bail [simp]: "isl (bail m)"
  by (simp add: bail_def)

lemma with_context_simps [simp]:
  "with_context m (Inr x) = Inr x"
  "e \<noteq> Panicked \<Longrightarrow> with_context m (Inl e) = Inl (Context (lit m) e)"
  "with_context m (Inl Panicked) = Inl Panicked"
  by (simp_all add: with_context_def)

lemma with_context_eq_Inr [simp]: "with_context m r = Inr x \<longleftrightarrow> r = Inr x"
  by (cases r) (simp_all add: with_context_def)

lemma try_res_simps [simp]: "try_res (Inl e) f = Inl e" "try_res (Inr x) f = f x"
  by (simp_all add: try_res_def)

lemma try_res_eq_Inr: "try_res r f = Inr y \<longleftrightarrow> (\<exists>x. r = Inr x \<and> f x = Inr y)"
  by (cases r) simp_all

lemma ok_or_simps [simp]: "ok_or m None = bail m" "ok_or m (Some x) = Inr x"
  by (simp_all add: ok_or_def)

lemma ok_or_eq_Inr [simp]: "ok_or m r = Inr x \<longleftrightarrow> r = Some x"
  by (cases r) simp_all

section \<open>Indexing and slicing, with the panic of an index out of range\<close>

definition idx :: "'a list \<Rightarrow> nat \<Rightarrow> 'a option" where
  "idx xs i = (if i < length xs then Some (xs ! i) else None)"

definition slice :: "'a list \<Rightarrow> nat \<Rightarrow> nat \<Rightarrow> 'a list option" where
  "slice xs a b = (if a \<le> b \<and> b \<le> length xs then Some (take (b - a) (drop a xs)) else None)"

definition slice_from :: "'a list \<Rightarrow> nat \<Rightarrow> 'a list option" where
  "slice_from xs a = (if a \<le> length xs then Some (drop a xs) else None)"

lemma idx_in_range [panic_free]: "i < length xs \<Longrightarrow> idx xs i = Some (xs ! i)"
  by (simp add: idx_def)

lemma slice_in_range [panic_free]:
  "a \<le> b \<Longrightarrow> b \<le> length xs \<Longrightarrow> slice xs a b = Some (take (b - a) (drop a xs))"
  by (simp add: slice_def)

lemma slice_from_in_range [panic_free]: "a \<le> length xs \<Longrightarrow> slice_from xs a = Some (drop a xs)"
  by (simp add: slice_from_def)

lemma slice_from_shorter: "slice_from xs a = Some ys \<Longrightarrow> 0 < a \<Longrightarrow> xs \<noteq> [] \<Longrightarrow> length ys < length xs"
  by (auto simp: slice_from_def split: if_splits)

text \<open>Reads inside a prefix do not see what follows it.\<close>

lemma idx_append: "i < length xs \<Longrightarrow> idx (xs @ ys) i = idx xs i"
  by (simp add: idx_def nth_append)

lemma slice_append: "b \<le> length xs \<Longrightarrow> slice (xs @ ys) a b = slice xs a b"
  by (auto simp: slice_def)

section \<open>Big-endian 16-bit fields\<close>

definition from_be_bytes16 :: "u8 \<Rightarrow> u8 \<Rightarrow> u16" where
  "from_be_bytes16 a b = push_bit 8 (ucast a) OR ucast b"

definition to_be_bytes16 :: "u16 \<Rightarrow> bytes" where
  "to_be_bytes16 w = [ucast (drop_bit 8 w), ucast w]"

lemma length_to_be_bytes16 [simp]: "length (to_be_bytes16 w) = 2"
  by (simp add: to_be_bytes16_def)

lemma from_to_be_bytes16: "from_be_bytes16 (ucast (drop_bit 8 w)) (ucast w) = w"
  by (rule bit_word_eqI) (auto simp: from_be_bytes16_def bit_simps)

lemma unat_from_be_bytes16: "unat (from_be_bytes16 a b) = 256 * unat a + unat b"
proof -
  have "from_be_bytes16 a b = push_bit 8 (ucast a) + ucast b"
    unfolding from_be_bytes16_def
    by (rule disjunctive_add [symmetric]) (auto simp: bit_simps dest: bit_imp_le_length)
  moreover have "unat a < 256" "unat b < 256"
    using unsigned_less [of a] unsigned_less [of b] by simp_all
  moreover have "unat (push_bit 8 (ucast a) :: u16) = 256 * unat a"
    using \<open>unat a < 256\<close>
    by (simp add: push_bit_eq_mult unat_word_ariths unsigned_ucast_eq take_bit_eq_mod)
  moreover have "unat (ucast b :: u16) = unat b"
    using \<open>unat b < 256\<close> by (simp add: unsigned_ucast_eq take_bit_eq_mod)
  ultimately show ?thesis
    by (simp add: unat_word_ariths)
qed

section \<open>Substring search\<close>

definition occurs_at :: "'a list \<Rightarrow> 'a list \<Rightarrow> nat \<Rightarrow> bool" where
  "occurs_at p s j \<longleftrightarrow> take (length p) (drop j s) = p"

fun find_sub :: "'a list \<Rightarrow> 'a list \<Rightarrow> nat option" where
  "find_sub p [] = (if p = [] then Some 0 else None)"
| "find_sub p (x # xs) =
     (if take (length p) (x # xs) = p then Some 0 else map_option Suc (find_sub p xs))"

lemma occurs_at_0: "occurs_at p s 0 \<longleftrightarrow> take (length p) s = p"
  by (simp add: occurs_at_def)

lemma occurs_at_Suc: "occurs_at p (x # xs) (Suc j) \<longleftrightarrow> occurs_at p xs j"
  by (simp add: occurs_at_def)

lemma occurs_at_length: "occurs_at p s j \<Longrightarrow> p \<noteq> [] \<Longrightarrow> j + length p \<le> length s"
proof -
  assume "occurs_at p s j" "p \<noteq> []"
  then have "length (take (length p) (drop j s)) = length p" by (simp add: occurs_at_def)
  with \<open>p \<noteq> []\<close> show ?thesis by (cases "j \<le> length s") (auto simp: min_def split: if_splits)
qed

lemma find_sub_eq_Some:
  "p \<noteq> [] \<Longrightarrow> find_sub p s = Some i \<longleftrightarrow> occurs_at p s i \<and> (\<forall>j < i. \<not> occurs_at p s j)"
proof (induction s arbitrary: i)
  case Nil
  then show ?case by (simp add: occurs_at_def)
next
  case (Cons x xs)
  show ?case
  proof (cases i)
    case 0
    then show ?thesis using Cons.prems by (auto simp: occurs_at_0)
  next
    case (Suc k)
    show ?thesis using Cons by (auto simp: Suc occurs_at_0 occurs_at_Suc All_less_Suc2)
  qed
qed

lemma find_sub_eq_None: "p \<noteq> [] \<Longrightarrow> find_sub p s = None \<longleftrightarrow> (\<forall>j. \<not> occurs_at p s j)"
proof (induction s)
  case Nil
  then show ?case by (simp add: occurs_at_def)
next
  case (Cons x xs)
  have "(\<forall>j. \<not> occurs_at p (x # xs) j) \<longleftrightarrow>
      \<not> occurs_at p (x # xs) 0 \<and> (\<forall>j. \<not> occurs_at p xs j)"
    by (metis not0_implies_Suc occurs_at_Suc)
  with Cons show ?case by (simp add: occurs_at_0)
qed

lemma find_sub_length: "p \<noteq> [] \<Longrightarrow> find_sub p s = Some i \<Longrightarrow> i + length p \<le> length s"
  by (simp add: find_sub_eq_Some occurs_at_length)

lemma occurs_at_append1: "occurs_at p s j \<Longrightarrow> p \<noteq> [] \<Longrightarrow> occurs_at p (s @ t) j"
  using occurs_at_length [of p s j] by (simp add: occurs_at_def)

lemma occurs_at_append_iff:
  "j + length p \<le> length s \<Longrightarrow> occurs_at p (s @ t) j \<longleftrightarrow> occurs_at p s j"
  by (simp add: occurs_at_def)

lemma occurs_at_append2: "occurs_at p (s @ t) (length s + j) \<longleftrightarrow> occurs_at p t j"
  by (simp add: occurs_at_def)

lemma find_sub_append: 
  assumes "p \<noteq> []" "find_sub p s = Some i"
  shows "find_sub p (s @ t) = Some i"
proof -
  have len: "i + length p \<le> length s" using assms by (rule find_sub_length)
  have "occurs_at p (s @ t) j \<longleftrightarrow> occurs_at p s j" if "j \<le> i" for j
    using that len by (simp add: occurs_at_append_iff)
  with assms show ?thesis by (simp add: find_sub_eq_Some)
qed

lemma find_sub_take:
  assumes "p \<noteq> []" "find_sub p s = Some i" "i + length p \<le> n"
  shows "find_sub p (take n s) = Some i"
proof -
  have eq: "occurs_at p (take n s) j \<longleftrightarrow> occurs_at p s j" if "j \<le> i" for j
  proof -
    have "length p \<le> n - j" using that assms(3) by linarith
    then have "take (length p) (take (n - j) (drop j s)) = take (length p) (drop j s)" by simp
    then show ?thesis by (simp add: occurs_at_def drop_take)
  qed
  show ?thesis using assms eq by (simp add: find_sub_eq_Some)
qed

definition contains :: "'a list \<Rightarrow> 'a list \<Rightarrow> bool" where
  "contains s p \<longleftrightarrow> find_sub p s \<noteq> None"

lemma contains_iff: "p \<noteq> [] \<Longrightarrow> contains s p \<longleftrightarrow> (\<exists>j. occurs_at p s j)"
  by (auto simp: contains_def find_sub_eq_None)

lemma occurs_at_hd: "occurs_at p s j \<Longrightarrow> p \<noteq> [] \<Longrightarrow> j < length s \<and> s ! j = hd p"
proof -
  assume a: "occurs_at p s j" "p \<noteq> []"
  then have "j + length p \<le> length s" by (rule occurs_at_length)
  with a(2) have j: "j < length s" by (cases p) simp_all
  have "hd (take (length p) (drop j s)) = hd p" using a by (simp add: occurs_at_def)
  with a j show ?thesis by (simp add: hd_drop_conv_nth)
qed

lemma occurs_at_nth:
  assumes "occurs_at p s j" "k < length p"
  shows "j + k < length s \<and> s ! (j + k) = p ! k"
proof -
  have len: "j + length p \<le> length s" using assms by (intro occurs_at_length) auto
  have "p ! k = take (length p) (drop j s) ! k" using assms by (simp add: occurs_at_def)
  with len assms show ?thesis by simp
qed

end
