(* ===== verification/Rust_Str.thy ===== *)
theory Rust_Str
  imports Nya_Prelude
begin

text \<open>
  What the program uses of the Rust standard library's \<open>str\<close>, \<open>u8\<close> and \<open>u16\<close>: ASCII case and
  character classes, UTF-8 validation, splitting, trimming of Unicode white space, and decimal and
  hexadecimal printing and parsing. Strings are byte lists, so a one-byte pattern such as ':' is its
  byte. White space is matched on its UTF-8 encoding; the lead bytes of those encodings are never
  continuation bytes, so on valid UTF-8 this is the same as matching characters.
\<close>

section \<open>ASCII\<close>

definition is_ascii_digit :: "u8 \<Rightarrow> bool" where
  "is_ascii_digit b \<longleftrightarrow> 48 \<le> b \<and> b \<le> 57"

definition is_ascii_alphanumeric :: "u8 \<Rightarrow> bool" where
  "is_ascii_alphanumeric b \<longleftrightarrow>
     48 \<le> b \<and> b \<le> 57 \<or> 65 \<le> b \<and> b \<le> 90 \<or> 97 \<le> b \<and> b \<le> 122"

definition to_lower :: "u8 \<Rightarrow> u8" where
  "to_lower b = (if 65 \<le> b \<and> b \<le> 90 then b + 32 else b)"

definition to_ascii_lowercase :: "str \<Rightarrow> str" where
  "to_ascii_lowercase s = map to_lower s"

definition eq_ignore_ascii_case :: "str \<Rightarrow> str \<Rightarrow> bool" where
  "eq_ignore_ascii_case a b \<longleftrightarrow> length a = length b \<and> map to_lower a = map to_lower b"

lemma eq_ignore_ascii_case_iff:
  "eq_ignore_ascii_case a b \<longleftrightarrow> to_ascii_lowercase a = to_ascii_lowercase b"
  using map_eq_imp_length_eq by (auto simp: eq_ignore_ascii_case_def to_ascii_lowercase_def)

lemma to_lower_idem [simp]: "to_lower (to_lower b) = to_lower b"
proof (cases "65 \<le> b \<and> b \<le> 90")
  case True
  then have "unat (b + 32) = unat b + 32" "65 \<le> unat b"
    by (simp_all add: word_le_nat_alt unat_word_ariths)
  then have "\<not> b + 32 \<le> 90" by (simp add: word_le_nat_alt)
  with True show ?thesis by (simp add: to_lower_def)
qed (auto simp: to_lower_def)

lemma to_ascii_lowercase_idem [simp]:
  "to_ascii_lowercase (to_ascii_lowercase s) = to_ascii_lowercase s"
  by (simp add: to_ascii_lowercase_def)

lemma length_to_ascii_lowercase [simp]: "length (to_ascii_lowercase s) = length s"
  by (simp add: to_ascii_lowercase_def)

lemma to_ascii_lowercase_eq_Nil [simp]: "to_ascii_lowercase s = [] \<longleftrightarrow> s = []"
  by (simp add: to_ascii_lowercase_def)

lemma to_lower_alphanumeric [simp]: "is_ascii_alphanumeric (to_lower b) = is_ascii_alphanumeric b"
proof (cases "65 \<le> b \<and> b \<le> 90")
  case True
  then have "unat (b + 32) = unat b + 32" "65 \<le> unat b" "unat b \<le> 90"
    by (simp_all add: word_le_nat_alt unat_word_ariths)
  then have "97 \<le> b + 32 \<and> b + 32 \<le> 122" by (simp add: word_le_nat_alt)
  with True show ?thesis by (simp add: to_lower_def is_ascii_alphanumeric_def)
qed (auto simp: to_lower_def)

lemma to_lower_eq_punct:
  assumes "c < 65"
  shows "to_lower b = c \<longleftrightarrow> b = c"
proof (cases "65 \<le> b \<and> b \<le> 90")
  case True
  then have "unat (b + 32) = unat b + 32" "65 \<le> unat b"
    by (simp_all add: word_le_nat_alt unat_word_ariths)
  with assms have "c < b + 32" "c < b" by (simp_all add: word_less_nat_alt)
  with True show ?thesis by (auto simp: to_lower_def)
qed (auto simp: to_lower_def)

lemma alphanumeric_neq:
  "is_ascii_alphanumeric b \<Longrightarrow>
     b \<noteq> 9 \<and> b \<noteq> 10 \<and> b \<noteq> 13 \<and> b \<noteq> 32 \<and> b \<noteq> 35 \<and> b \<noteq> 45 \<and> b \<noteq> 46 \<and> b \<noteq> 58 \<and> b \<noteq> 91 \<and> b \<noteq> 93"
  by (auto simp: is_ascii_alphanumeric_def)

section \<open>UTF-8 validation (\<open>str::from_utf8\<close>)\<close>

definition is_cont :: "u8 \<Rightarrow> bool" where
  "is_cont b \<longleftrightarrow> 0x80 \<le> b \<and> b \<le> 0xBF"

text \<open>The well-formed byte sequences of the Unicode standard (table 3-7), as \<open>from_utf8\<close> accepts.\<close>

fun valid_utf8 :: "bytes \<Rightarrow> bool" where
  "valid_utf8 [] = True"
| "valid_utf8 (a # s) =
     (if a < 0x80 then valid_utf8 s
      else if 0xC2 \<le> a \<and> a \<le> 0xDF then
        (case s of b # r \<Rightarrow> is_cont b \<and> valid_utf8 r | _ \<Rightarrow> False)
      else if 0xE0 \<le> a \<and> a \<le> 0xEF then
        (case s of b # c # r \<Rightarrow>
             is_cont b \<and> is_cont c \<and> (a = 0xE0 \<longrightarrow> 0xA0 \<le> b) \<and> (a = 0xED \<longrightarrow> b \<le> 0x9F) \<and> valid_utf8 r
         | _ \<Rightarrow> False)
      else if 0xF0 \<le> a \<and> a \<le> 0xF4 then
        (case s of b # c # d # r \<Rightarrow>
             is_cont b \<and> is_cont c \<and> is_cont d \<and> (a = 0xF0 \<longrightarrow> 0x90 \<le> b) \<and> (a = 0xF4 \<longrightarrow> b \<le> 0x8F) \<and>
             valid_utf8 r
         | _ \<Rightarrow> False)
      else False)"

definition from_utf8 :: "bytes \<Rightarrow> str option" where
  "from_utf8 s = (if valid_utf8 s then Some s else None)"

lemma from_utf8_eq_Some [simp]: "from_utf8 s = Some t \<longleftrightarrow> t = s \<and> valid_utf8 s"
  by (auto simp: from_utf8_def)

lemma valid_utf8_ascii: "\<forall>b \<in> set s. b < 0x80 \<Longrightarrow> valid_utf8 s"
  by (induction s) auto

lemma valid_utf8_multi_cases:
  assumes v: "valid_utf8 (a # s)" and a: "\<not> a < 0x80"
  obtains (two) b r where "s = [b] @ r" "valid_utf8 r" "is_cont b" "0xC2 \<le> a \<and> a \<le> 0xDF"
    | (three) b c r where "s = [b, c] @ r" "valid_utf8 r" "is_cont b" "is_cont c"
        "\<not> (0xC2 \<le> a \<and> a \<le> 0xDF)" "0xE0 \<le> a \<and> a \<le> 0xEF"
    | (four) b c d r where "s = [b, c, d] @ r" "valid_utf8 r" "is_cont b" "is_cont c" "is_cont d"
        "\<not> (0xC2 \<le> a \<and> a \<le> 0xDF)" "\<not> (0xE0 \<le> a \<and> a \<le> 0xEF)" "0xF0 \<le> a \<and> a \<le> 0xF4"
proof (cases "0xC2 \<le> a \<and> a \<le> 0xDF")
  case True
  with v a show ?thesis by (cases s) (auto intro: two)
next
  case no2: False
  show ?thesis
  proof (cases "0xE0 \<le> a \<and> a \<le> 0xEF")
    case True
    with v a no2 obtain b c r where "s = b # c # r" "is_cont b" "is_cont c" "valid_utf8 r"
      by (cases s; cases "tl s") (simp_all split: list.splits)
    with True no2 show ?thesis by (auto intro: three)
  next
    case False
    with v a no2 have F: "0xF0 \<le> a \<and> a \<le> 0xF4" by (simp split: if_splits)
    with v a no2 False obtain b c d r
      where "s = b # c # d # r" "is_cont b" "is_cont c" "is_cont d" "valid_utf8 r"
      by (cases s; cases "tl s"; cases "tl (tl s)") (simp_all split: list.splits)
    with F False no2 show ?thesis by (auto intro: four)
  qed
qed

text \<open>A continuation byte never follows an ASCII byte, and never starts the text.\<close>

lemma is_cont_ge: "is_cont b \<Longrightarrow> 0x80 \<le> b"
  by (simp add: is_cont_def)

text \<open>Behind a character \<open>a # pre\<close> of bytes from 0x80 on, the byte before a continuation byte is such a byte.\<close>

lemma cont_behind:
  assumes "0 < i" "i < length (a # pre @ r)" "is_cont ((a # pre @ r) ! i)" "\<forall>b \<in> set (a # pre). 0x80 \<le> b"
    and IH: "\<And>k. k < length r \<Longrightarrow> is_cont (r ! k) \<Longrightarrow> 0 < k \<and> 0x80 \<le> r ! (k - 1)"
  shows "0x80 \<le> (a # pre @ r) ! (i - 1)"
proof (cases "i \<le> length pre + 1")
  case True
  then have "i - 1 < length (a # pre)" using assms(1) by simp
  moreover from this have "((a # pre) @ r) ! (i - 1) = (a # pre) ! (i - 1)" by (simp only: nth_append if_True)
  ultimately show ?thesis using assms(4) nth_mem by (metis append_Cons)
next
  case False
  define k where "k = i - 1 - length pre"
  have k: "i = k + length pre + 1" "0 < k" using False by (auto simp: k_def)
  have "is_cont (r ! k)" "k < length r" using assms(2,3) k by (auto simp: nth_append)
  then have "0x80 \<le> r ! (k - 1)" using IH by blast
  moreover have "(a # pre @ r) ! (i - 1) = ((a # pre) @ r) ! (length (a # pre) + (k - 1))"
    using k by (simp add: add.commute)
  ultimately show ?thesis by (simp only: nth_append_length_plus)
qed

lemma valid_utf8_cont:
  assumes "valid_utf8 s" "i < length s" "is_cont (s ! i)"
  shows "0 < i \<and> 0x80 \<le> s ! (i - 1)"
  using assms
proof (induction s arbitrary: i rule: valid_utf8.induct)
  case 1
  then show ?case by simp
next
  case (2 a s)
  have "\<not> is_cont a" using "2.prems"(1)
    by (auto simp: is_cont_def word_le_nat_alt word_less_nat_alt split: if_splits)
  then have ipos: "0 < i" using "2.prems"(3) by (cases i) auto
  note behind = cont_behind [OF ipos, of a]
  show ?case
  proof (cases "a < 0x80")
    case True
    then have v: "valid_utf8 s" using "2.prems"(1) by simp
    have s: "i - 1 < length s" "is_cont (s ! (i - 1))" using "2.prems"(2,3) ipos by (auto simp: nth_Cons')
    from "2.IH"(1) [OF True v s] ipos show ?thesis by (simp add: nth_Cons')
  next
    case False
    then have big: "0x80 \<le> a" by simp
    from "2.prems"(1) False show ?thesis
    proof (cases rule: valid_utf8_multi_cases)
      case (two b r)
      have "0x80 \<le> (a # [b] @ r) ! (i - 1)"
        by (rule behind) (use two "2.prems"(2,3) "2.IH"(2) [OF False two(4) two(1) [simplified] two(2)] big in \<open>auto dest: is_cont_ge\<close>)
      with two(1) ipos show ?thesis by simp
    next
      case (three b c r)
      have "0x80 \<le> (a # [b, c] @ r) ! (i - 1)"
        by (rule behind) (use three "2.prems"(2,3) "2.IH"(3) [OF False three(5,6) three(1) [simplified] refl three(2)] big in \<open>auto dest: is_cont_ge\<close>)
      with three(1) ipos show ?thesis by simp
    next
      case (four b c d r)
      have "0x80 \<le> (a # [b, c, d] @ r) ! (i - 1)"
        by (rule behind) (use four "2.prems"(2,3) "2.IH"(4) [OF False four(6,7,8) four(1) [simplified] refl refl four(2)] big in \<open>auto dest: is_cont_ge\<close>)
      with four(1) ipos show ?thesis by simp
    qed
  qed
qed

text \<open>Valid texts can be joined, and cut where no continuation byte follows.\<close>

lemma valid_utf8_two:
  "\<not> a < 0x80 \<Longrightarrow> 0xC2 \<le> a \<and> a \<le> 0xDF \<Longrightarrow> valid_utf8 ([a, b] @ r) \<longleftrightarrow> is_cont b \<and> valid_utf8 r"
  by simp

lemma valid_utf8_three:
  "\<not> a < 0x80 \<Longrightarrow> \<not> (0xC2 \<le> a \<and> a \<le> 0xDF) \<Longrightarrow> 0xE0 \<le> a \<and> a \<le> 0xEF \<Longrightarrow>
     valid_utf8 ([a, b, c] @ r) \<longleftrightarrow>
     is_cont b \<and> is_cont c \<and> (a = 0xE0 \<longrightarrow> 0xA0 \<le> b) \<and> (a = 0xED \<longrightarrow> b \<le> 0x9F) \<and> valid_utf8 r"
  by (simp only: append_Cons append_Nil valid_utf8.simps(2) if_False if_True list.case simp_thms)

lemma valid_utf8_four:
  "\<not> a < 0x80 \<Longrightarrow> \<not> (0xC2 \<le> a \<and> a \<le> 0xDF) \<Longrightarrow> \<not> (0xE0 \<le> a \<and> a \<le> 0xEF) \<Longrightarrow> 0xF0 \<le> a \<and> a \<le> 0xF4 \<Longrightarrow>
     valid_utf8 ([a, b, c, d] @ r) \<longleftrightarrow>
     is_cont b \<and> is_cont c \<and> is_cont d \<and> (a = 0xF0 \<longrightarrow> 0x90 \<le> b) \<and> (a = 0xF4 \<longrightarrow> b \<le> 0x8F) \<and> valid_utf8 r"
  by (simp only: append_Cons append_Nil valid_utf8.simps(2) if_False if_True list.case simp_thms)

lemma valid_utf8_append: "valid_utf8 a \<Longrightarrow> valid_utf8 (a @ b) = valid_utf8 b"
proof (induction a rule: valid_utf8.induct)
  case (2 x s)
  show ?case
  proof (cases "x < 0x80")
    case True
    with 2 show ?thesis by simp
  next
    case False
    from "2.prems" False show ?thesis
    proof (cases rule: valid_utf8_multi_cases)
      case (two c r)
      have "valid_utf8 (r @ b) = valid_utf8 b" using "2.IH"(2) [OF False two(4)] two(1,2) by simp
      then show ?thesis using valid_utf8_two [OF False two(4), of c "r @ b"] two(1,3) by simp
    next
      case (three c d r)
      have "valid_utf8 (r @ b) = valid_utf8 b" using "2.IH"(3) [OF False three(5,6)] three(1,2) by simp
      then show ?thesis
        using valid_utf8_three [OF False three(5,6), of c d] "2.prems" three(1) by (metis append.assoc append_Cons)
    next
      case (four c d e r)
      have "valid_utf8 (r @ b) = valid_utf8 b" using "2.IH"(4) [OF False four(6,7,8)] four(1,2) by simp
      then show ?thesis
        using valid_utf8_four [OF False four(6,7,8), of c d e] "2.prems" four(1) by (metis append.assoc append_Cons)
    qed
  qed
qed simp

lemma valid_utf8_prefix:
  "valid_utf8 (a @ b) \<Longrightarrow> b = [] \<or> \<not> is_cont (hd b) \<Longrightarrow> valid_utf8 a"
proof (induction a rule: valid_utf8.induct)
  case (2 x s)
  have v: "valid_utf8 (x # (s @ b))" using "2.prems"(1) by simp
  show ?case
  proof (cases "x < 0x80")
    case True
    with 2 show ?thesis by simp
  next
    case False
    from v False show ?thesis
    proof (cases rule: valid_utf8_multi_cases)
      case (two c r)
      then obtain s' where "s = c # s'" "r = s' @ b" using "2.prems"(2) by (cases s) auto
      moreover from this have "valid_utf8 s'" using "2.IH"(2) [OF False two(4)] "2.prems"(2) two(2) by simp
      ultimately show ?thesis using valid_utf8_two [OF False two(4), of c s'] two(3) by simp
    next
      case (three c d r)
      then obtain s' where "s = c # d # s'" "r = s' @ b"
        using "2.prems"(2) by (cases s; cases "tl s") auto
      moreover from this have "valid_utf8 s'"
        using "2.IH"(3) [OF False three(5,6)] "2.prems"(2) three(2) by simp
      ultimately show ?thesis
        using valid_utf8_three [OF False three(5,6), of c d] v three(1) by (metis append.assoc append_Cons append_Nil)
    next
      case (four c d e r)
      then obtain s' where "s = c # d # e # s'" "r = s' @ b"
        using "2.prems"(2) by (cases s; cases "tl s"; cases "tl (tl s)") auto
      moreover from this have "valid_utf8 s'"
        using "2.IH"(4) [OF False four(6,7,8)] "2.prems"(2) four(2) by simp
      ultimately show ?thesis
        using valid_utf8_four [OF False four(6,7,8), of c d e] v four(1) by (metis append.assoc append_Cons append_Nil)
    qed
  qed
qed simp

lemma valid_utf8_cut:
  assumes "valid_utf8 s" "i \<le> length s" "i = length s \<or> \<not> is_cont (s ! i)"
  shows "valid_utf8 (take i s)" "valid_utf8 (drop i s)"
proof -
  have "valid_utf8 (take i s @ drop i s)" using assms(1) by simp
  moreover have "drop i s = [] \<or> \<not> is_cont (hd (drop i s))"
    using assms(2,3) by (cases "i = length s") (auto simp: hd_drop_conv_nth)
  ultimately show "valid_utf8 (take i s)" by (rule valid_utf8_prefix)
  then show "valid_utf8 (drop i s)" using valid_utf8_append [of "take i s" "drop i s"] assms(1) by simp
qed

section \<open>Splitting\<close>

fun split_once :: "'a \<Rightarrow> 'a list \<Rightarrow> ('a list \<times> 'a list) option" where
  "split_once c [] = None"
| "split_once c (x # xs) =
     (if x = c then Some ([], xs) else map_option (\<lambda>(a, b). (x # a, b)) (split_once c xs))"

definition rsplit_once :: "'a \<Rightarrow> 'a list \<Rightarrow> ('a list \<times> 'a list) option" where
  "rsplit_once c s = map_option (\<lambda>(a, b). (rev b, rev a)) (split_once c (rev s))"

fun strip_prefix :: "'a list \<Rightarrow> 'a list \<Rightarrow> 'a list option" where
  "strip_prefix [] s = Some s"
| "strip_prefix (p # ps) [] = None"
| "strip_prefix (p # ps) (x # xs) = (if x = p then strip_prefix ps xs else None)"

text \<open>\<open>split\<close> on a one-byte character, and on a string such as a line break.\<close>

fun split_on :: "'a \<Rightarrow> 'a list \<Rightarrow> 'a list list" where
  "split_on c [] = [[]]"
| "split_on c (x # xs) =
     (if x = c then [] # split_on c xs
      else (case split_on c xs of [] \<Rightarrow> [[x]] | y # ys \<Rightarrow> (x # y) # ys))"

function split_seq :: "'a list \<Rightarrow> 'a list \<Rightarrow> 'a list list" where
  "split_seq p s =
     (if p = [] then [s]
      else (case find_sub p s of
              None \<Rightarrow> [s]
            | Some i \<Rightarrow> take i s # split_seq p (drop (i + length p) s)))"
  by pat_completeness auto
termination
proof (relation "measure (\<lambda>(p, s). length s)", goal_cases)
  case (2 p s i)
  then have "i + length p \<le> length s" by (intro find_sub_length)
  with 2 show ?case by (cases p) auto
qed simp

declare split_seq.simps [simp del]

definition trim_end_matches :: "'a \<Rightarrow> 'a list \<Rightarrow> 'a list" where
  "trim_end_matches c s = rev (dropWhile ((=) c) (rev s))"

lemma split_once_eq_Some:
  "split_once c s = Some (a, b) \<longleftrightarrow> s = a @ c # b \<and> c \<notin> set a"
proof (induction s arbitrary: a)
  case (Cons x xs)
  show ?case
  proof (cases "x = c")
    case True
    then show ?thesis by (cases a) auto
  next
    case False
    then have "split_once c (x # xs) = Some (a, b) \<longleftrightarrow>
        (\<exists>a'. a = x # a' \<and> split_once c xs = Some (a', b))" by auto
    also have "\<dots> \<longleftrightarrow> (\<exists>a'. a = x # a' \<and> xs = a' @ c # b \<and> c \<notin> set a')" by (simp only: Cons.IH)
    also have "\<dots> \<longleftrightarrow> x # xs = a @ c # b \<and> c \<notin> set a" using False by (cases a) auto
    finally show ?thesis .
  qed
qed simp

lemma split_once_append: "c \<notin> set a \<Longrightarrow> split_once c (a @ c # b) = Some (a, b)"
  by (simp add: split_once_eq_Some)

lemma split_once_eq_None: "split_once c s = None \<longleftrightarrow> c \<notin> set s"
  by (induction s) auto

lemma rsplit_once_eq_Some:
  "rsplit_once c s = Some (a, b) \<longleftrightarrow> s = a @ c # b \<and> c \<notin> set b"
proof -
  have "rsplit_once c s = Some (a, b) \<longleftrightarrow> split_once c (rev s) = Some (rev b, rev a)"
    by (auto simp: rsplit_once_def)
  also have "\<dots> \<longleftrightarrow> rev s = rev b @ c # rev a \<and> c \<notin> set b" by (simp add: split_once_eq_Some)
  also have "\<dots> \<longleftrightarrow> s = a @ c # b \<and> c \<notin> set b"
    by (metis append.assoc append_Cons append_Nil rev.simps(2) rev_append rev_rev_ident)
  finally show ?thesis .
qed

lemma rsplit_once_append: "c \<notin> set b \<Longrightarrow> rsplit_once c (a @ c # b) = Some (a, b)"
  by (simp add: rsplit_once_eq_Some)

lemma rsplit_once_eq_None: "rsplit_once c s = None \<longleftrightarrow> c \<notin> set s"
  by (simp add: rsplit_once_def split_once_eq_None)

lemma strip_prefix_eq_Some: "strip_prefix p s = Some r \<longleftrightarrow> s = p @ r"
  by (induction p s rule: strip_prefix.induct) auto

lemma strip_prefix_single: "strip_prefix [p] s = (case s of [] \<Rightarrow> None | x # xs \<Rightarrow> if x = p then Some xs else None)"
  by (cases s) simp_all

lemma split_on_neq_Nil [simp]: "split_on c s \<noteq> []"
  by (induction s) (auto split: list.splits)

lemma split_on_no_sep: "c \<notin> set s \<Longrightarrow> split_on c s = [s]"
  by (induction s) auto

lemma split_on_append: "c \<notin> set a \<Longrightarrow> split_on c (a @ c # s) = a # split_on c s"
  by (induction a) auto

lemma split_on_map: "(\<And>x. x \<in> set s \<Longrightarrow> f x = d \<longleftrightarrow> x = c) \<Longrightarrow> split_on d (map f s) = map (map f) (split_on c s)"
  by (induction s) (auto split: list.splits)

lemma split_on_cover:
  "e \<in> set s \<Longrightarrow> e = c \<or> (\<exists>l \<in> set (split_on c s). e \<in> set l)"
proof (induction s)
  case (Cons x xs)
  obtain y ys where y: "split_on c xs = y # ys" by (cases "split_on c xs") auto
  show ?case
  proof (cases "e = x")
    case True
    then show ?thesis using y by (cases "x = c") auto
  next
    case False
    with Cons have "e = c \<or> (\<exists>l \<in> set (y # ys). e \<in> set l)" using y by simp
    then show ?thesis using y by (cases "x = c") auto
  qed
qed simp

lemma dropWhile_dropWhile_same: "dropWhile P (dropWhile P xs) = dropWhile P xs"
  by (induction xs) auto

lemma trim_end_matches_idem [simp]: "trim_end_matches c (trim_end_matches c s) = trim_end_matches c s"
  by (simp add: trim_end_matches_def dropWhile_dropWhile_same)

lemma trim_end_matches_id: "s = [] \<or> last s \<noteq> c \<Longrightarrow> trim_end_matches c s = s"
  by (cases s rule: rev_cases) (auto simp: trim_end_matches_def)

lemma trim_end_matches_snoc: "trim_end_matches c (s @ [c]) = trim_end_matches c s"
  by (simp add: trim_end_matches_def)

section \<open>Unicode white space (\<open>trim\<close>, \<open>split_whitespace\<close>) and lines\<close>

definition is_ws1 :: "u8 \<Rightarrow> bool" where
  "is_ws1 a \<longleftrightarrow> a = 32 \<or> (9 \<le> a \<and> a \<le> 13)"

definition is_ws2 :: "u8 \<Rightarrow> u8 \<Rightarrow> bool" where
  "is_ws2 a b \<longleftrightarrow> a = 0xC2 \<and> (b = 0x85 \<or> b = 0xA0)"

definition is_ws3 :: "u8 \<Rightarrow> u8 \<Rightarrow> u8 \<Rightarrow> bool" where
  "is_ws3 a b c \<longleftrightarrow>
     a = 0xE1 \<and> b = 0x9A \<and> c = 0x80 \<or>
     a = 0xE2 \<and> b = 0x80 \<and> (0x80 \<le> c \<and> c \<le> 0x8A \<or> c = 0xA8 \<or> c = 0xA9 \<or> c = 0xAF) \<or>
     a = 0xE2 \<and> b = 0x81 \<and> c = 0x9F \<or>
     a = 0xE3 \<and> b = 0x80 \<and> c = 0x80"

text \<open>Length of the white space character a text starts with; 0 if it starts with none.\<close>

definition ws_len :: "str \<Rightarrow> nat" where
  "ws_len s =
     (case s of
        [] \<Rightarrow> 0
      | a # s1 \<Rightarrow>
          if is_ws1 a then 1
          else (case s1 of
                  [] \<Rightarrow> 0
                | b # s2 \<Rightarrow>
                    if is_ws2 a b then 2
                    else (case s2 of [] \<Rightarrow> 0 | c # _ \<Rightarrow> if is_ws3 a b c then 3 else 0)))"

text \<open>The same at the end of a text, given reversed.\<close>

definition rws_len :: "str \<Rightarrow> nat" where
  "rws_len s =
     (case s of
        [] \<Rightarrow> 0
      | a # s1 \<Rightarrow>
          if is_ws1 a then 1
          else (case s1 of
                  [] \<Rightarrow> 0
                | b # s2 \<Rightarrow>
                    if is_ws2 b a then 2
                    else (case s2 of [] \<Rightarrow> 0 | c # _ \<Rightarrow> if is_ws3 c b a then 3 else 0)))"

lemma ws_len_Nil [simp]: "ws_len [] = 0"
  by (simp add: ws_len_def)

lemma rws_len_Nil [simp]: "rws_len [] = 0"
  by (simp add: rws_len_def)

function trim_start :: "str \<Rightarrow> str" where
  "trim_start s = (if ws_len s = 0 then s else trim_start (drop (ws_len s) s))"
  by pat_completeness auto
termination
  by (relation "measure length") (auto simp: ws_len_def split: list.splits if_splits)

function trim_rev :: "str \<Rightarrow> str" where
  "trim_rev s = (if rws_len s = 0 then s else trim_rev (drop (rws_len s) s))"
  by pat_completeness auto
termination
  by (relation "measure length") (auto simp: rws_len_def split: list.splits if_splits)

declare trim_start.simps [simp del] trim_rev.simps [simp del]

definition trim :: "str \<Rightarrow> str" where
  "trim s = rev (trim_rev (rev (trim_start s)))"

fun take_word :: "str \<Rightarrow> str \<times> str" where
  "take_word [] = ([], [])"
| "take_word (x # xs) =
     (if ws_len (x # xs) \<noteq> 0 then ([], x # xs)
      else (case take_word xs of (w, r) \<Rightarrow> (x # w, r)))"

lemma length_take_word: "length (snd (take_word s)) \<le> length s"
  by (induction s) (auto split: prod.splits)

lemma take_word_append: "fst (take_word s) @ snd (take_word s) = s"
  by (induction s) (auto split: prod.splits)

lemma length_trim_start: "length (trim_start s) \<le> length s"
proof (induction s rule: trim_start.induct)
  case (1 s)
  then show ?case by (subst trim_start.simps) (auto intro: order_trans)
qed

lemma ws_len_trim_start: "ws_len (trim_start s) = 0"
proof (induction s rule: trim_start.induct)
  case (1 s)
  then show ?case by (subst trim_start.simps) auto
qed

lemma take_word_shorter:
  assumes "trim_start s \<noteq> []"
  shows "length (snd (take_word (trim_start s))) < length s"
proof -
  obtain x xs where x: "trim_start s = x # xs" using assms by (cases "trim_start s") auto
  then have "length (snd (take_word (trim_start s))) < length (trim_start s)"
    using ws_len_trim_start [of s] length_take_word [of xs] by (auto split: prod.splits)
  then show ?thesis using length_trim_start [of s] by linarith
qed

function split_whitespace :: "str \<Rightarrow> str list" where
  "split_whitespace s =
     (if trim_start s = [] then []
      else fst (take_word (trim_start s)) # split_whitespace (snd (take_word (trim_start s))))"
  by pat_completeness auto
termination
  by (relation "measure length") (auto dest: take_word_shorter)

declare split_whitespace.simps [simp del]

text \<open>\<open>lines().next()\<close>: the text up to the first line feed, without a carriage return before it.\<close>

definition first_line :: "str \<Rightarrow> str option" where
  "first_line s =
     (if s = [] then None
      else (case split_once 10 s of
              None \<Rightarrow> Some s
            | Some (l, _) \<Rightarrow> Some (if l \<noteq> [] \<and> last l = 13 then butlast l else l)))"

lemma trim_start_id: "ws_len s = 0 \<Longrightarrow> trim_start s = s"
  by (subst trim_start.simps) simp

lemma trim_rev_id: "rws_len s = 0 \<Longrightarrow> trim_rev s = s"
  by (subst trim_rev.simps) simp

lemma trim_start_space: "trim_start (32 # s) = trim_start s"
  by (subst trim_start.simps) (simp add: ws_len_def is_ws1_def)

text \<open>Text that starts and ends with a visible ASCII character is not trimmed.\<close>

definition visible :: "u8 \<Rightarrow> bool" where
  "visible b \<longleftrightarrow> 33 \<le> b \<and> b \<le> 126"

lemma visible_not_ws: "visible a \<Longrightarrow> \<not> is_ws1 a \<and> \<not> is_ws2 a b \<and> \<not> is_ws2 b a \<and> \<not> is_ws3 a b c \<and> \<not> is_ws3 c b a"
  by (auto simp: visible_def is_ws1_def is_ws2_def is_ws3_def word_le_nat_alt)

lemma trim_visible:
  assumes "s = [] \<or> visible (hd s) \<and> visible (last s)"
  shows "trim s = s"
proof -
  have "ws_len s = 0" using assms
    by (cases s) (auto simp: ws_len_def visible_not_ws split: list.splits)
  moreover have "rws_len (rev s) = 0" using assms
    by (cases s rule: rev_cases) (auto simp: rws_len_def visible_not_ws split: list.splits)
  ultimately show ?thesis by (simp add: trim_def trim_start_id trim_rev_id)
qed

lemma trim_space_visible: "visible (hd s) \<Longrightarrow> visible (last s) \<Longrightarrow> trim (32 # s) = s"
  using trim_visible [of s] by (simp add: trim_def trim_start_space)

lemma alphanumeric_visible: "is_ascii_alphanumeric b \<Longrightarrow> visible b"
  by (auto simp: is_ascii_alphanumeric_def visible_def word_le_nat_alt)

section \<open>Numbers in text\<close>

fun show_nat :: "nat \<Rightarrow> str" where
  "show_nat n = (if n < 10 then [48 + of_nat n] else show_nat (n div 10) @ [48 + of_nat (n mod 10)])"

declare show_nat.simps [simp del]

definition hex_digit :: "nat \<Rightarrow> u8" where
  "hex_digit d = (if d < 10 then 48 + of_nat d else 87 + of_nat d)"

fun show_hex :: "nat \<Rightarrow> str" where
  "show_hex n = (if n < 16 then [hex_digit n] else show_hex (n div 16) @ [hex_digit (n mod 16)])"

declare show_hex.simps [simp del]

text \<open>
  \<open>str::parse::<u16>\<close>: an optional plus sign, then at least one digit, with the overflow check of
  each step.
\<close>

fun parse_dec :: "nat \<Rightarrow> nat \<Rightarrow> str \<Rightarrow> nat option" where
  "parse_dec mx acc [] = Some acc"
| "parse_dec mx acc (c # cs) =
     (if is_ascii_digit c \<and> acc * 10 + unat (c - 48) \<le> mx
      then parse_dec mx (acc * 10 + unat (c - 48)) cs else None)"

definition parse_u16 :: "str \<Rightarrow> u16 option" where
  "parse_u16 s =
     (case s of
        [] \<Rightarrow> None
      | c # cs \<Rightarrow>
          if c = 43 then (if cs = [] then None else map_option of_nat (parse_dec 65535 0 cs))
          else map_option of_nat (parse_dec 65535 0 s))"

lemma parse_dec_append:
  "parse_dec mx acc (a @ b) = Option.bind (parse_dec mx acc a) (\<lambda>v. parse_dec mx v b)"
  by (induction a arbitrary: acc) auto

lemma unat_of_nat8: "n < 256 \<Longrightarrow> unat (of_nat n :: u8) = n"
  by (simp add: unat_of_nat)

lemma dec_digit: "d < 10 \<Longrightarrow> is_ascii_digit (48 + of_nat d) \<and> unat ((48 + of_nat d :: u8) - 48) = d"
  by (simp add: is_ascii_digit_def word_le_nat_alt unat_word_ariths unat_of_nat8)

lemma parse_dec_show_nat: "n \<le> mx \<Longrightarrow> parse_dec mx 0 (show_nat n) = Some n"
proof (induction n rule: show_nat.induct)
  case (1 n)
  show ?case
  proof (cases "n < 10")
    case True
    with 1 dec_digit [of n] show ?thesis by (simp add: show_nat.simps [of n])
  next
    case False
    have "n div 10 * 10 + n mod 10 = n" by simp
    with False 1 dec_digit [of "n mod 10"] show ?thesis
      by (simp add: show_nat.simps [of n] parse_dec_append)
  qed
qed

lemma show_nat_digits: "c \<in> set (show_nat n) \<Longrightarrow> is_ascii_digit c"
proof (induction n rule: show_nat.induct)
  case (1 n)
  show ?case
  proof (cases "n < 10")
    case True
    with 1(2) dec_digit [of n] show ?thesis by (simp add: show_nat.simps [of n])
  next
    case False
    with 1 dec_digit [of "n mod 10"] show ?thesis by (auto simp: show_nat.simps [of n])
  qed
qed

lemma show_nat_neq_Nil [simp]: "show_nat n \<noteq> []"
  by (subst show_nat.simps) simp

lemma show_hex_neq_Nil [simp]: "show_hex n \<noteq> []"
  by (subst show_hex.simps) simp

lemma digit_alphanumeric: "is_ascii_digit c \<Longrightarrow> is_ascii_alphanumeric c"
  by (simp add: is_ascii_digit_def is_ascii_alphanumeric_def)

lemma digit_neq: "is_ascii_digit c \<Longrightarrow> c \<noteq> 43 \<and> c \<noteq> 58 \<and> c \<noteq> 91 \<and> c \<noteq> 93"
  by (auto simp: is_ascii_digit_def)

lemma hex_digit_alphanumeric: "d < 16 \<Longrightarrow> is_ascii_alphanumeric (hex_digit d)"
  by (auto simp: hex_digit_def is_ascii_alphanumeric_def word_le_nat_alt unat_word_ariths unat_of_nat8)

lemma show_hex_alphanumeric: "c \<in> set (show_hex n) \<Longrightarrow> is_ascii_alphanumeric c"
proof (induction n rule: show_hex.induct)
  case (1 n)
  show ?case
  proof (cases "n < 16")
    case True
    with 1(2) hex_digit_alphanumeric [of n] show ?thesis by (simp add: show_hex.simps [of n])
  next
    case False
    with 1 hex_digit_alphanumeric [of "n mod 16"] show ?thesis by (auto simp: show_hex.simps [of n])
  qed
qed

lemma parse_u16_show_nat: "parse_u16 (show_nat (unat (p :: u16))) = Some p"
proof -
  obtain c cs where c: "show_nat (unat p) = c # cs" by (cases "show_nat (unat p)") auto
  then have "is_ascii_digit c" using show_nat_digits [of c "unat p"] by simp
  then have "c \<noteq> 43" by (simp add: digit_neq)
  moreover have "unat p < 2 ^ LENGTH(16)" by (rule unsigned_less)
  then have "unat p \<le> 65535" by simp
  then have "parse_dec 65535 0 (c # cs) = Some (unat p)" using c parse_dec_show_nat by metis
  ultimately show ?thesis by (simp add: parse_u16_def c del: parse_dec.simps)
qed

end
