(* ===== verification/Ip_Addr.thy ===== *)
theory Ip_Addr
  imports Rust_Str
begin

text \<open>
  \<open>std::net::IpAddr\<close> as the program uses it: equality, \<open>is_loopback\<close>, and the text \<open>Display\<close>
  prints (dotted decimal for IPv4; for IPv6 the longest run of zero groups as \<open>::\<close>, and an
  IPv4-mapped address with its dotted tail).
\<close>

datatype ip_addr = V4 u8 u8 u8 u8 | V6 u16 u16 u16 u16 u16 u16 u16 u16

fun is_loopback :: "ip_addr \<Rightarrow> bool" where
  "is_loopback (V4 a b c d) = (a = 127)"
| "is_loopback (V6 a b c d e f g h) = ([a, b, c, d, e, f, g, h] = [0, 0, 0, 0, 0, 0, 0, 1])"

definition show_v4 :: "u8 \<Rightarrow> u8 \<Rightarrow> u8 \<Rightarrow> u8 \<Rightarrow> str" where
  "show_v4 a b c d =
     show_nat (unat a) @ [46] @ show_nat (unat b) @ [46] @ show_nat (unat c) @ [46] @ show_nat (unat d)"

fun show_groups :: "u16 list \<Rightarrow> str" where
  "show_groups [] = []"
| "show_groups [x] = show_hex (unat x)"
| "show_groups (x # y # zs) = show_hex (unat x) @ [58] @ show_groups (y # zs)"

text \<open>The longest run of zero groups, the first of equal ones: \<open>(start, length)\<close>.\<close>

fun longest_zeros :: "u16 list \<Rightarrow> nat \<Rightarrow> nat \<times> nat \<Rightarrow> nat \<times> nat \<Rightarrow> nat \<times> nat" where
  "longest_zeros [] i longest current = longest"
| "longest_zeros (x # xs) i longest current =
     (if x = 0 then
        (let cur = (if snd current = 0 then (i, 1) else (fst current, snd current + 1));
             lon = (if snd cur > snd longest then cur else longest)
         in longest_zeros xs (i + 1) lon cur)
      else longest_zeros xs (i + 1) longest (0, 0))"

definition show_v6 :: "u16 list \<Rightarrow> str" where
  "show_v6 gs =
     (if take 6 gs = [0, 0, 0, 0, 0, 0xFFFF] \<and> length gs = 8 then
        lit ''::ffff:'' @ show_v4 (ucast (drop_bit 8 (gs ! 6))) (ucast (gs ! 6))
          (ucast (drop_bit 8 (gs ! 7))) (ucast (gs ! 7))
      else
        (case longest_zeros gs 0 (0, 0) (0, 0) of (start, len) \<Rightarrow>
           if len > 1 then show_groups (take start gs) @ [58, 58] @ show_groups (drop (start + len) gs)
           else show_groups gs))"

fun ip_to_string :: "ip_addr \<Rightarrow> str" where
  "ip_to_string (V4 a b c d) = show_v4 a b c d"
| "ip_to_string (V6 a b c d e f g h) = show_v6 [a, b, c, d, e, f, g, h]"

text \<open>The text of an address is made of letters, digits, dots and colons.\<close>

definition ip_byte :: "u8 \<Rightarrow> bool" where
  "ip_byte b \<longleftrightarrow> is_ascii_alphanumeric b \<or> b = 46 \<or> b = 58"

lemma ip_byte_show_nat: "b \<in> set (show_nat n) \<Longrightarrow> ip_byte b"
  by (simp add: ip_byte_def digit_alphanumeric show_nat_digits)

lemma ip_byte_show_v4: "b \<in> set (show_v4 x y z w) \<Longrightarrow> ip_byte b"
  by (auto simp: show_v4_def dest: ip_byte_show_nat) (auto simp: ip_byte_def)

lemma ip_byte_show_groups: "b \<in> set (show_groups gs) \<Longrightarrow> ip_byte b"
proof (induction gs rule: show_groups.induct)
  case (3 x y zs)
  then show ?case using show_hex_alphanumeric [of b "unat x"] by (auto simp: ip_byte_def)
qed (auto simp: ip_byte_def show_hex_alphanumeric)

lemma ip_byte_show_v6: "b \<in> set (show_v6 gs) \<Longrightarrow> ip_byte b"
proof -
  have c: "ip_byte 58" by (simp add: ip_byte_def)
  have f: "b' \<in> set (lit ''::ffff:'') \<Longrightarrow> ip_byte b'" for b'
    by (auto simp: lit_def ip_byte_def is_ascii_alphanumeric_def)
  show "b \<in> set (show_v6 gs) \<Longrightarrow> ip_byte b"
    using c f ip_byte_show_v4 ip_byte_show_groups
    by (auto simp: show_v6_def split: prod.splits if_splits)
qed

lemma ip_to_string_bytes: "b \<in> set (ip_to_string ip) \<Longrightarrow> ip_byte b"
  by (cases ip) (auto dest: ip_byte_show_v4 ip_byte_show_v6)

lemma ip_byte_neq: "ip_byte b \<Longrightarrow> b \<noteq> 10 \<and> b \<noteq> 13 \<and> b \<noteq> 32 \<and> b \<noteq> 35"
  using alphanumeric_neq by (auto simp: ip_byte_def)

lemma ip_to_string_clean: "b \<in> {10, 13, 32, 35} \<Longrightarrow> b \<notin> set (ip_to_string ip)"
  using ip_to_string_bytes ip_byte_neq by blast

end
