(* ===== verification/Fs.thy ===== *)
theory Fs
  imports Rust_Str
begin

text \<open>
  Paths and files as the program uses them through \<open>std::path\<close> and \<open>std::fs\<close>.

  A path is its list of components. The file system maps paths to files; what its next calls will do
  is a script of outcomes, so that every theorem about a program run covers its failures too: a call
  may succeed, be refused with nothing done, or, for a write, stop after some bytes. With the script
  used up, calls succeed whenever the file system allows it. Nothing here is code of the program.
\<close>

datatype component = RootDir | CurDir | ParentDir | Normal str

type_synonym path = "component list"

definition file_name :: "path \<Rightarrow> str option" where
  "file_name p = (case rev p of Normal n # _ \<Rightarrow> Some n | _ \<Rightarrow> None)"

definition parent :: "path \<Rightarrow> path option" where
  "parent p = (case rev p of [] \<Rightarrow> None | RootDir # _ \<Rightarrow> None | _ # rest \<Rightarrow> Some (rev rest))"

definition join :: "path \<Rightarrow> str \<Rightarrow> path" where
  "join dir name = dir @ [Normal name]"

text \<open>\<open>PathBuf::from\<close> on Unix: \<open>/\<close> separates, empty and \<open>.\<close> components vanish, except a leading one.\<close>

definition component_of :: "str \<Rightarrow> component" where
  "component_of c = (if c = [46, 46] then ParentDir else Normal c)"

definition path_from :: "str \<Rightarrow> path" where
  "path_from s =
     (let parts = split_on 47 s;
          lead = (if s \<noteq> [] \<and> hd s = 47 then [RootDir] else if hd parts = [46] then [CurDir] else [])
      in lead @ map component_of (filter (\<lambda>c. c \<noteq> [] \<and> c \<noteq> [46]) parts))"

record file_node =
  content :: bytes
  perms :: nat

datatype outcome = Succeeds | Refused | Partial nat

record fs =
  files :: "path \<Rightarrow> file_node option"
  script :: "outcome list"
  new_perms :: nat

definition next_outcome :: "fs \<Rightarrow> outcome" where
  "next_outcome s = (case script s of [] \<Rightarrow> Succeeds | x # _ \<Rightarrow> x)"

definition advance :: "fs \<Rightarrow> fs" where
  "advance s = s\<lparr>script := tl (script s)\<rparr>"

definition put :: "path \<Rightarrow> file_node \<Rightarrow> fs \<Rightarrow> fs" where
  "put p f s = s\<lparr>files := (files s)(p := Some f)\<rparr>"

definition perms_for :: "path \<Rightarrow> fs \<Rightarrow> nat" where
  "perms_for p s = (case files s p of None \<Rightarrow> new_perms s | Some f \<Rightarrow> perms f)"

definition fs_read_to_string :: "path \<Rightarrow> fs \<Rightarrow> str result \<times> fs" where
  "fs_read_to_string p s =
     (case next_outcome s of
        Succeeds \<Rightarrow>
          (case files s p of
             None \<Rightarrow> (Inl (IoError (lit ''not found'')), advance s)
           | Some f \<Rightarrow>
               (case from_utf8 (content f) of
                  None \<Rightarrow> (Inl (IoError (lit ''invalid data'')), advance s)
                | Some t \<Rightarrow> (Inr t, advance s)))
      | _ \<Rightarrow> (Inl (IoError (lit ''read'')), advance s))"

text \<open>\<open>File::open\<close>, and \<open>take(n).read_to_end\<close> on the open file.\<close>

definition fs_open :: "path \<Rightarrow> fs \<Rightarrow> bytes result \<times> fs" where
  "fs_open p s =
     (case (next_outcome s, files s p) of
        (Succeeds, Some f) \<Rightarrow> (Inr (content f), advance s)
      | _ \<Rightarrow> (Inl (IoError (lit ''open'')), advance s))"

definition fs_read_take :: "nat \<Rightarrow> bytes \<Rightarrow> fs \<Rightarrow> bytes result \<times> fs" where
  "fs_read_take n opened s =
     (case next_outcome s of
        Succeeds \<Rightarrow> (Inr (take n opened), advance s)
      | _ \<Rightarrow> (Inl (IoError (lit ''read'')), advance s))"

definition fs_write :: "path \<Rightarrow> bytes \<Rightarrow> fs \<Rightarrow> unit result \<times> fs" where
  "fs_write p bs s =
     (case next_outcome s of
        Succeeds \<Rightarrow> (Inr (), put p \<lparr>content = bs, perms = perms_for p s\<rparr> (advance s))
      | Refused \<Rightarrow> (Inl (IoError (lit ''write'')), advance s)
      | Partial k \<Rightarrow>
          (Inl (IoError (lit ''write'')), put p \<lparr>content = take k bs, perms = perms_for p s\<rparr> (advance s)))"

definition fs_metadata :: "path \<Rightarrow> fs \<Rightarrow> nat result \<times> fs" where
  "fs_metadata p s =
     (case next_outcome s of
        Succeeds \<Rightarrow>
          (case files s p of
             None \<Rightarrow> (Inl (IoError (lit ''not found'')), advance s)
           | Some f \<Rightarrow> (Inr (perms f), advance s))
      | _ \<Rightarrow> (Inl (IoError (lit ''metadata'')), advance s))"

definition fs_set_permissions :: "path \<Rightarrow> nat \<Rightarrow> fs \<Rightarrow> unit result \<times> fs" where
  "fs_set_permissions p m s =
     (case next_outcome s of
        Succeeds \<Rightarrow>
          (case files s p of
             None \<Rightarrow> (Inl (IoError (lit ''not found'')), advance s)
           | Some f \<Rightarrow> (Inr (), put p (f\<lparr>perms := m\<rparr>) (advance s)))
      | _ \<Rightarrow> (Inl (IoError (lit ''permissions'')), advance s))"

definition fs_rename :: "path \<Rightarrow> path \<Rightarrow> fs \<Rightarrow> unit result \<times> fs" where
  "fs_rename a b s =
     (case next_outcome s of
        Succeeds \<Rightarrow>
          (case files s a of
             None \<Rightarrow> (Inl (IoError (lit ''not found'')), advance s)
           | Some f \<Rightarrow> (Inr (), (advance s)\<lparr>files := ((files s)(a := None))(b := Some f)\<rparr>))
      | _ \<Rightarrow> (Inl (IoError (lit ''rename'')), advance s))"

definition fs_remove_file :: "path \<Rightarrow> fs \<Rightarrow> unit result \<times> fs" where
  "fs_remove_file p s =
     (case next_outcome s of
        Succeeds \<Rightarrow>
          (if files s p = None then (Inl (IoError (lit ''not found'')), advance s)
           else (Inr (), (advance s)\<lparr>files := (files s)(p := None)\<rparr>))
      | _ \<Rightarrow> (Inl (IoError (lit ''remove'')), advance s))"

lemma fs_open_files: "fs_open p s = (r, s') \<Longrightarrow> files s' = files s \<and> (\<forall>b. r = Inr b \<longrightarrow> map_option content (files s p) = Some b)"
  by (auto simp: fs_open_def advance_def split: outcome.splits option.splits)

lemma fs_read_take_Inr: "fs_read_take n b s = (r, s') \<Longrightarrow> files s' = files s \<and> (\<forall>t. r = Inr t \<longrightarrow> t = take n b)"
  by (auto simp: fs_read_take_def advance_def split: outcome.splits)

lemma advance_simps [simp]:
  "files (advance s) = files s" "new_perms (advance s) = new_perms s" "script (advance s) = tl (script s)"
  by (simp_all add: advance_def)

lemma put_simps [simp]:
  "files (put p f s) = (files s)(p := Some f)" "new_perms (put p f s) = new_perms s"
  "script (put p f s) = script s"
  by (simp_all add: put_def)

lemma next_outcome_empty [simp]: "script s = [] \<Longrightarrow> next_outcome s = Succeeds"
  by (simp add: next_outcome_def)

lemma advance_empty [simp]: "script s = [] \<Longrightarrow> advance s = s"
  by (simp add: advance_def)

text \<open>No call touches a file other than those it names.\<close>

lemma fs_frame:
  "fs_read_to_string p s = (r1, s1) \<Longrightarrow> files s1 = files s"
  "fs_metadata p s = (r2, s2) \<Longrightarrow> files s2 = files s"
  "fs_write p bs s = (r3, s3) \<Longrightarrow> q \<noteq> p \<Longrightarrow> files s3 q = files s q"
  "fs_set_permissions p m s = (r4, s4) \<Longrightarrow> q \<noteq> p \<Longrightarrow> files s4 q = files s q"
  "fs_rename a b s = (r5, s5) \<Longrightarrow> q \<noteq> a \<Longrightarrow> q \<noteq> b \<Longrightarrow> files s5 q = files s q"
  "fs_remove_file p s = (r6, s6) \<Longrightarrow> q \<noteq> p \<Longrightarrow> files s6 q = files s q"
  by (auto simp: fs_read_to_string_def fs_metadata_def fs_write_def fs_set_permissions_def fs_rename_def
      fs_remove_file_def split: outcome.splits option.splits if_splits)

lemma fs_write_Inr:
  "fs_write p bs s = (Inr u, s') \<Longrightarrow> files s' p = Some \<lparr>content = bs, perms = perms_for p s\<rparr>"
  by (auto simp: fs_write_def split: outcome.splits)

lemma fs_rename_result:
  "fs_rename a b s = (r, s') \<Longrightarrow> a \<noteq> b \<Longrightarrow>
     (case r of Inr _ \<Rightarrow> files s' a = None \<and> files s' b = files s a \<and> files s a \<noteq> None
      | Inl _ \<Rightarrow> files s' = files s)"
  by (auto simp: fs_rename_def split: outcome.splits option.splits)

end
