(* ===== verification/Target.thy ===== *)
theory Target
  imports Rust_Str
begin

text \<open>
  \<open>src/target.rs\<close>: the target of a connection, parsing and printing of \<open>host:port\<close>, and the check
  of host names. Bytes: 45 is '-', 46 is '.', 58 is ':', 91 is '[' and 93 is ']'.
\<close>

record target =
  t_host :: str
  t_port :: u16

definition parse_host_port :: "str \<Rightarrow> u16 \<Rightarrow> target result" where
  "parse_host_port value default_port =
     (if value = [] then bail ''empty host''
      else (case strip_prefix [91] value of
        Some inner \<Rightarrow>
          (case split_once 93 inner of
             None \<Rightarrow> bail ''invalid bracketed IPv6 host''
           | Some (h, rest) \<Rightarrow>
               (case strip_prefix [58] rest of
                  Some p \<Rightarrow>
                    (case parse_u16 p of
                       None \<Rightarrow> bail ''invalid port''
                     | Some n \<Rightarrow> Inr \<lparr>t_host = h, t_port = n\<rparr>)
                | None \<Rightarrow>
                    if rest = [] then Inr \<lparr>t_host = h, t_port = default_port\<rparr>
                    else bail ''invalid bracketed host suffix''))
      | None \<Rightarrow>
          (case rsplit_once 58 value of
             Some (h, p) \<Rightarrow>
               if 58 \<notin> set h \<and> p \<noteq> []
               then (case parse_u16 p of
                       None \<Rightarrow> bail ''invalid port''
                     | Some n \<Rightarrow> Inr \<lparr>t_host = h, t_port = n\<rparr>)
               else Inr \<lparr>t_host = value, t_port = default_port\<rparr>
           | None \<Rightarrow> Inr \<lparr>t_host = value, t_port = default_port\<rparr>)))"

definition format_target :: "target \<Rightarrow> str" where
  "format_target t =
     (if 58 \<in> set (t_host t) \<and> strip_prefix [91] (t_host t) = None
      then [91] @ t_host t @ [93, 58] @ show_nat (unat (t_port t))
      else t_host t @ [58] @ show_nat (unat (t_port t)))"

definition is_valid_dns_label :: "str \<Rightarrow> bool" where
  "is_valid_dns_label label =
     (let len = length label in
      if len = 0 \<or> len > 63 then False
      else is_ascii_alphanumeric (label ! 0) \<and> is_ascii_alphanumeric (label ! (len - 1)) \<and>
           (\<forall>b \<in> set label. is_ascii_alphanumeric b \<or> b = 45))"

definition is_valid_hostname :: "str \<Rightarrow> bool" where
  "is_valid_hostname h =
     (if h = [] \<or> length h > 253 \<or> hd h = 46 \<or> last h = 46 then False
      else (\<forall>l \<in> set (split_on 46 h). is_valid_dns_label l))"

section \<open>The grammar of \<open>host:port\<close>\<close>

text \<open>
  What \<open>parse_host_port\<close> accepts, one rule per form of the text: a bracketed host without or with
  a port, a host and a port around a single colon, and any other text as a host of its own.
\<close>

inductive host_port_form :: "str \<Rightarrow> u16 \<Rightarrow> str \<Rightarrow> u16 \<Rightarrow> bool" where
  bracketed: "93 \<notin> set h \<Longrightarrow> host_port_form (91 # h @ [93]) d h d"
| bracketed_port: "93 \<notin> set h \<Longrightarrow> parse_u16 p = Some n \<Longrightarrow> host_port_form (91 # h @ [93, 58] @ p) d h n"
| with_port: "take 1 h \<noteq> [91] \<Longrightarrow> 58 \<notin> set h \<Longrightarrow> 58 \<notin> set p \<Longrightarrow> p \<noteq> [] \<Longrightarrow> parse_u16 p = Some n \<Longrightarrow>
     host_port_form (h @ [58] @ p) d h n"
| bare: "v \<noteq> [] \<Longrightarrow> hd v \<noteq> 91 \<Longrightarrow> 58 \<notin> set v \<Longrightarrow> host_port_form v d v d"
| many_colons: "hd v \<noteq> 91 \<Longrightarrow> v = a @ [58] @ b \<Longrightarrow> 58 \<in> set b \<Longrightarrow> host_port_form v d v d"
| empty_port: "hd (h @ [58]) \<noteq> 91 \<Longrightarrow> host_port_form (h @ [58]) d (h @ [58]) d"

lemma parse_host_port_bracketed:
  "93 \<notin> set h \<Longrightarrow> parse_host_port (91 # h @ 93 # rest) d =
     (case strip_prefix [58] rest of
        Some p \<Rightarrow>
          (case parse_u16 p of None \<Rightarrow> bail ''invalid port'' | Some n \<Rightarrow> Inr \<lparr>t_host = h, t_port = n\<rparr>)
      | None \<Rightarrow>
          if rest = [] then Inr \<lparr>t_host = h, t_port = d\<rparr> else bail ''invalid bracketed host suffix'')"
  by (simp add: parse_host_port_def split_once_append)

lemma strip_bracket_None: "v = [] \<or> hd v \<noteq> 91 \<Longrightarrow> strip_prefix [91] v = None"
  by (cases v) auto

lemma parse_host_port_plain:
  "v \<noteq> [] \<Longrightarrow> hd v \<noteq> 91 \<Longrightarrow> parse_host_port v d =
     (case rsplit_once 58 v of
        Some (h, p) \<Rightarrow>
          if 58 \<notin> set h \<and> p \<noteq> []
          then (case parse_u16 p of None \<Rightarrow> bail ''invalid port'' | Some n \<Rightarrow> Inr \<lparr>t_host = h, t_port = n\<rparr>)
          else Inr \<lparr>t_host = v, t_port = d\<rparr>
      | None \<Rightarrow> Inr \<lparr>t_host = v, t_port = d\<rparr>)"
  by (simp add: parse_host_port_def strip_bracket_None del: strip_prefix.simps)

lemma parse_host_port_no_colon:
  "v \<noteq> [] \<Longrightarrow> hd v \<noteq> 91 \<Longrightarrow> 58 \<notin> set v \<Longrightarrow> parse_host_port v d = Inr \<lparr>t_host = v, t_port = d\<rparr>"
  by (simp add: parse_host_port_plain rsplit_once_eq_None [THEN iffD2])

lemma host_port_form_sound:
  "host_port_form v d h n \<Longrightarrow> parse_host_port v d = Inr \<lparr>t_host = h, t_port = n\<rparr>"
proof (induction rule: host_port_form.induct)
  case (bracketed h d)
  then show ?case by (simp add: parse_host_port_bracketed)
next
  case (bracketed_port h p n d)
  then show ?case by (simp add: parse_host_port_bracketed)
next
  case (with_port h p n d)
  then have "hd (h @ [58] @ p) \<noteq> 91" by (cases h) auto
  with with_port show ?case by (simp add: parse_host_port_plain rsplit_once_append)
next
  case (bare v d)
  then show ?case by (simp add: parse_host_port_no_colon)
next
  case (many_colons v a b d)
  then obtain b1 b2 where b: "b = b1 @ 58 # b2" "58 \<notin> set b2" by (meson split_list_last)
  then have "rsplit_once 58 v = Some (a @ [58] @ b1, b2)"
    using many_colons by (simp add: rsplit_once_eq_Some)
  with many_colons show ?case by (simp add: parse_host_port_plain)
next
  case (empty_port h d)
  then show ?case by (simp add: parse_host_port_plain rsplit_once_append)
qed

lemma host_port_form_complete_bracket:
  assumes "parse_host_port (91 # inner) d = Inr t"
  shows "host_port_form (91 # inner) d (t_host t) (t_port t)"
proof -
  obtain h rest where s: "split_once 93 inner = Some (h, rest)"
    using assms by (auto simp: parse_host_port_def split: option.splits)
  then have i: "inner = h @ 93 # rest" "93 \<notin> set h" by (simp_all add: split_once_eq_Some)
  show ?thesis
  proof (cases "strip_prefix [58] rest")
    case None
    with assms i have "rest = []" "t = \<lparr>t_host = h, t_port = d\<rparr>"
      by (auto simp: parse_host_port_bracketed split: if_splits)
    then show ?thesis using i bracketed [of h d] by simp
  next
    case (Some p)
    with assms i obtain n where "parse_u16 p = Some n" "t = \<lparr>t_host = h, t_port = n\<rparr>"
      by (auto simp: parse_host_port_bracketed split: option.splits)
    then show ?thesis using i Some bracketed_port [of h p n d] by (simp add: strip_prefix_eq_Some)
  qed
qed

lemma host_port_form_complete_plain:
  assumes v: "v \<noteq> []" "hd v \<noteq> 91" and p: "parse_host_port v d = Inr t"
  shows "host_port_form v d (t_host t) (t_port t)"
proof (cases "rsplit_once 58 v")
  case None
  with v p have "t = \<lparr>t_host = v, t_port = d\<rparr>" by (simp add: parse_host_port_plain)
  with None v bare [of v d] show ?thesis by (simp add: rsplit_once_eq_None)
next
  case (Some hp)
  obtain h q where hq: "hp = (h, q)" by (cases hp)
  with Some have e: "v = h @ [58] @ q" "58 \<notin> set q" by (simp_all add: rsplit_once_eq_Some)
  consider (port) "58 \<notin> set h" "q \<noteq> []" | (many) "58 \<in> set h" | (empty) "58 \<notin> set h" "q = []" by blast
  then show ?thesis
  proof cases
    case port
    then obtain n where n: "parse_u16 q = Some n" "t = \<lparr>t_host = h, t_port = n\<rparr>"
      using v p Some hq by (auto simp: parse_host_port_plain split: option.splits)
    have "take 1 h \<noteq> [91]" using v e by (cases h) auto
    then show ?thesis using with_port [of h q n d] port n e by simp
  next
    case many
    then obtain a b where "h = a @ 58 # b" by (meson split_list)
    then have "v = a @ [58] @ (b @ [58] @ q)" using e by simp
    moreover have "t = \<lparr>t_host = v, t_port = d\<rparr>" using v p Some hq many by (simp add: parse_host_port_plain)
    ultimately show ?thesis using many_colons [OF v(2), of a "b @ [58] @ q" d] by simp
  next
    case empty
    then have "t = \<lparr>t_host = v, t_port = d\<rparr>" using v p Some hq by (simp add: parse_host_port_plain)
    then show ?thesis using empty_port [of h d] v e empty by simp
  qed
qed

lemma host_port_form_complete:
  assumes "parse_host_port v d = Inr t"
  shows "host_port_form v d (t_host t) (t_port t)"
proof -
  have "v \<noteq> []" using assms by (auto simp: parse_host_port_def)
  then show ?thesis
    using assms host_port_form_complete_bracket host_port_form_complete_plain
    by (cases v; cases "hd v = 91") auto
qed

section \<open>Host names\<close>

lemma valid_label_bytes: "is_valid_dns_label l \<Longrightarrow> b \<in> set l \<Longrightarrow> is_ascii_alphanumeric b \<or> b = 45"
  by (auto simp: is_valid_dns_label_def Let_def split: if_splits)

lemma valid_label_ends:
  "is_valid_dns_label l \<Longrightarrow> l \<noteq> [] \<and> is_ascii_alphanumeric (hd l) \<and> is_ascii_alphanumeric (last l)"
  by (auto simp: is_valid_dns_label_def Let_def hd_conv_nth last_conv_nth split: if_splits)

lemma valid_hostname_labels: "is_valid_hostname h \<Longrightarrow> \<forall>l \<in> set (split_on 46 h). is_valid_dns_label l"
  by (simp add: is_valid_hostname_def split: if_splits)

lemma valid_hostname_bytes:
  assumes "is_valid_hostname h" "b \<in> set h"
  shows "is_ascii_alphanumeric b \<or> b = 45 \<or> b = 46"
proof -
  from assms(2) have "b = 46 \<or> (\<exists>l \<in> set (split_on 46 h). b \<in> set l)" by (rule split_on_cover)
  with valid_hostname_labels [OF assms(1)] valid_label_bytes show ?thesis by blast
qed

lemma valid_hostname_neq_Nil: "is_valid_hostname h \<Longrightarrow> h \<noteq> []"
  by (auto simp: is_valid_hostname_def)

lemma valid_hostname_no_byte:
  "is_valid_hostname h \<Longrightarrow> b \<in> {9, 10, 13, 32, 35, 58, 91, 93} \<Longrightarrow> b \<notin> set h"
  using valid_hostname_bytes alphanumeric_neq by fastforce

lemma split_on_hd: "s \<noteq> [] \<Longrightarrow> hd s \<noteq> c \<Longrightarrow> hd (split_on c s) \<noteq> [] \<and> hd (hd (split_on c s)) = hd s"
  by (cases s) (auto split: list.splits)

lemma split_on_last: "s \<noteq> [] \<Longrightarrow> last s \<noteq> c \<Longrightarrow> last (split_on c s) \<noteq> [] \<and> last (last (split_on c s)) = last s"
proof (induction s)
  case (Cons x xs)
  show ?case
  proof (cases "xs = []")
    case False
    with Cons have IH: "last (split_on c xs) \<noteq> []" "last (last (split_on c xs)) = last xs" by auto
    obtain y ys where y: "split_on c xs = y # ys" by (cases "split_on c xs") auto
    show ?thesis using IH y False by (cases "x = c"; cases "ys = []") (auto simp: Cons.prems)
  qed (use Cons.prems in auto)
qed simp

lemma valid_hostname_ends:
  assumes "is_valid_hostname h"
  shows "is_ascii_alphanumeric (hd h)" "is_ascii_alphanumeric (last h)"
proof -
  have h: "h \<noteq> []" "hd h \<noteq> 46" "last h \<noteq> 46" using assms by (auto simp: is_valid_hostname_def split: if_splits)
  have "hd (split_on 46 h) \<in> set (split_on 46 h)" "last (split_on 46 h) \<in> set (split_on 46 h)" by simp_all
  then have l: "is_valid_dns_label (hd (split_on 46 h))" "is_valid_dns_label (last (split_on 46 h))"
    using valid_hostname_labels [OF assms] by blast+
  show "is_ascii_alphanumeric (hd h)" using split_on_hd [OF h(1,2)] valid_label_ends [OF l(1)] by simp
  show "is_ascii_alphanumeric (last h)" using split_on_last [OF h(1,3)] valid_label_ends [OF l(2)] by simp
qed

lemma valid_hostname_trim: "is_valid_hostname h \<Longrightarrow> trim (32 # h) = h"
  using valid_hostname_ends alphanumeric_visible by (simp add: trim_space_visible)

lemma valid_label_lowercase: "is_valid_dns_label (map to_lower l) = is_valid_dns_label l"
proof -
  have "to_lower b = 45 \<longleftrightarrow> b = 45" for b by (rule to_lower_eq_punct) simp
  then show ?thesis by (auto simp: is_valid_dns_label_def Let_def)
qed

lemma valid_hostname_lowercase: "is_valid_hostname (to_ascii_lowercase h) = is_valid_hostname h"
proof (cases "h = []")
  case False
  have dot: "to_lower b = 46 \<longleftrightarrow> b = 46" for b by (rule to_lower_eq_punct) simp
  show ?thesis using False
    by (simp add: is_valid_hostname_def to_ascii_lowercase_def split_on_map [where c = 46, OF dot]
        hd_map last_map dot valid_label_lowercase)
qed (simp add: is_valid_hostname_def)

lemma valid_hostname_utf8: "is_valid_hostname h \<Longrightarrow> \<forall>b \<in> set h. b < 0x80"
  using valid_hostname_bytes by (fastforce simp: is_ascii_alphanumeric_def word_less_nat_alt word_le_nat_alt)

section \<open>Properties\<close>

text \<open>
  C30: \<open>parse_host_port\<close> accepts exactly the texts of the grammar \<open>host_port_form\<close>, with the host and
  port the grammar gives: on every other text it returns an error.
\<close>

theorem parse_host_port_iff_form:
  "parse_host_port v d = Inr t \<longleftrightarrow> host_port_form v d (t_host t) (t_port t)"
  using host_port_form_complete host_port_form_sound [of v d "t_host t" "t_port t"] by fastforce

text \<open>
  Printing a target and parsing the text gives the target back, whatever the default port, for
  every host that does not start with a bracket and, if it has a colon (an IPv6 address), has no
  closing bracket.
\<close>

lemma parse_format_target:
  assumes "take 1 (t_host t) \<noteq> [91]" and "58 \<notin> set (t_host t) \<or> 93 \<notin> set (t_host t)"
  shows "parse_host_port (format_target t) d = Inr t"
proof (cases "58 \<in> set (t_host t)")
  case True
  have "strip_prefix [91] (t_host t) = None" using assms(1) True by (cases "t_host t") auto
  with True assms(2) show ?thesis
    by (simp add: format_target_def parse_host_port_bracketed parse_u16_show_nat)
next
  case False
  have "58 \<notin> set (show_nat (unat (t_port t)))" using show_nat_digits digit_neq by blast
  moreover have "hd (t_host t @ 58 # show_nat (unat (t_port t))) \<noteq> 91" using assms(1) by (cases "t_host t") auto
  ultimately show ?thesis using False
    by (simp add: format_target_def parse_host_port_plain rsplit_once_append parse_u16_show_nat)
qed

text \<open>
  A valid host name holds only letters, digits, '-' and '.', so no byte that could end a line,
  start a comment or a field of the hosts file, or a header of a request.
\<close>

lemma valid_hostname_safe_bytes:
  assumes "is_valid_hostname h"
  shows "(\<forall>b \<in> set h. is_ascii_alphanumeric b \<or> b = 45 \<or> b = 46) \<and> 0 < length h \<and> length h \<le> 253 \<and>
         is_valid_hostname (to_ascii_lowercase h)"
  using assms valid_hostname_bytes [OF assms] valid_hostname_lowercase [of h]
  by (auto simp: is_valid_hostname_def split: if_splits)

end
