(* ===== verification/Hosts.thy ===== *)
theory Hosts
  imports Ip_Addr Fs Target
begin

text \<open>
  \<open>src/hosts.rs\<close>: the managed block of the hosts file: rendering it, replacing it in the text of the
  file, writing the file, and the whole synchronisation. String slices are modelled with their panic
  (\<open>None\<close>) when an offset is out of range or inside a character. Bytes: 10 and 13 are the line feed
  and carriage return, 32 is the space, 35 is '#'.
\<close>

definition BEGIN_MARK :: str where
  "BEGIN_MARK = lit ''# BEGIN nyasniproxy''"

definition END_MARK :: str where
  "END_MARK = lit ''# END nyasniproxy''"

definition render_block :: "ip_addr \<Rightarrow> str list \<Rightarrow> str \<Rightarrow> str" where
  "render_block ip names newline =
     BEGIN_MARK @ newline @
     (if names \<noteq> [] then ip_to_string ip @ concat (map (\<lambda>name. 32 # name) names) @ newline else []) @
     END_MARK @ newline"

section \<open>String slices on character boundaries\<close>

definition is_char_boundary :: "str \<Rightarrow> nat \<Rightarrow> bool" where
  "is_char_boundary s i \<longleftrightarrow> i = 0 \<or> i = length s \<or> (i < length s \<and> \<not> is_cont (s ! i))"

definition str_to :: "str \<Rightarrow> nat \<Rightarrow> str option" where
  "str_to s i = (if is_char_boundary s i then Some (take i s) else None)"

definition str_from :: "str \<Rightarrow> nat \<Rightarrow> str option" where
  "str_from s i = (if is_char_boundary s i then Some (drop i s) else None)"

definition starts_with :: "str \<Rightarrow> str \<Rightarrow> bool" where
  "starts_with s p \<longleftrightarrow> take (length p) s = p"

definition ends_with_newline :: "str \<Rightarrow> bool" where
  "ends_with_newline s \<longleftrightarrow> s \<noteq> [] \<and> last s = 10"

section \<open>Replacing the block\<close>

definition skip_eol :: "str \<Rightarrow> nat \<Rightarrow> nat option" where
  "skip_eol s offset = do {
     rest \<leftarrow> str_from s offset;
     Some (if starts_with rest [13, 10] then offset + 2
           else if starts_with rest [10] then offset + 1
           else offset)
   }"

definition splice :: "str \<Rightarrow> nat \<Rightarrow> nat \<Rightarrow> str \<Rightarrow> str option" where
  "splice original start after block = do {
     before \<leftarrow> str_to original start;
     behind \<leftarrow> str_from original after;
     Some (before @ block @ (if ends_with_newline block then [] else [10]) @ behind)
   }"

definition append_block :: "str \<Rightarrow> str \<Rightarrow> str" where
  "append_block original block =
     (let out1 = (if original \<noteq> [] \<and> \<not> ends_with_newline original then original @ [10] else original);
          out2 = (if out1 \<noteq> [] then out1 @ (if contains original [13, 10] then [13, 10] else [10]) else out1)
      in out2 @ block @ (if ends_with_newline block then [] else [10]))"

definition replace_managed_block :: "str \<Rightarrow> str \<Rightarrow> str option" where
  "replace_managed_block original block =
     (case (find_sub BEGIN_MARK original, find_sub END_MARK original) of
        (Some start, Some e) \<Rightarrow>
          if e > start then do {
            after \<leftarrow> skip_eol original (e + length END_MARK);
            splice original start after block
          }
          else splice original start (length original) block
      | (Some start, None) \<Rightarrow> splice original start (length original) block
      | (None, _) \<Rightarrow> Some (append_block original block))"

section \<open>Writing the file\<close>

definition hosts_tmp :: "path \<Rightarrow> str \<Rightarrow> path" where
  "hosts_tmp p name =
     join (case parent p of Some dir \<Rightarrow> if dir \<noteq> [] then dir else [CurDir] | None \<Rightarrow> [CurDir])
       (lit ''.'' @ name @ lit ''.nyasniproxy.tmp'')"

definition write_atomic :: "path \<Rightarrow> str \<Rightarrow> fs \<Rightarrow> unit result \<times> fs" where
  "write_atomic p text s =
     (case file_name p of
        None \<Rightarrow> (bail ''hosts path has no file name'', s)
      | Some name \<Rightarrow>
          (let tmp = hosts_tmp p name;
               cleanup = (\<lambda>s. snd (fs_remove_file tmp s))
           in case fs_write tmp text s of
                (Inl e, s1) \<Rightarrow> (with_context ''write temp hosts'' (Inl e), cleanup s1)
              | (Inr _, s1) \<Rightarrow>
                  (case (case fs_metadata p s1 of
                           (Inr m, s2) \<Rightarrow> fs_set_permissions tmp m s2
                         | (Inl _, s2) \<Rightarrow> (Inr (), s2)) of
                     (Inl e, s3) \<Rightarrow> (with_context ''copy hosts permissions'' (Inl e), cleanup s3)
                   | (Inr _, s3) \<Rightarrow>
                       (case fs_rename tmp p s3 of
                          (Inr _, s4) \<Rightarrow> (Inr (), s4)
                        | (Inl _, s4) \<Rightarrow>
                            (case fs_write p text s4 of
                               (r, s5) \<Rightarrow> (with_context ''write hosts'' r, cleanup s5))))))"

text \<open>\<open>sync_hosts\<close>: whether the file was changed. A panic of the block replacement ends the task.\<close>

definition sync_hosts :: "path \<Rightarrow> ip_addr \<Rightarrow> str list \<Rightarrow> fs \<Rightarrow> bool result \<times> fs" where
  "sync_hosts p ip names s =
     (case fs_read_to_string p s of
        (Inl e, s1) \<Rightarrow> (with_context ''read hosts'' (Inl e), s1)
      | (Inr original, s1) \<Rightarrow>
          (let newline = (if contains original [13, 10] then [13, 10] else [10]);
               block = render_block ip names newline
           in case replace_managed_block original block of
                None \<Rightarrow> (Inl Panicked, s1)
              | Some updated \<Rightarrow>
                  if updated = original then (Inr False, s1)
                  else (case write_atomic p updated s1 of
                          (Inl e, s2) \<Rightarrow> (Inl e, s2)
                        | (Inr _, s2) \<Rightarrow> (Inr True, s2))))"

section \<open>The marks in a text\<close>

lemma marks: "hd BEGIN_MARK = 35" "hd END_MARK = 35" "BEGIN_MARK \<noteq> []" "END_MARK \<noteq> []"
  "length BEGIN_MARK = 19" "length END_MARK = 17" "BEGIN_MARK ! 2 = 66" "END_MARK ! 2 = 69"
  "last END_MARK = 121" "last BEGIN_MARK = 121"
  by (simp_all add: BEGIN_MARK_def END_MARK_def lit_def)

lemma marks_clean: "b \<in> set BEGIN_MARK \<union> set END_MARK \<Longrightarrow> b \<noteq> 10 \<and> b \<noteq> 13 \<and> b < 0x80"
  by (auto simp: BEGIN_MARK_def END_MARK_def lit_def)

lemma begin_tl: "0 < k \<Longrightarrow> k < 19 \<Longrightarrow> BEGIN_MARK ! k \<noteq> 35"
proof -
  have "\<forall>b \<in> set (tl BEGIN_MARK). b \<noteq> 35" by (simp add: BEGIN_MARK_def lit_def)
  moreover assume "0 < k" "k < 19"
  then have "BEGIN_MARK ! k = tl BEGIN_MARK ! (k - 1)" "k - 1 < length (tl BEGIN_MARK)"
    using marks by (auto simp: nth_tl)
  ultimately show ?thesis by simp
qed

lemma occurs_at_take: "j + length p \<le> n \<Longrightarrow> occurs_at p (take n s) j \<longleftrightarrow> occurs_at p s j"
  by (simp add: occurs_at_def drop_take min_def)

text \<open>Keeping a text up to and with its first begin mark keeps where the mark is.\<close>

lemma begin_kept:
  assumes "find_sub BEGIN_MARK s = Some i"
  shows "find_sub BEGIN_MARK (take i s @ BEGIN_MARK @ rest) = Some i"
proof -
  have i: "i + 19 \<le> length s" "take 19 (drop i s) = BEGIN_MARK"
    using assms find_sub_length [of BEGIN_MARK s i] by (simp_all add: marks find_sub_eq_Some occurs_at_def)
  then have pre: "take i s @ BEGIN_MARK = take (i + 19) s" by (metis add.commute take_add)
  have "occurs_at BEGIN_MARK (take (i + 19) s @ rest) j \<longleftrightarrow> occurs_at BEGIN_MARK s j" if "j \<le> i" for j
    using that i by (simp add: occurs_at_append_iff occurs_at_take marks)
  then show ?thesis using assms pre by (simp add: find_sub_eq_Some marks flip: append_assoc)
qed

lemma end_before_kept:
  assumes "find_sub BEGIN_MARK s = Some i" "j \<le> i" 
  shows "occurs_at END_MARK (take i s @ BEGIN_MARK @ rest) j \<longleftrightarrow> occurs_at END_MARK s j"
proof -
  have i: "i + 19 \<le> length s" "take 19 (drop i s) = BEGIN_MARK"
    using assms find_sub_length [of BEGIN_MARK s i] by (simp_all add: marks find_sub_eq_Some occurs_at_def)
  then have pre: "take i s @ BEGIN_MARK = take (i + 19) s" by (metis add.commute take_add)
  have "occurs_at END_MARK (take (i + 19) s @ rest) j \<longleftrightarrow> occurs_at END_MARK s j"
    using assms(2) i by (simp add: occurs_at_append_iff occurs_at_take marks)
  then show ?thesis using pre by (simp flip: append_assoc)
qed

lemma begin_not_end: "\<not> occurs_at END_MARK (pre @ BEGIN_MARK @ rest) (length pre)"
proof
  assume "occurs_at END_MARK (pre @ BEGIN_MARK @ rest) (length pre)"
  from occurs_at_nth [OF this, of 2] show False by (simp add: marks nth_append)
qed

text \<open>The first end mark of \<open>pre\<close>, a begin mark, clean text and an end mark, if none starts in \<open>pre\<close>.\<close>

lemma end_after_begin:
  assumes "35 \<notin> set mid" "\<forall>j < length pre. \<not> occurs_at END_MARK (pre @ BEGIN_MARK @ mid @ END_MARK @ rest) j"
  shows "find_sub END_MARK (pre @ BEGIN_MARK @ mid @ END_MARK @ rest) = Some (length pre + 19 + length mid)"
proof -
  let ?s = "pre @ BEGIN_MARK @ mid @ END_MARK @ rest"
  have "occurs_at END_MARK ?s (length pre + 19 + length mid)" by (simp add: occurs_at_def marks)
  moreover have "\<not> occurs_at END_MARK ?s j" if "j < length pre + 19 + length mid" for j
  proof
    assume o: "occurs_at END_MARK ?s j"
    with assms(2) have j: "length pre \<le> j" by (meson not_le)
    then obtain k where k: "j = length pre + k" by (auto simp: le_iff_add)
    have h: "?s ! j = 35" using occurs_at_hd [OF o] by (simp add: marks)
    consider "k = 0" | "0 < k" "k < 19" | "19 \<le> k" by linarith
    then show False
    proof cases
      case 1
      with o k begin_not_end show False by simp
    next
      case 2
      then have "?s ! j = BEGIN_MARK ! k" using k by (simp add: nth_append marks)
      with h begin_tl 2 show False by simp
    next
      case 3
      then have "k - 19 < length mid" using that k by simp
      then have "?s ! j = mid ! (k - 19)" using k 3 by (simp add: nth_append marks)
      with h assms(1) \<open>k - 19 < length mid\<close> show False using nth_mem by fastforce
    qed
  qed
  ultimately show ?thesis by (simp add: find_sub_eq_Some marks)
qed

section \<open>Where the slices cut\<close>

lemma boundary_after_ascii:
  assumes "valid_utf8 s" "0 < i" "i \<le> length s" "s ! (i - 1) < 0x80"
  shows "is_char_boundary s i"
proof (cases "i = length s")
  case False
  then have "i < length s" using assms(3) by simp
  have "\<not> is_cont (s ! i)"
  proof
    assume "is_cont (s ! i)"
    with valid_utf8_cont [OF assms(1) \<open>i < length s\<close>] have "0x80 \<le> s ! (i - 1)" by simp
    with assms(4) show False by simp
  qed
  with \<open>i < length s\<close> show ?thesis by (simp add: is_char_boundary_def)
qed (simp add: is_char_boundary_def)

lemma boundary_cut:
  assumes "valid_utf8 s" "is_char_boundary s i"
  shows "i \<le> length s" "valid_utf8 (take i s)" "valid_utf8 (drop i s)"
proof -
  show "i \<le> length s" using assms(2) by (auto simp: is_char_boundary_def)
  then show "valid_utf8 (take i s)" "valid_utf8 (drop i s)"
    using assms valid_utf8_cut [of s i] by (cases "i = 0"; auto simp: is_char_boundary_def)+
qed

lemma begin_boundary: "find_sub BEGIN_MARK s = Some i \<Longrightarrow> is_char_boundary s i"
  using occurs_at_hd [of BEGIN_MARK s i]
  by (simp add: find_sub_eq_Some marks is_char_boundary_def is_cont_def)

definition eol_len :: "str \<Rightarrow> nat" where
  "eol_len rest = (if starts_with rest [13, 10] then 2 else if starts_with rest [10] then 1 else 0)"

lemma starts_with_crlf: "starts_with d [13, 10] \<longleftrightarrow> (\<exists>r. d = 13 # 10 # r)"
  by (cases d; cases "tl d") (auto simp: starts_with_def)

lemma starts_with_lf: "starts_with d [10] \<longleftrightarrow> (\<exists>r. d = 10 # r)"
  by (cases d) (auto simp: starts_with_def)

lemma skip_eol_result:
  assumes "valid_utf8 s" "0 < off" "off \<le> length s" "s ! (off - 1) < 0x80"
  shows "skip_eol s off = Some (off + eol_len (drop off s)) \<and> is_char_boundary s (off + eol_len (drop off s))"
proof -
  have b: "is_char_boundary s off" using assms by (rule boundary_after_ascii)
  have "is_char_boundary s (off + eol_len (drop off s))"
  proof (cases "\<exists>r. drop off s = 13 # 10 # r")
    case True
    then obtain r where r: "drop off s = 13 # 10 # r" by blast
    have "length (drop off s) = length r + 2" "drop off s ! 1 = 10" by (simp_all add: r)
    then have "off + 2 \<le> length s" "s ! (off + 2 - 1) < 0x80" using assms(3) by simp_all
    with r show ?thesis using boundary_after_ascii [OF assms(1), of "off + 2"]
      by (simp add: eol_len_def starts_with_def)
  next
    case no_crlf: False
    show ?thesis
    proof (cases "\<exists>r. drop off s = 10 # r")
      case True
      then obtain r where r: "drop off s = 10 # r" by blast
      have "length (drop off s) = length r + 1" "drop off s ! 0 = 10" by (simp_all add: r)
      then have "off + 1 \<le> length s" "s ! (off + 1 - 1) < 0x80" using assms(3) by simp_all
      with r show ?thesis using boundary_after_ascii [OF assms(1), of "off + 1"]
        by (simp add: eol_len_def starts_with_def)
    next
      case False
      with b no_crlf show ?thesis by (simp add: eol_len_def starts_with_crlf starts_with_lf)
    qed
  qed
  with b show ?thesis by (simp add: skip_eol_def str_from_def eol_len_def)
qed

lemma splice_eq:
  "is_char_boundary s i \<Longrightarrow> is_char_boundary s k \<Longrightarrow> ends_with_newline block \<Longrightarrow>
     splice s i k block = Some (take i s @ block @ drop k s)"
  by (simp add: splice_def str_to_def str_from_def)

section \<open>Replacing twice\<close>

text \<open>A block as \<open>render_block\<close> makes it: the marks around text without a '#', with line breaks.\<close>

definition block_of :: "str \<Rightarrow> str \<Rightarrow> str" where
  "block_of mid nl = BEGIN_MARK @ mid @ END_MARK @ nl"

definition wf_block :: "str \<Rightarrow> str \<Rightarrow> bool" where
  "wf_block mid nl \<longleftrightarrow> 35 \<notin> set mid \<and> (\<forall>b \<in> set mid. b < 0x80) \<and> (nl = [10] \<or> nl = [13, 10])"

lemma block_of_ends: "wf_block mid nl \<Longrightarrow> ends_with_newline (block_of mid nl)"
  by (auto simp: wf_block_def block_of_def ends_with_newline_def)

lemma block_of_valid: "wf_block mid nl \<Longrightarrow> valid_utf8 (block_of mid nl)"
  by (rule valid_utf8_ascii) (use marks_clean in \<open>auto simp: wf_block_def block_of_def\<close>)

text \<open>
  The block is in place in \<open>p @ block @ r\<close>: its marks are the ones a search finds, or an end mark
  comes earlier and nothing follows the block. Then replacing it by itself changes nothing.
\<close>

definition in_place :: "str \<Rightarrow> str \<Rightarrow> str \<Rightarrow> str \<Rightarrow> bool" where
  "in_place p mid nl r \<longleftrightarrow>
     find_sub BEGIN_MARK (p @ block_of mid nl @ r) = Some (length p) \<and>
     (find_sub END_MARK (p @ block_of mid nl @ r) = Some (length p + 19 + length mid) \<or>
      r = [] \<and> (\<exists>e < length p. find_sub END_MARK (p @ block_of mid nl @ r) = Some e))"

lemma replace_in_place:
  assumes w: "wf_block mid nl" and i: "in_place p mid nl r" and v: "valid_utf8 (p @ block_of mid nl @ r)"
  shows "replace_managed_block (p @ block_of mid nl @ r) (block_of mid nl) = Some (p @ block_of mid nl @ r)"
proof -
  let ?s = "p @ block_of mid nl @ r" and ?off = "length p + 19 + length mid + 17"
  have b: "find_sub BEGIN_MARK ?s = Some (length p)" using i by (simp add: in_place_def)
  note bb = begin_boundary [OF b]
  consider (e) "find_sub END_MARK ?s = Some (length p + 19 + length mid)"
    | (early) k where "find_sub END_MARK ?s = Some k" "k < length p" "r = []"
    using i by (auto simp: in_place_def)
  then show ?thesis
  proof cases
    case e
    have s: "?s = (p @ BEGIN_MARK @ mid @ END_MARK) @ nl @ r" by (simp add: block_of_def)
    have l: "length (p @ BEGIN_MARK @ mid @ END_MARK) = ?off" by (simp add: marks)
    have d: "drop ?off ?s = nl @ r" unfolding s l [symmetric] by simp
    have "?s ! (?off - 1) = last (p @ BEGIN_MARK @ mid @ END_MARK)"
      unfolding s l [symmetric] using marks(4) by (simp add: nth_append last_conv_nth)
    then have "?s ! (?off - 1) < 0x80" using marks(4,9) by simp
    moreover have "?off \<le> length ?s" unfolding s l [symmetric] by simp
    ultimately have k: "skip_eol ?s ?off = Some (?off + eol_len (nl @ r))"
        "is_char_boundary ?s (?off + eol_len (nl @ r))"
      using skip_eol_result [OF v, of ?off] d by simp_all
    have n: "eol_len (nl @ r) = length nl" using w by (auto simp: wf_block_def eol_len_def starts_with_def)
    have "drop (?off + length nl) ?s = r" using d by (metis add.commute append_eq_conv_conj drop_drop)
    then show ?thesis using splice_eq [OF bb k(2) block_of_ends [OF w]] b e k(1) n
      by (simp add: replace_managed_block_def marks add.assoc)
  next
    case early
    have "is_char_boundary ?s (length ?s)" by (simp add: is_char_boundary_def)
    from splice_eq [OF bb this block_of_ends [OF w]] early b show ?thesis
      by (simp add: replace_managed_block_def)
  qed
qed

text \<open>Whatever the text was, the block is in place after a replacement.\<close>

lemma splice_rest: "splice s i (length s) (block_of mid nl) = Some (take i s @ block_of mid nl)"
  if "wf_block mid nl" "is_char_boundary s i"
  using splice_eq [OF that(2) _ block_of_ends [OF that(1)], of "length s"] by (simp add: is_char_boundary_def)

text \<open>
  What a replacement leaves before the block: the begin mark it finds is the one it found, and the end
  marks before it are those of the text.
\<close>

lemma spliced_marks:
  assumes "wf_block mid nl" "valid_utf8 s" "find_sub BEGIN_MARK s = Some i"
  shows "length (take i s) = i" "valid_utf8 (take i s)"
    and "find_sub BEGIN_MARK (take i s @ block_of mid nl @ r) = Some (length (take i s))"
    and "j \<le> i \<Longrightarrow> occurs_at END_MARK (take i s @ block_of mid nl @ r) j \<longleftrightarrow> occurs_at END_MARK s j"
    and "\<forall>j < i. \<not> occurs_at END_MARK s j \<Longrightarrow> in_place (take i s) mid nl r"
proof -
  show li: "length (take i s) = i" "valid_utf8 (take i s)"
    using boundary_cut(1,2) [OF assms(2) begin_boundary [OF assms(3)]] by simp_all
  show kept: "find_sub BEGIN_MARK (take i s @ block_of mid nl @ r) = Some (length (take i s))"
    using begin_kept [OF assms(3)] li by (simp add: block_of_def)
  show ends: "occurs_at END_MARK (take i s @ block_of mid nl @ r) j \<longleftrightarrow> occurs_at END_MARK s j" if "j \<le> i" for j
    using end_before_kept [OF assms(3) that] by (simp add: block_of_def)
  have mid: "35 \<notin> set mid" using assms(1) by (simp add: wf_block_def)
  show "in_place (take i s) mid nl r" if "\<forall>j < i. \<not> occurs_at END_MARK s j"
    using end_after_begin [OF mid, of "take i s" "nl @ r"] ends that li kept by (simp add: block_of_def in_place_def)
qed

lemma end_mark_cut:
  assumes "valid_utf8 s" "find_sub END_MARK s = Some e"
  defines "k \<equiv> e + 17 + eol_len (drop (e + 17) s)"
  shows "skip_eol s (e + 17) = Some k" "is_char_boundary s k"
proof -
  have e: "e + 17 \<le> length s" "occurs_at END_MARK s e"
    using find_sub_length [OF _ assms(2)] assms(2) by (simp_all add: marks find_sub_eq_Some)
  have "s ! (e + 16) = last END_MARK"
    using occurs_at_nth [OF e(2), of 16] last_conv_nth [OF marks(4)] by (simp add: marks)
  then have "s ! (e + 16) < 0x80" unfolding marks(9) by simp
  moreover have "e + 17 - 1 = e + 16" by simp
  ultimately have "s ! (e + 17 - 1) < 0x80" by (simp only:)
  with e(1) show "skip_eol s (e + 17) = Some k" "is_char_boundary s k"
    using skip_eol_result [OF assms(1), of "e + 17"] unfolding k_def by simp_all
qed

text \<open>With no end mark, or one before the begin mark, the rest of the text goes.\<close>

lemma replace_to_end:
  assumes "wf_block mid nl" "valid_utf8 s" "find_sub BEGIN_MARK s = Some i"
    and "case find_sub END_MARK s of None \<Rightarrow> True | Some e \<Rightarrow> e \<le> i"
  shows "replace_managed_block s (block_of mid nl) = Some (take i s @ block_of mid nl) \<and> in_place (take i s) mid nl []"
proof -
  note m = spliced_marks [OF assms(1-3)] and whole = splice_rest [OF assms(1) begin_boundary [OF assms(3)]]
  show ?thesis
  proof (cases "find_sub END_MARK s")
    case None
    then have "\<forall>j < i. \<not> occurs_at END_MARK s j" by (simp add: find_sub_eq_None marks)
    with m(5) whole None assms(3) show ?thesis by (simp add: replace_managed_block_def)
  next
    case (Some e)
    then have e: "occurs_at END_MARK s e" "\<forall>j < e. \<not> occurs_at END_MARK s j" by (simp_all add: find_sub_eq_Some marks)
    have "\<not> occurs_at END_MARK s i"
      using m(4) [of i "[]"] begin_not_end [of "take i s" "mid @ END_MARK @ nl"] m(1) by (simp add: block_of_def)
    with e(1) Some assms(4) have "e < i" by (metis option.case(2) le_neq_implies_less)
    have "find_sub END_MARK (take i s @ block_of mid nl @ []) = Some e"
      using m(4) [of _ "[]"] e \<open>e < i\<close> by (simp add: find_sub_eq_Some marks)
    with m(3) [of "[]"] \<open>e < i\<close> m(1) have "in_place (take i s) mid nl []" by (auto simp: in_place_def)
    with assms(3) Some \<open>e < i\<close> whole show ?thesis by (simp add: replace_managed_block_def)
  qed
qed

lemma replace_spliced:
  assumes "wf_block mid nl" "valid_utf8 s" "find_sub BEGIN_MARK s = Some i"
  shows "\<exists>r. replace_managed_block s (block_of mid nl) = Some (take i s @ block_of mid nl @ r) \<and>
             in_place (take i s) mid nl r \<and> valid_utf8 (take i s) \<and> valid_utf8 r \<and>
             (\<exists>k. r = drop k s \<and>
               (case find_sub END_MARK s of
                  Some e \<Rightarrow> if i < e then k = e + 17 + eol_len (drop (e + 17) s) else r = []
                | None \<Rightarrow> r = []))"
proof (cases "\<exists>e. find_sub END_MARK s = Some e \<and> i < e")
  case True
  then obtain e where e: "find_sub END_MARK s = Some e" "i < e" by blast
  let ?k = "e + 17 + eol_len (drop (e + 17) s)"
  note k = end_mark_cut [OF assms(2) e(1)]
  have "\<forall>j < i. \<not> occurs_at END_MARK s j" using e by (simp add: find_sub_eq_Some marks)
  note p = spliced_marks(2) [OF assms] spliced_marks(5) [OF assms this]
  have "replace_managed_block s (block_of mid nl) = Some (take i s @ block_of mid nl @ drop ?k s)"
    using assms(3) e k(1) splice_eq [OF begin_boundary [OF assms(3)] k(2) block_of_ends [OF assms(1)]]
    by (simp add: replace_managed_block_def marks)
  with p boundary_cut(3) [OF assms(2) k(2)] e show ?thesis by auto
next
  case False
  then have "case find_sub END_MARK s of None \<Rightarrow> True | Some e \<Rightarrow> e \<le> i" by (auto split: option.splits)
  from replace_to_end [OF assms this] spliced_marks(2) [OF assms] False show ?thesis
    by (intro exI [of _ "[]"]) (auto split: option.splits intro: exI [of _ "length s"])
qed

text \<open>Appending: the gap before the block keeps the marks of the text and of the block apart.\<close>

definition newline_of :: "str \<Rightarrow> str" where
  "newline_of s = (if contains s [13, 10] then [13, 10] else [10])"

definition gap :: "str \<Rightarrow> str" where
  "gap s = (if s = [] then [] else (if ends_with_newline s then [] else [10]) @ newline_of s)"

lemma gap_bytes: "b \<in> set (gap s) \<Longrightarrow> b = 10 \<or> b = 13"
  by (auto simp: gap_def newline_of_def split: if_splits)

lemma gap_neq_Nil: "s \<noteq> [] \<Longrightarrow> gap s \<noteq> []"
  by (simp add: gap_def newline_of_def)

lemma append_block_eq: "ends_with_newline block \<Longrightarrow> append_block s block = (s @ gap s) @ block"
  by (simp add: append_block_def gap_def newline_of_def Let_def)

lemma append_no_begin:
  assumes n: "find_sub BEGIN_MARK s = None" and j: "j < length (s @ gap s)"
  shows "\<not> occurs_at BEGIN_MARK ((s @ gap s) @ rest) j"
proof
  let ?t = "(s @ gap s) @ rest"
  assume o: "occurs_at BEGIN_MARK ?t j"
  have "s \<noteq> []" using j by (auto simp: gap_def)
  then have g: "gap s \<noteq> []" by (rule gap_neq_Nil)
  have nl: "?t ! k = 10 \<or> ?t ! k = 13" if "length s \<le> k" "k < length (s @ gap s)" for k
  proof -
    have "?t ! k = gap s ! (k - length s)" "k - length s < length (gap s)"
      using that by (auto simp: nth_append)
    then show ?thesis using gap_bytes nth_mem by metis
  qed
  have clean: "?t ! (j + k) \<noteq> 10 \<and> ?t ! (j + k) \<noteq> 13" if "k < 19" for k
    using occurs_at_nth [OF o, of k] marks_clean [of "BEGIN_MARK ! k"] that by (simp add: marks)
  consider "j + 19 \<le> length s" | "j \<le> length s" "length s < j + 19" | "length s < j" by linarith
  then show False
  proof cases
    case 1
    with o n show False
      using occurs_at_append_iff [of j BEGIN_MARK s "gap s @ rest"] by (simp add: marks find_sub_eq_None)
  next
    case 2
    with clean [of "length s - j"] nl [of "length s"] g show False by auto
  next
    case 3
    with clean [of 0] nl [of j] j show False by auto
  qed
qed

lemma append_in_place:
  assumes w: "wf_block mid nl" and n: "find_sub BEGIN_MARK s = None"
  shows "in_place (s @ gap s) mid nl []"
proof -
  let ?p = "s @ gap s" and ?t = "(s @ gap s) @ block_of mid nl @ []"
  have "occurs_at BEGIN_MARK ?t (length ?p)" by (simp add: occurs_at_def block_of_def marks)
  with append_no_begin [OF n, of _ "block_of mid nl @ []"] have b: "find_sub BEGIN_MARK ?t = Some (length ?p)"
    by (simp add: find_sub_eq_Some marks)
  show ?thesis
  proof (cases "\<exists>j < length ?p. occurs_at END_MARK ?t j")
    case True
    then obtain j where j: "j < length ?p" "occurs_at END_MARK ?t j" by blast
    then obtain e where e: "find_sub END_MARK ?t = Some e"
      using find_sub_eq_None [of END_MARK ?t] by (auto simp: marks)
    then have "e \<le> j" using j(2) by (metis find_sub_eq_Some marks(4) not_le)
    with e b j(1) show ?thesis unfolding in_place_def by auto
  next
    case False
    then have "find_sub END_MARK ?t = Some (length ?p + 19 + length mid)"
      using end_after_begin [of mid ?p nl] w by (simp add: block_of_def wf_block_def)
    with b show ?thesis unfolding in_place_def by simp
  qed
qed

lemma gap_valid: "valid_utf8 (gap s)"
  by (rule valid_utf8_ascii) (use gap_bytes in fastforce)

lemma replace_result:
  assumes w: "wf_block mid nl" and v: "valid_utf8 s"
  obtains p r where "replace_managed_block s (block_of mid nl) = Some (p @ block_of mid nl @ r)"
    "in_place p mid nl r" "valid_utf8 (p @ block_of mid nl @ r)"
    "(\<exists>i. p = take i s) \<or> p = s @ gap s" "\<exists>k. r = drop k s"
proof (cases "find_sub BEGIN_MARK s")
  case None
  then have "replace_managed_block s (block_of mid nl) = Some ((s @ gap s) @ block_of mid nl @ [])"
    using append_block_eq [OF block_of_ends [OF w]] by (simp add: replace_managed_block_def)
  moreover have "valid_utf8 ((s @ gap s) @ block_of mid nl @ [])"
    using v gap_valid block_of_valid [OF w] by (simp add: valid_utf8_append)
  ultimately show thesis using that [OF _ append_in_place [OF w None]] by (metis drop_all order_refl)
next
  case (Some i)
  from replace_spliced [OF w v Some] obtain r where
    "replace_managed_block s (block_of mid nl) = Some (take i s @ block_of mid nl @ r)"
    "in_place (take i s) mid nl r" "valid_utf8 (take i s)" "valid_utf8 r" "\<exists>k. r = drop k s" by blast
  then show thesis using that [of "take i s" r] block_of_valid [OF w] by (auto simp: valid_utf8_append)
qed

lemma replace_twice:
  assumes "wf_block mid nl" "valid_utf8 s"
  shows "\<exists>out. replace_managed_block s (block_of mid nl) = Some out \<and> valid_utf8 out \<and>
               replace_managed_block out (block_of mid nl) = Some out"
  using replace_result [OF assms] replace_in_place [OF assms(1)] by metis

section \<open>Line breaks\<close>

lemma contains_crlf_Cons:
  "contains (x # xs) [13, 10 :: u8] \<longleftrightarrow> x = 13 \<and> xs \<noteq> [] \<and> hd xs = 10 \<or> contains xs [13, 10]"
  by (cases xs) (auto simp: contains_def)

lemma contains_crlf_append:
  "contains (a @ b) [13, 10 :: u8] \<longleftrightarrow>
     contains a [13, 10] \<or> contains b [13, 10] \<or> (a \<noteq> [] \<and> last a = 13 \<and> b \<noteq> [] \<and> hd b = 10)"
proof (induction a)
  case Nil
  then show ?case by (simp add: contains_def)
next
  case (Cons x a)
  have "contains ((x # a) @ b) [13, 10] \<longleftrightarrow>
      x = 13 \<and> a @ b \<noteq> [] \<and> hd (a @ b) = 10 \<or> contains (a @ b) [13, 10]"
    by (simp only: append_Cons contains_crlf_Cons)
  then show ?case unfolding contains_crlf_Cons [of x a] Cons.IH by (cases a) auto
qed

lemma contains_crlf_no_cr: "13 \<notin> set s \<Longrightarrow> \<not> contains s [13, 10 :: u8]"
  by (induction s) (auto simp: contains_def)

text \<open>The line break the block is written with is the one the file has afterwards.\<close>

lemma newline_of_crlf: "contains b [13, 10] \<Longrightarrow> newline_of (a @ b @ c) = [13, 10]"
  by (simp add: newline_of_def contains_crlf_append)

lemma newline_stable:
  assumes w: "wf_block mid (newline_of s)" and cr: "newline_of s = [10] \<Longrightarrow> 13 \<notin> set mid" and v: "valid_utf8 s"
    and l: "s = [] \<or> last s \<noteq> 13" and r: "replace_managed_block s (block_of mid (newline_of s)) = Some out"
  shows "newline_of out = newline_of s"
proof -
  let ?b = "block_of mid (newline_of s)"
  obtain p q where o: "out = p @ ?b @ q" and p: "(\<exists>i. p = take i s) \<or> p = s @ gap s" and q: "\<exists>k. q = drop k s"
    using replace_result [OF w v] r by (metis option.inject)
  show ?thesis
  proof (cases "contains s [13, 10]")
    case True
    then have "contains ?b [13, 10]"
      by (simp add: newline_of_def block_of_def contains_crlf_append) (simp add: contains_def)
    then show ?thesis using True o newline_of_crlf by (simp add: newline_of_def)
  next
    case False
    then have nl: "newline_of s = [10]" by (simp add: newline_of_def)
    have "\<not> contains (take i s) [13, 10] \<and> \<not> contains (drop i s) [13, 10]" for i
      using False contains_crlf_append [of "take i s" "drop i s"] by simp
    then have pq: "\<not> contains q [13, 10]" "\<exists>i. p = take i s \<Longrightarrow> \<not> contains p [13, 10]" using q by auto
    have "\<not> contains (gap s) [13, 10]"
      using nl by (intro contains_crlf_no_cr) (auto simp: gap_def)
    then have "\<not> contains (s @ gap s) [13, 10]"
      using False l by (simp add: contains_crlf_append) (auto simp: gap_def)
    then have np: "\<not> contains p [13, 10]" using p pq(2) by blast
    have "13 \<notin> set ?b" using cr [OF nl] nl marks_clean by (auto simp: block_of_def)
    then have nb: "\<not> contains ?b [13, 10]" by (rule contains_crlf_no_cr)
    have "hd ?b = 35" "last ?b = 10" "?b \<noteq> []" using nl by (simp_all add: block_of_def marks)
    then have "\<not> contains (p @ ?b @ q) [13, 10]" using np nb pq(1) by (simp add: contains_crlf_append)
    then show ?thesis using nl o by (simp add: newline_of_def)
  qed
qed

section \<open>Rendered blocks\<close>

definition block_body :: "ip_addr \<Rightarrow> str list \<Rightarrow> str \<Rightarrow> str" where
  "block_body ip names nl =
     nl @ (if names \<noteq> [] then ip_to_string ip @ concat (map (\<lambda>name. 32 # name) names) @ nl else [])"

lemma render_block_of: "render_block ip names nl = block_of (block_body ip names nl) nl"
  by (simp add: render_block_def block_of_def block_body_def)

lemma hostname_byte_clean:
  "is_valid_hostname n \<Longrightarrow> b \<in> set n \<Longrightarrow> b \<noteq> 10 \<and> b \<noteq> 13 \<and> b \<noteq> 32 \<and> b \<noteq> 35 \<and> b < 0x80"
  using valid_hostname_no_byte [of n b] valid_hostname_utf8 [of n] by auto

lemma ip_ascii: "b \<in> set (ip_to_string ip) \<Longrightarrow> b < 0x80"
  using ip_to_string_bytes [of b ip]
  by (auto simp: ip_byte_def is_ascii_alphanumeric_def word_le_nat_alt word_less_nat_alt)

lemma block_body_wf:
  assumes "\<forall>n \<in> set names. is_valid_hostname n" "nl = [10] \<or> nl = [13, 10]"
  shows "wf_block (block_body ip names nl) nl" "nl = [10] \<Longrightarrow> 13 \<notin> set (block_body ip names nl)"
proof -
  have b: "b \<noteq> 35 \<and> b < 0x80 \<and> (b = 13 \<longrightarrow> b \<in> set nl)" if "b \<in> set (block_body ip names nl)" for b
  proof -
    have "b \<in> set nl \<or> b \<in> set (ip_to_string ip) \<or> b = 32 \<or> (\<exists>n \<in> set names. b \<in> set n)"
      using that by (auto simp: block_body_def split: if_splits)
    then consider "b \<in> set nl" | "b \<in> set (ip_to_string ip)" | "b = 32" | n where "n \<in> set names" "b \<in> set n"
      by blast
    then show ?thesis
    proof cases
      case 1
      then show ?thesis using assms(2) by auto
    next
      case 2
      then show ?thesis using ip_ascii ip_to_string_bytes ip_byte_neq by blast
    next
      case 4
      then show ?thesis using assms(1) hostname_byte_clean by blast
    qed simp
  qed
  show "wf_block (block_body ip names nl) nl" using b assms(2) by (auto simp: wf_block_def)
  show "nl = [10] \<Longrightarrow> 13 \<notin> set (block_body ip names nl)" using b by force
qed

end
