(* ===== verification/Hosts_Sync.thy ===== *)
theory Hosts_Sync
  imports Hosts
begin

text \<open>
  What the synchronisation of the hosts file promises: which text a replacement gives, that a second
  run changes nothing, that the lines written read back, and what is left of the files when a call
  of the file system fails.
\<close>

section \<open>The text\<close>

lemma newline_of_cases: "newline_of s = [10] \<or> newline_of s = [13, 10]"
  by (simp add: newline_of_def)

text \<open>The part of the old text that stays behind the block.\<close>

definition rest_after :: "str \<Rightarrow> nat \<Rightarrow> str" where
  "rest_after s i =
     (case find_sub END_MARK s of
        None \<Rightarrow> []
      | Some e \<Rightarrow> if i < e then drop (e + length END_MARK + eol_len (drop (e + length END_MARK) s)) s else [])"

text \<open>
  C4: Replacing the block in a text of the hosts file never cuts a character in two, and gives
  exactly this: with no begin mark, the whole text, a gap of line breaks and the block; with a begin
  mark, the text before the first one, the block, and what follows the line of the first end mark.
  Where the first end mark is missing, or comes before the begin mark, nothing follows the block:
  all text after the begin mark is gone.
\<close>

theorem replace_managed_block_result:
  assumes "valid_utf8 s" "\<forall>n \<in> set names. is_valid_hostname n" "nl = [10] \<or> nl = [13, 10]"
  shows "replace_managed_block s (render_block ip names nl) =
     Some (case find_sub BEGIN_MARK s of
             None \<Rightarrow> s @ gap s @ render_block ip names nl
           | Some i \<Rightarrow> take i s @ render_block ip names nl @ rest_after s i)"
proof (cases "find_sub BEGIN_MARK s")
  case None
  note w = block_body_wf(1) [OF assms(2,3), of ip]
  with None show ?thesis
    by (simp add: replace_managed_block_def render_block_of append_block_eq [OF block_of_ends [OF w]])
next
  case (Some i)
  from replace_spliced [OF block_body_wf(1) [OF assms(2,3), of ip] assms(1) Some] obtain r where
    r: "replace_managed_block s (render_block ip names nl) = Some (take i s @ render_block ip names nl @ r)"
    and k: "\<exists>k. r = drop k s \<and>
               (case find_sub END_MARK s of
                  Some e \<Rightarrow> if i < e then k = e + 17 + eol_len (drop (e + 17) s) else r = []
                | None \<Rightarrow> r = [])"
    unfolding render_block_of by blast
  from k have "r = rest_after s i" by (auto simp: rest_after_def marks split: option.splits if_splits)
  with Some r show ?thesis by simp
qed

theorem replace_managed_block_result_witness:
  "replace_managed_block (lit ''1 a'' @ [10] @ BEGIN_MARK @ [10] @ END_MARK @ [10] @ lit ''2 b'')
       (render_block (V4 127 0 0 2) [lit ''a.b''] [10]) =
     Some (lit ''1 a'' @ [10] @ render_block (V4 127 0 0 2) [lit ''a.b''] [10] @ lit ''2 b'')"
  by (subst replace_managed_block_result)
    (code_simp, code_simp, code_simp, code_simp)

text \<open>
  Replacing the block is idempotent: on any text, with or without marks, whole or damaged, a
  second replacement by the same block gives the text of the first.
\<close>

lemma replace_managed_block_idempotent:
  assumes "valid_utf8 s" "\<forall>n \<in> set names. is_valid_hostname n" "nl = [10] \<or> nl = [13, 10]"
  shows "\<exists>out. replace_managed_block s (render_block ip names nl) = Some out \<and> valid_utf8 out \<and>
               replace_managed_block out (render_block ip names nl) = Some out"
  unfolding render_block_of by (rule replace_twice [OF block_body_wf(1) [OF assms(2,3)] assms(1)])

lemma split_on_words: "32 \<notin> set w \<Longrightarrow> \<forall>n \<in> set names. 32 \<notin> set n \<Longrightarrow>
  split_on 32 (w @ concat (map (\<lambda>name. 32 # name) names)) = w # names"
proof (induction names arbitrary: w)
  case Nil
  then show ?case by (simp add: split_on_no_sep)
next
  case (Cons n names)
  then show ?case using split_on_append [of 32 w "n @ concat (map (\<lambda>name. 32 # name) names)"] by simp
qed

text \<open>
  The rendered block is three lines, the marks around one entry; the entry, cut at its spaces,
  is the text of the address followed by exactly the host names, in order.
\<close>

lemma render_block_lines:
  assumes "\<forall>n \<in> set names. is_valid_hostname n" "names \<noteq> []"
  shows "\<exists>entry. split_on 10 (render_block ip names [10]) = [BEGIN_MARK, entry, END_MARK, []] \<and>
           split_on 32 entry = ip_to_string ip # names"
proof -
  let ?entry = "ip_to_string ip @ concat (map (\<lambda>name. 32 # name) names)"
  have n: "10 \<notin> set n \<and> 32 \<notin> set n" if "n \<in> set names" for n
    using assms(1) that hostname_byte_clean by blast
  have i: "10 \<notin> set (ip_to_string ip)" "32 \<notin> set (ip_to_string ip)" using ip_to_string_clean by blast+
  have e: "10 \<notin> set ?entry" using n i by auto
  have m: "10 \<notin> set BEGIN_MARK" "10 \<notin> set END_MARK" using marks_clean by blast+
  have "split_on 10 (render_block ip names [10]) = split_on 10 (BEGIN_MARK @ 10 # ?entry @ 10 # END_MARK @ 10 # [])"
    using assms(2) by (simp add: render_block_def)
  also have "\<dots> = [BEGIN_MARK, ?entry, END_MARK, []]"
    by (subst split_on_append, rule m, subst split_on_append, rule e, subst split_on_append, rule m) simp
  finally show ?thesis using n i by (intro exI conjI) (auto intro!: split_on_words)
qed

section \<open>The file\<close>

lemma hosts_tmp_neq: "file_name p = Some name \<Longrightarrow> hosts_tmp p name \<noteq> p"
proof
  assume n: "file_name p = Some name" and t: "hosts_tmp p name = p"
  have "file_name (hosts_tmp p name) = Some (lit ''.'' @ name @ lit ''.nyasniproxy.tmp'')"
    by (simp add: hosts_tmp_def file_name_def join_def)
  with n t have "name = lit ''.'' @ name @ lit ''.nyasniproxy.tmp''" by simp
  then have "length name = length (lit ''.'' @ name @ lit ''.nyasniproxy.tmp'')" by (rule arg_cong)
  then show False by (simp add: lit_def)
qed

text \<open>With no fault, the file is replaced whole and keeps its permissions.\<close>

lemma write_atomic_ok:
  assumes "script s = []" "files s p = Some f" "file_name p = Some name"
  shows "write_atomic p text s =
     (Inr (), s\<lparr>files := (files s)(hosts_tmp p name := None, p := Some (f\<lparr>content := text\<rparr>))\<rparr>)"
proof -
  note t = hosts_tmp_neq [OF assms(3)]
  show ?thesis using assms t
    by (cases f) (simp add: write_atomic_def fs_write_def fs_metadata_def fs_set_permissions_def fs_rename_def
        put_def fun_upd_twist)
qed

text \<open>
  C6: With no fault of the file system, on a UTF-8 file that is empty or does not end in a carriage
  return, and valid host names, \<open>sync_hosts\<close> succeeds, the file has the replaced text and its old
  permissions, and a second call reports no change and leaves all files alone: the periodic
  refresh settles.
\<close>

theorem sync_hosts_settles:
  assumes "script s = []" "files s p = Some f" "file_name p = Some name"
    and "valid_utf8 (content f)" "content f = [] \<or> last (content f) \<noteq> 13"
    and "\<forall>n \<in> set names. is_valid_hostname n"
  shows "\<exists>changed s1 out. sync_hosts p ip names s = (Inr changed, s1) \<and>
           replace_managed_block (content f) (render_block ip names (newline_of (content f))) = Some out \<and>
           files s1 p = Some (f\<lparr>content := out\<rparr>) \<and> changed = (out \<noteq> content f) \<and>
           sync_hosts p ip names s1 = (Inr False, s1)"
proof -
  let ?o = "content f" and ?block = "render_block ip names (newline_of (content f))"
  note w = block_body_wf(1) [OF assms(6) newline_of_cases, of ip ?o]
  obtain out where t: "replace_managed_block ?o ?block = Some out" "valid_utf8 out"
    "replace_managed_block out ?block = Some out"
    using replace_twice [OF w assms(4)] unfolding render_block_of by blast
  have nl: "newline_of out = newline_of ?o"
    using newline_stable [OF w _ assms(4,5), of out] t(1) block_body_wf(2) [OF assms(6) newline_of_cases]
    unfolding render_block_of by blast
  have settled: "sync_hosts p ip names s1 = (Inr False, s1)"
    if "script s1 = []" "files s1 p = Some (f\<lparr>content := out\<rparr>)" for s1
    using that t(2,3) nl by (simp add: sync_hosts_def fs_read_to_string_def from_utf8_def newline_of_def)
  show ?thesis
  proof (cases "out = ?o")
    case True
    with settled [of s] assms(1,2) t(1) show ?thesis by auto
  next
    case False
    then have "sync_hosts p ip names s =
        (Inr True, s\<lparr>files := (files s)(hosts_tmp p name := None, p := Some (f\<lparr>content := out\<rparr>))\<rparr>)"
      using t(1) assms(1-4) write_atomic_ok [OF assms(1-3)]
      by (simp add: sync_hosts_def fs_read_to_string_def from_utf8_def newline_of_def Let_def)
    with settled assms(1) False t(1) show ?thesis by auto
  qed
qed

definition hosts_fs :: fs where
  "hosts_fs = \<lparr>files = (\<lambda>q. if q = [RootDir, Normal (lit ''hosts'')]
                     then Some \<lparr>content = lit ''127.0.0.1 localhost'' @ [10], perms = 420\<rparr> else None),
               script = [], new_perms = 384\<rparr>"

theorem sync_hosts_settles_witness:
  "\<exists>changed s1 text. sync_hosts [RootDir, Normal (lit ''hosts'')] (V4 127 0 0 2) [lit ''a.b''] hosts_fs = (Inr changed, s1) \<and>
     replace_managed_block (lit ''127.0.0.1 localhost'' @ [10])
       (render_block (V4 127 0 0 2) [lit ''a.b''] (newline_of (lit ''127.0.0.1 localhost'' @ [10]))) = Some text \<and>
     files s1 [RootDir, Normal (lit ''hosts'')] = Some \<lparr>content = text, perms = 420\<rparr> \<and>
     changed = (text \<noteq> lit ''127.0.0.1 localhost'' @ [10]) \<and>
     sync_hosts [RootDir, Normal (lit ''hosts'')] (V4 127 0 0 2) [lit ''a.b''] s1 = (Inr False, s1)"
proof -
  have v: "valid_utf8 (lit ''127.0.0.1 localhost'' @ [10])" "is_valid_hostname (lit ''a.b'')" by code_simp+
  show ?thesis
    using sync_hosts_settles [of hosts_fs "[RootDir, Normal (lit ''hosts'')]"
        "\<lparr>content = lit ''127.0.0.1 localhost'' @ [10], perms = 420\<rparr>" "lit ''hosts''" "[lit ''a.b'']" "V4 127 0 0 2"] v
    by (simp add: hosts_fs_def file_name_def)
qed

section \<open>Faults of the file system\<close>

text \<open>The steps of the write: the mode is copied, and if the rename fails, the file is written in place.\<close>

lemma copy_permissions:
  assumes "(case fs_metadata p s of (Inr m, s2) \<Rightarrow> fs_set_permissions tmp m s2 | (Inl _, s2) \<Rightarrow> (Inr (), s2)) = (r, s')"
  shows "q \<noteq> tmp \<Longrightarrow> files s' q = files s q"
    and "r = Inr u \<Longrightarrow> map_option content (files s' tmp) = map_option content (files s tmp)"
proof -
  obtain m s2 where w: "fs_metadata p s = (m, s2)" by (cases "fs_metadata p s")
  note f = fs_frame(2) [OF w]
  show "files s' q = files s q" if "q \<noteq> tmp"
    using assms w f fs_frame(4) [OF _ that] by (cases m) fastforce+
  show "map_option content (files s' tmp) = map_option content (files s tmp)" if "r = Inr u"
    using assms w f that by (cases m) (auto simp: fs_set_permissions_def split: outcome.splits option.splits)
qed

lemma write_in_place:
  assumes "fs_rename tmp p s = (Inl e, s1)" "fs_write p bs s1 = (r, s2)" "s' = snd (fs_remove_file tmp s2)" "tmp \<noteq> p"
  shows "q \<noteq> p \<Longrightarrow> q \<noteq> tmp \<Longrightarrow> files s' q = files s q"
    and "r = Inr u \<Longrightarrow> \<exists>f. files s' p = Some f \<and> content f = bs" and "r \<noteq> Inl Panicked"
proof -
  have rm: "q \<noteq> tmp \<Longrightarrow> files s' q = files s2 q" for q unfolding assms(3) by (metis fs_frame(6) prod.collapse)
  note rn = fs_rename_result [OF assms(1,4)] fs_frame(5) [OF assms(1)]
  show "files s' q = files s q" if "q \<noteq> p" "q \<noteq> tmp"
    using rm [OF that(2)] fs_frame(3) [OF assms(2) that(1)] rn that by simp
  show "\<exists>f. files s' p = Some f \<and> content f = bs" if "r = Inr u"
    using rm [OF not_sym [OF assms(4)]] fs_write_Inr assms(2) that by fastforce
  show "r \<noteq> Inl Panicked" using assms(2) by (auto simp: fs_write_def split: outcome.splits)
qed

text \<open>Where a write can end: before the rename, with it, or in place after it failed.\<close>

lemma write_atomic_cases:
  assumes "write_atomic p bs s = (r, s')" "file_name p = Some name"
  obtains (stopped) e s1 where "r = Inl e" "s' = snd (fs_remove_file (hosts_tmp p name) s1)"
      "\<And>q. q \<noteq> hosts_tmp p name \<Longrightarrow> files s1 q = files s q"
  | (renamed) s3 f where "r = Inr ()" "fs_rename (hosts_tmp p name) p s3 = (Inr (), s')"
      "\<And>q. q \<noteq> hosts_tmp p name \<Longrightarrow> files s3 q = files s q" "files s3 (hosts_tmp p name) = Some f" "content f = bs"
  | (in_place) s3 e s4 r5 s5 where "fs_rename (hosts_tmp p name) p s3 = (Inl e, s4)" "fs_write p bs s4 = (r5, s5)"
      "r = with_context ''write hosts'' r5" "s' = snd (fs_remove_file (hosts_tmp p name) s5)"
      "\<And>q. q \<noteq> hosts_tmp p name \<Longrightarrow> files s3 q = files s q"
proof -
  let ?tmp = "hosts_tmp p name"
  obtain r1 s1 where w1: "fs_write ?tmp bs s = (r1, s1)" by (cases "fs_write ?tmp bs s")
  have f1: "q \<noteq> ?tmp \<Longrightarrow> files s1 q = files s q" for q using fs_frame(3) [OF w1] by blast
  obtain r3 s3 where w3:
      "(case fs_metadata p s1 of (Inr m, s2) \<Rightarrow> fs_set_permissions ?tmp m s2 | (Inl _, s2) \<Rightarrow> (Inr (), s2)) = (r3, s3)"
    by (rule prod.exhaust)
  have f3: "q \<noteq> ?tmp \<Longrightarrow> files s3 q = files s q" for q using copy_permissions(1) [OF w3] f1 by simp
  obtain r4 s4 where w4: "fs_rename ?tmp p s3 = (r4, s4)" by (cases "fs_rename ?tmp p s3")
  obtain r5 s5 where w5: "fs_write p bs s4 = (r5, s5)" by (cases "fs_write p bs s4")
  note run = assms(1) [unfolded write_atomic_def assms(2) option.case Let_def w1 prod.case]
  consider (a) e where "r1 = Inl e" | (b) e where "r1 = Inr ()" "r3 = Inl e" | (c) "r1 = Inr ()" "r3 = Inr ()" "r4 = Inr ()"
    | (d) e where "r1 = Inr ()" "r3 = Inr ()" "r4 = Inl e"
    by (metis old.sum.exhaust old.unit.exhaust)
  then show thesis
  proof cases
    case a
    with run show thesis by (intro stopped [OF _ _ f1]) (auto simp: with_context_def)
  next
    case b
    with run w3 show thesis by (intro stopped [OF _ _ f3]) (auto simp: with_context_def)
  next
    case c
    obtain f where "files s3 ?tmp = Some f" "content f = bs"
      using copy_permissions(2) [OF w3 c(2)] fs_write_Inr [of ?tmp bs s "()" s1] w1 c(1) by auto
    with c run w3 w4 show thesis by (intro renamed [OF _ _ f3]) auto
  next
    case d
    with run w3 w4 w5 show thesis by (intro in_place [OF _ w5 _ _ f3]) auto
  qed
qed

lemma write_atomic_outcome:
  assumes "write_atomic p bs s = (r, s')" "files s p \<noteq> None"
  shows "(\<forall>q. q \<noteq> p \<and> (\<forall>name. file_name p = Some name \<longrightarrow> q \<noteq> hosts_tmp p name) \<longrightarrow> files s' q = files s q) \<and>
         (case r of
            Inr _ \<Rightarrow> \<exists>f. files s' p = Some f \<and> content f = bs
          | Inl e \<Rightarrow> files s' p = files s p \<or> (\<exists>e'. e = Context (lit ''write hosts'') e'))"
proof (cases "file_name p")
  case None
  with assms show ?thesis by (auto simp: write_atomic_def bail_def)
next
  case (Some name)
  note t = hosts_tmp_neq [OF Some]
  from assms(1) Some show ?thesis
  proof (cases rule: write_atomic_cases)
    case (stopped e s1)
    have "q \<noteq> hosts_tmp p name \<Longrightarrow> files s' q = files s q" for q
      using stopped(2,3) by (metis fs_frame(6) prod.collapse)
    with stopped(1) t Some show ?thesis by auto
  next
    case (renamed s3 f)
    with fs_rename_result [OF renamed(2) t] fs_frame(5) [OF renamed(2)] Some show ?thesis by auto
  next
    case (in_place s3 e s4 r5 s5)
    note w = write_in_place [OF in_place(1,2,4) t]
    show ?thesis
    proof (cases r5)
      case (Inl e5)
      with w(1,3) in_place(3,5) Some show ?thesis by (auto simp: with_context_def)
    next
      case (Inr u)
      with w(1,2) in_place(3,5) Some show ?thesis by (auto simp: with_context_def)
    qed
  qed
qed

text \<open>
  C5: Whatever calls of the file system fail, and after however many bytes: \<open>sync_hosts\<close> touches no
  file but the hosts file and its temporary file; without a change it touches none; success means
  the hosts file has exactly the new text; and after an error the hosts file is as it was, except
  when the error says that the last resort, writing the file in place, failed.
\<close>

theorem sync_hosts_faults:
  assumes "sync_hosts p ip names s = (r, s')"
  shows "(\<forall>q. q \<noteq> p \<and> (\<forall>name. file_name p = Some name \<longrightarrow> q \<noteq> hosts_tmp p name) \<longrightarrow> files s' q = files s q) \<and>
     (case r of
        Inr False \<Rightarrow> files s' = files s
      | Inr True \<Rightarrow> \<exists>f g. files s p = Some f \<and> files s' p = Some g \<and>
          replace_managed_block (content f) (render_block ip names (newline_of (content f))) = Some (content g)
      | Inl e \<Rightarrow> files s' p = files s p \<or> (\<exists>e'. e = Context (lit ''write hosts'') e'))"
proof -
  obtain r1 s1 where rd: "fs_read_to_string p s = (r1, s1)" by (cases "fs_read_to_string p s")
  note f1 = fs_frame(1) [OF rd]
  show ?thesis
  proof (cases r1)
    case (Inl e)
    with assms rd f1 show ?thesis by (auto simp: sync_hosts_def with_context_def split: if_splits)
  next
    case (Inr o1)
    with rd obtain f where f: "files s p = Some f" "o1 = content f"
      by (auto simp: fs_read_to_string_def split: outcome.splits option.splits)
    let ?rep = "replace_managed_block o1 (render_block ip names (newline_of o1))"
    note eq = assms [unfolded sync_hosts_def rd Inr, simplified, folded newline_of_def]
    show ?thesis
    proof (cases "?rep = None \<or> ?rep = Some o1")
      case True
      with eq f1 show ?thesis by (auto simp: Let_def)
    next
      case False
      then obtain t where t: "?rep = Some t" "t \<noteq> o1" by auto
      obtain r2 s2 where w: "write_atomic p t s1 = (r2, s2)" by (cases "write_atomic p t s1")
      have "files s1 p \<noteq> None" using f f1 by simp
      from write_atomic_outcome [OF w this] eq t w f f1 show ?thesis
        by (cases r2) (auto simp: Let_def)
    qed
  qed
qed

theorem sync_hosts_faults_witness:
  "\<exists>s'. sync_hosts [RootDir, Normal (lit ''hosts'')] (V4 127 0 0 2) [lit ''a.b'']
       (hosts_fs\<lparr>script := [Succeeds, Partial 3]\<rparr>) =
         (Inl (Context (lit ''write temp hosts'') (IoError (lit ''write''))), s') \<and>
     files s' [RootDir, Normal (lit ''hosts'')] = files hosts_fs [RootDir, Normal (lit ''hosts'')]"
proof -
  let ?s = "hosts_fs\<lparr>script := [Succeeds, Partial 3]\<rparr>"
  let ?r = "sync_hosts [RootDir, Normal (lit ''hosts'')] (V4 127 0 0 2) [lit ''a.b''] ?s"
  have e: "fst ?r = Inl (Context (lit ''write temp hosts'') (IoError (lit ''write'')))" by code_simp
  have n: "lit ''write temp hosts'' \<noteq> lit ''write hosts''" by code_simp
  have "?r = (Inl (Context (lit ''write temp hosts'') (IoError (lit ''write''))), snd ?r)"
    using e by (metis prod.collapse)
  then have "files (snd ?r) [RootDir, Normal (lit ''hosts'')] = files ?s [RootDir, Normal (lit ''hosts'')]"
    using sync_hosts_faults n by fastforce
  with e show ?thesis by (intro exI [of _ "snd ?r"] conjI) (metis prod.collapse, simp)
qed

end
