(* ===== verification/Net_Stream.thy ===== *)
theory Net_Stream
  imports Nya_Prelude
begin

text \<open>
  Byte streams as the program uses them through \<open>tokio::io\<close>, and \<open>tokio::time::timeout\<close>.

  A connection holds what its peer will do (\<open>incoming\<close>: each event with the milliseconds that pass
  before it), what has been written to it (\<open>sent\<close>), how the peer takes further writes
  (\<open>write_mode\<close>), and the clock. An operation is a function of the connection: its result is \<open>None\<close>
  when it never completes (the peer stays silent, or stops draining what is written), and otherwise
  a \<open>Result\<close> with the connection afterwards. Nothing here is code of the program: it is the
  environment its handlers run against.
\<close>

datatype recv = Data bytes | Eof | RecvErr

datatype write_mode = Accepts | FailsAfter nat | BlocksAfter nat

record conn =
  clock :: nat
  incoming :: "(nat \<times> recv) list"
  sent :: bytes
  mode :: write_mode

type_synonym 'a io = "conn \<Rightarrow> ('a result \<times> conn) option"

definition io_return :: "'a \<Rightarrow> 'a io" where
  "io_return x c = Some (Inr x, c)"

definition io_fail :: "error \<Rightarrow> 'a io" where
  "io_fail e c = Some (Inl e, c)"

definition io_bail :: "string \<Rightarrow> 'a io" where
  "io_bail m c = Some (bail m, c)"

definition io_bind :: "'a io \<Rightarrow> ('a \<Rightarrow> 'b io) \<Rightarrow> 'b io" where
  "io_bind f g c =
     (case f c of
        None \<Rightarrow> None
      | Some (Inl e, c') \<Rightarrow> Some (Inl e, c')
      | Some (Inr x, c') \<Rightarrow> g x c')"

definition io_lift :: "'a result \<Rightarrow> 'a io" where
  "io_lift r c = Some (r, c)"

section \<open>Reads\<close>

text \<open>One \<open>read\<close> into a buffer of \<open>n\<close> bytes: the next bytes that arrive, at most \<open>n\<close>; \<open>[]\<close> at the end.\<close>

fun read_events :: "nat \<Rightarrow> nat \<Rightarrow> (nat \<times> recv) list \<Rightarrow> (bytes result \<times> nat \<times> (nat \<times> recv) list) option" where
  "read_events n t [] = None"
| "read_events n t ((d, Eof) # es) = Some (Inr [], t + d, (0, Eof) # es)"
| "read_events n t ((d, RecvErr) # es) = Some (Inl (IoError (lit ''read'')), t + d, es)"
| "read_events n t ((d, Data bs) # es) =
     (if bs = [] then read_events n (t + d) es
      else Some (Inr (take n bs), t + d,
                 if length bs \<le> n then es else (0, Data (drop n bs)) # es))"

definition read :: "nat \<Rightarrow> bytes io" where
  "read n c =
     (case read_events n (clock c) (incoming c) of
        None \<Rightarrow> None
      | Some (r, t, es) \<Rightarrow> Some (r, c\<lparr>clock := t, incoming := es\<rparr>))"

text \<open>The bytes that arrive before the stream ends or fails.\<close>

fun pending_of :: "(nat \<times> recv) list \<Rightarrow> bytes" where
  "pending_of ((d, Data bs) # es) = bs @ pending_of es"
| "pending_of _ = []"

definition pending :: "conn \<Rightarrow> bytes" where
  "pending c = pending_of (incoming c)"

fun weight :: "(nat \<times> recv) list \<Rightarrow> nat" where
  "weight [] = 0"
| "weight ((d, Data bs) # es) = Suc (length bs) + weight es"
| "weight ((d, _) # es) = Suc (weight es)"

lemma read_events_weight:
  "read_events n t es = Some (Inr bs, t', es') \<Longrightarrow> bs \<noteq> [] \<Longrightarrow> weight es' < weight es"
  by (induction n t es rule: read_events.induct) (auto split: if_splits)

lemma read_events_data:
  "read_events n t es = Some (Inr bs, t', es') \<Longrightarrow>
     bs @ pending_of es' = pending_of es \<and> length bs \<le> n \<and> t \<le> t'"
  by (induction n t es rule: read_events.induct) (auto split: if_splits)

lemma read_events_err: "read_events n t es = Some (Inl e, t', es') \<Longrightarrow> pending_of es = [] \<and> t \<le> t'"
  by (induction n t es rule: read_events.induct) (auto split: if_splits)

lemma read_events_progress:
  "pending_of es \<noteq> [] \<Longrightarrow> 0 < n \<Longrightarrow> \<exists>bs t' es'. read_events n t es = Some (Inr bs, t', es') \<and> bs \<noteq> []"
proof (induction n t es rule: read_events.induct)
  case (4 n t d bs es)
  then show ?case by (cases bs) auto
qed auto

lemma read_data:
  assumes "read n c = Some (Inr bs, c')"
  shows "bs @ pending c' = pending c" "length bs \<le> n" "clock c \<le> clock c'" "sent c' = sent c" "mode c' = mode c"
  using assms read_events_data by (fastforce simp: read_def pending_def split: option.splits)+

lemma read_weight: "read n c = Some (Inr bs, c') \<Longrightarrow> bs \<noteq> [] \<Longrightarrow> weight (incoming c') < weight (incoming c)"
  by (auto simp: read_def split: option.splits dest: read_events_weight)

lemma read_progress:
  assumes "pending c \<noteq> []" "0 < n"
  obtains bs c' where "read n c = Some (Inr bs, c')" "bs \<noteq> []"
proof -
  obtain bs t' es' where "read_events n (clock c) (incoming c) = Some (Inr bs, t', es')" "bs \<noteq> []"
    using read_events_progress [of "incoming c" n "clock c"] assms by (auto simp: pending_def)
  then show thesis by (intro that) (auto simp: read_def)
qed

text \<open>
  The reading loop three handlers share: read a chunk, stop with the message \<open>m\<close> at the end of the
  stream, append, and let \<open>decide\<close> look at the buffer; \<open>None\<close> is the next round.
\<close>

function read_until :: "nat \<Rightarrow> string \<Rightarrow> (bytes \<Rightarrow> 'a result option) \<Rightarrow> bytes \<Rightarrow> 'a io" where
  "read_until n m decide buf c =
     (case read n c of
        None \<Rightarrow> None
      | Some (Inl e, c') \<Rightarrow> Some (Inl e, c')
      | Some (Inr bs, c') \<Rightarrow>
          if bs = [] then Some (bail m, c')
          else (case decide (buf @ bs) of
                  Some r \<Rightarrow> Some (r, c')
                | None \<Rightarrow> read_until n m decide (buf @ bs) c'))"
  by pat_completeness auto
termination
  by (relation "measure (\<lambda>(n, m, decide, buf, c). weight (incoming c))") (auto dest: read_weight)

declare read_until.simps [simp del]

text \<open>What the loop returns is a verdict on a prefix of the stream, and nothing of the stream is lost.\<close>

lemma read_until_result:
  assumes "read_until n m decide buf c = Some (Inr x, c')"
  shows "\<exists>p. decide (buf @ p) = Some (Inr x) \<and> p @ pending c' = pending c \<and> clock c \<le> clock c' \<and>
             sent c' = sent c \<and> mode c' = mode c"
  using assms
proof (induction n m decide buf c rule: read_until.induct)
  case (1 n m decide buf c)
  from "1.prems" obtain bs c1 where r: "read n c = Some (Inr bs, c1)" "bs \<noteq> []"
    by (subst (asm) read_until.simps) (auto split: option.splits sum.splits if_splits prod.splits)
  note d = read_data [OF r(1)]
  show ?case
  proof (cases "decide (buf @ bs)")
    case None
    with "1.prems" r have "read_until n m decide (buf @ bs) c1 = Some (Inr x, c')"
      by (subst (asm) read_until.simps) simp
    with "1.IH" [OF r(1) refl refl r(2) None] obtain p where
      "decide ((buf @ bs) @ p) = Some (Inr x)" "p @ pending c' = pending c1" "clock c1 \<le> clock c'"
      "sent c' = sent c1" "mode c' = mode c1" by auto
    with d show ?thesis by (intro exI [of _ "bs @ p"]) auto
  next
    case (Some v)
    with "1.prems" r have "v = Inr x" "c' = c1" by (subst (asm) read_until.simps, simp)+
    with Some d show ?thesis by (intro exI [of _ bs]) auto
  qed
qed

text \<open>
  If the whole of what arrives is decided, the loop returns: a verdict on a prefix it visits, the
  last read of at most \<open>n\<close> bytes after a prefix that was still undecided.
\<close>

lemma read_until_total:
  assumes "0 < n" "decide buf = None" "decide (buf @ pending c) \<noteq> None"
  shows "\<exists>p q r c'. read_until n m decide buf c = Some (r, c') \<and> (p @ q) @ pending c' = pending c \<and>
           decide (buf @ p) = None \<and> decide (buf @ p @ q) = Some r \<and> length q \<le> n \<and>
           sent c' = sent c \<and> mode c' = mode c"
  using assms
proof (induction n m decide buf c rule: read_until.induct)
  case (1 n m decide buf c)
  then have "pending c \<noteq> []" by auto
  then obtain bs c1 where r: "read n c = Some (Inr bs, c1)" "bs \<noteq> []"
    using read_progress [OF _ \<open>0 < n\<close>] by blast
  note d = read_data [OF r(1)]
  show ?case
  proof (cases "decide (buf @ bs)")
    case None
    have "decide ((buf @ bs) @ pending c1) \<noteq> None" using "1.prems"(3) d(1) by simp
    with "1.IH" [OF r(1) refl refl r(2) None \<open>0 < n\<close> None] obtain p q v c' where
      "read_until n m decide (buf @ bs) c1 = Some (v, c')" "(p @ q) @ pending c' = pending c1"
      "decide ((buf @ bs) @ p) = None" "decide ((buf @ bs) @ p @ q) = Some v" "length q \<le> n"
      "sent c' = sent c1" "mode c' = mode c1" by auto
    with None r d show ?thesis
      by (intro exI [of _ "bs @ p"] exI [of _ q] exI [of _ v] exI [of _ c'])
        (auto simp: read_until.simps [of n m decide buf c])
  next
    case (Some v)
    with r d "1.prems"(2) show ?thesis
      by (intro exI [of _ "[]"] exI [of _ bs] exI [of _ v] exI [of _ c1])
        (auto simp: read_until.simps [of n m decide buf c])
  qed
qed

text \<open>\<open>read_exact\<close>: fill a buffer of \<open>n\<close> bytes, or fail if the stream ends first.\<close>

function read_exact :: "nat \<Rightarrow> bytes io" where
  "read_exact n c =
     (if n = 0 then Some (Inr [], c)
      else (case read n c of
              None \<Rightarrow> None
            | Some (Inl e, c') \<Rightarrow> Some (Inl e, c')
            | Some (Inr bs, c') \<Rightarrow>
                if bs = [] then Some (Inl (IoError (lit ''unexpected end of file'')), c')
                else (case read_exact (n - length bs) c' of
                        None \<Rightarrow> None
                      | Some (Inl e, c'') \<Rightarrow> Some (Inl e, c'')
                      | Some (Inr rest, c'') \<Rightarrow> Some (Inr (bs @ rest), c''))))"
  by pat_completeness auto
termination
  by (relation "measure (\<lambda>(n, c). weight (incoming c))") (auto dest: read_weight)

declare read_exact.simps [simp del]

lemma read_exact_result:
  assumes "read_exact n c = Some (Inr bs, c')"
  shows "bs @ pending c' = pending c \<and> length bs = n \<and> sent c' = sent c \<and> mode c' = mode c"
  using assms
proof (induction n c arbitrary: bs c' rule: read_exact.induct)
  case (1 n c)
  show ?case
  proof (cases "n = 0")
    case True
    with "1.prems" show ?thesis by (simp add: read_exact.simps)
  next
    case False
    with "1.prems" obtain b1 c1 rest where r: "read n c = Some (Inr b1, c1)" "b1 \<noteq> []"
      and e: "read_exact (n - length b1) c1 = Some (Inr rest, c')" "bs = b1 @ rest"
      by (subst (asm) read_exact.simps) (auto split: option.splits sum.splits if_splits prod.splits)
    note IH = "1.IH" [OF False r(1) refl refl r(2) e(1)]
    show ?thesis using read_data [OF r(1)] IH e(2) by auto
  qed
qed

lemma read_exact_total:
  assumes "n \<le> length (pending c)"
  shows "\<exists>c'. read_exact n c = Some (Inr (take n (pending c)), c') \<and> pending c' = drop n (pending c) \<and>
              sent c' = sent c \<and> mode c' = mode c"
  using assms
proof (induction n c rule: read_exact.induct)
  case (1 n c)
  show ?case
  proof (cases "n = 0")
    case True
    then show ?thesis by (simp add: read_exact.simps)
  next
    case False
    with "1.prems" have "pending c \<noteq> []" by auto
    then obtain bs c1 where r: "read n c = Some (Inr bs, c1)" "bs \<noteq> []"
      using read_progress False by blast
    note d = read_data [OF r(1)]
    have p: "pending c = bs @ pending c1" using d(1) by simp
    then have "n - length bs \<le> length (pending c1)" using "1.prems" by simp
    from "1.IH" [OF False r(1) refl refl r(2) this] obtain c2 where
      "read_exact (n - length bs) c1 = Some (Inr (take (n - length bs) (pending c1)), c2)"
      "pending c2 = drop (n - length bs) (pending c1)" "sent c2 = sent c1" "mode c2 = mode c1" by blast
    with False r d p show ?thesis by (simp add: read_exact.simps [of n c])
  qed
qed

section \<open>Writes\<close>

definition write_all :: "bytes \<Rightarrow> unit io" where
  "write_all bs c =
     (case mode c of
        Accepts \<Rightarrow> Some (Inr (), c\<lparr>sent := sent c @ bs\<rparr>)
      | FailsAfter k \<Rightarrow>
          if length bs \<le> k then Some (Inr (), c\<lparr>sent := sent c @ bs, mode := FailsAfter (k - length bs)\<rparr>)
          else Some (Inl (IoError (lit ''write'')), c\<lparr>sent := sent c @ take k bs, mode := FailsAfter 0\<rparr>)
      | BlocksAfter k \<Rightarrow>
          if length bs \<le> k then Some (Inr (), c\<lparr>sent := sent c @ bs, mode := BlocksAfter (k - length bs)\<rparr>)
          else None)"

lemma write_all_Accepts [simp]:
  "mode c = Accepts \<Longrightarrow> write_all bs c = Some (Inr (), c\<lparr>sent := sent c @ bs\<rparr>)"
  by (simp add: write_all_def)

lemma write_all_ok:
  "write_all bs c = Some (Inr u, c') \<Longrightarrow> sent c' = sent c @ bs \<and> incoming c' = incoming c \<and> clock c' = clock c"
  by (auto simp: write_all_def split: write_mode.splits if_splits)

section \<open>Exchanges\<close>

lemma pending_sent [simp]: "pending (c\<lparr>sent := x\<rparr>) = pending c"
  by (simp add: pending_def)

lemma io_bind_Inr:
  "io_bind f g c = Some (Inr y, c'') \<longleftrightarrow> (\<exists>x c'. f c = Some (Inr x, c') \<and> g x c' = Some (Inr y, c''))"
  by (auto simp: io_bind_def split: option.splits sum.splits prod.splits)

lemma io_simps [simp]:
  "io_return x c = Some (Inr y, c') \<longleftrightarrow> y = x \<and> c' = c"
  "io_lift r c = Some (Inr y, c') \<longleftrightarrow> r = Inr y \<and> c' = c"
  "io_bail m c = Some (Inr y, c') \<longleftrightarrow> False"
  by (auto simp: io_return_def io_lift_def io_bail_def)

lemma write_all_pending: "write_all bs c = Some (Inr u, c') \<Longrightarrow> pending c' = pending c"
  using write_all_ok by (metis pending_def)

text \<open>
  On a connection that takes all writes, \<open>f\<close> sends \<open>out\<close>, consumes \<open>inp\<close> and no byte more, and
  returns \<open>x\<close>, whatever the chunks \<open>inp\<close> comes in.
\<close>

definition exchanges :: "'a io \<Rightarrow> 'a \<Rightarrow> bytes \<Rightarrow> bytes \<Rightarrow> bool" where
  "exchanges f x out inp \<longleftrightarrow>
     (\<forall>c rest. mode c = Accepts \<and> pending c = inp @ rest \<longrightarrow>
        (\<exists>c'. f c = Some (Inr x, c') \<and> sent c' = sent c @ out \<and> pending c' = rest \<and> mode c' = Accepts))"

lemma exchangesD:
  "exchanges f x out inp \<Longrightarrow> mode c = Accepts \<Longrightarrow> pending c = inp @ rest \<Longrightarrow>
     \<exists>c'. f c = Some (Inr x, c') \<and> sent c' = sent c @ out \<and> pending c' = rest \<and> mode c' = Accepts"
  by (simp add: exchanges_def)

lemma exchanges_bind:
  assumes "exchanges f x o1 i1" "exchanges (g x) y o2 i2" "out = o1 @ o2" "inp = i1 @ i2"
  shows "exchanges (io_bind f g) y out inp"
  unfolding exchanges_def
proof (intro allI impI)
  fix c rest
  assume c: "mode c = Accepts \<and> pending c = inp @ rest"
  then obtain c1 where c1: "f c = Some (Inr x, c1)" "sent c1 = sent c @ o1" "pending c1 = i2 @ rest" "mode c1 = Accepts"
    using exchangesD [OF assms(1), of c "i2 @ rest"] assms(4) by auto
  then obtain c2 where "g x c1 = Some (Inr y, c2)" "sent c2 = sent c1 @ o2" "pending c2 = rest" "mode c2 = Accepts"
    using exchangesD [OF assms(2)] by blast
  with c1 assms(3) show "\<exists>c'. io_bind f g c = Some (Inr y, c') \<and> sent c' = sent c @ out \<and> pending c' = rest \<and> mode c' = Accepts"
    by (auto simp: io_bind_Inr)
qed

lemma exchanges_return: "exchanges (io_return x) x [] []"
  by (simp add: exchanges_def)

lemma exchanges_write: "exchanges (write_all bs) () bs []"
  by (simp add: exchanges_def)

lemma exchanges_read: "length inp = n \<Longrightarrow> exchanges (read_exact n) inp [] inp"
  unfolding exchanges_def
proof (intro allI impI)
  fix c rest
  assume "length inp = n" "mode c = Accepts \<and> pending c = inp @ rest"
  with read_exact_total [of n c]
  show "\<exists>c'. read_exact n c = Some (Inr inp, c') \<and> sent c' = sent c @ [] \<and> pending c' = rest \<and> mode c' = Accepts"
    by auto
qed

lemma exchanges_write_then:
  "exchanges (g ()) y o2 inp \<Longrightarrow> out = bs @ o2 \<Longrightarrow> exchanges (io_bind (write_all bs) g) y out inp"
  by (rule exchanges_bind [OF exchanges_write]) simp_all

lemma exchanges_read_then:
  "length i1 = n \<Longrightarrow> exchanges (g i1) y out i2 \<Longrightarrow> inp = i1 @ i2 \<Longrightarrow> exchanges (io_bind (read_exact n) g) y out inp"
  by (rule exchanges_bind [OF exchanges_read]) simp_all

text \<open>
  The other direction: whenever \<open>f\<close> succeeds, on any connection, what it has sent and consumed and
  the value it returns are in the relation \<open>R\<close>.
\<close>

definition only_if :: "'a io \<Rightarrow> ('a \<Rightarrow> bytes \<Rightarrow> bytes \<Rightarrow> bool) \<Rightarrow> bool" where
  "only_if f R \<longleftrightarrow>
     (\<forall>c x c'. f c = Some (Inr x, c') \<longrightarrow>
        (\<exists>out inp. sent c' = sent c @ out \<and> pending c = inp @ pending c' \<and> R x out inp))"

lemma only_ifD:
  "only_if f R \<Longrightarrow> f c = Some (Inr x, c') \<Longrightarrow> \<exists>out inp. sent c' = sent c @ out \<and> pending c = inp @ pending c' \<and> R x out inp"
  by (simp add: only_if_def)

lemma only_if_bind:
  assumes "only_if f Q" "\<And>x o1 i1. Q x o1 i1 \<Longrightarrow> only_if (g x) (\<lambda>y o2 i2. R y (o1 @ o2) (i1 @ i2))"
  shows "only_if (io_bind f g) R"
  unfolding only_if_def
proof (intro allI impI)
  fix c y c'
  assume "io_bind f g c = Some (Inr y, c')"
  then obtain x c1 where f: "f c = Some (Inr x, c1)" and g: "g x c1 = Some (Inr y, c')" by (auto simp: io_bind_Inr)
  from only_ifD [OF assms(1) f] obtain o1 i1 where 1: "sent c1 = sent c @ o1" "pending c = i1 @ pending c1" "Q x o1 i1"
    by blast
  from only_ifD [OF assms(2) [OF 1(3)] g] obtain o2 i2 where
    "sent c' = sent c1 @ o2" "pending c1 = i2 @ pending c'" "R y (o1 @ o2) (i1 @ i2)" by blast
  with 1 show "\<exists>out inp. sent c' = sent c @ out \<and> pending c = inp @ pending c' \<and> R y out inp" by auto
qed

lemma only_if_write: "only_if (write_all bs) (\<lambda>_ out inp. out = bs \<and> inp = [])"
  unfolding only_if_def using write_all_ok write_all_pending by fastforce

lemma only_if_read: "only_if (read_exact n) (\<lambda>x out inp. out = [] \<and> inp = x \<and> length x = n)"
  unfolding only_if_def using read_exact_result by fastforce

lemma only_if_return: "R x [] [] \<Longrightarrow> only_if (io_return x) R"
  by (simp add: only_if_def)

lemma only_if_bail: "only_if (io_bail m) R"
  by (simp add: only_if_def)

lemma only_if_write_then:
  "only_if (g ()) (\<lambda>y out inp. R y (bs @ out) inp) \<Longrightarrow> only_if (io_bind (write_all bs) g) R"
  by (rule only_if_bind [OF only_if_write]) simp

lemma only_if_read_then:
  "(\<And>bs. length bs = n \<Longrightarrow> only_if (g bs) (\<lambda>y out inp. R y out (bs @ inp))) \<Longrightarrow> only_if (io_bind (read_exact n) g) R"
  by (rule only_if_bind [OF only_if_read]) simp

lemma only_if_cond:
  "(b \<Longrightarrow> only_if f R) \<Longrightarrow> (\<not> b \<Longrightarrow> only_if g R) \<Longrightarrow> only_if (if b then f else g) R"
  by simp

lemmas only_if_rules = only_if_return only_if_bail only_if_write_then only_if_read_then only_if_cond

section \<open>Timeouts\<close>

text \<open>\<open>timeout(d, f)\<close>: the result of \<open>f\<close> if it completes within \<open>d\<close> milliseconds, else the elapsed error.\<close>

datatype 'a timed = Elapsed | Completed "'a result" conn

definition timeout :: "nat \<Rightarrow> 'a io \<Rightarrow> conn \<Rightarrow> 'a timed" where
  "timeout d f c =
     (case f c of
        None \<Rightarrow> Elapsed
      | Some (r, c') \<Rightarrow> if clock c' - clock c \<le> d then Completed r c' else Elapsed)"

text \<open>
  \<open>timeout(d, f).await.context(m)??\<close>: both layers of errors in one result, and the milliseconds
  the caller has waited.
\<close>

definition timeout_context :: "nat \<Rightarrow> string \<Rightarrow> 'a io \<Rightarrow> conn \<Rightarrow> ('a \<times> conn) result \<times> nat" where
  "timeout_context d m f c =
     (case timeout d f c of
        Elapsed \<Rightarrow> (Inl (Context (lit m) (Msg (lit ''deadline has elapsed''))), d)
      | Completed (Inl e) c' \<Rightarrow> (Inl e, clock c' - clock c)
      | Completed (Inr x) c' \<Rightarrow> (Inr (x, c'), clock c' - clock c))"

lemma timeout_context_Inr:
  "fst (timeout_context d m f c) = Inr (x, c') \<longleftrightarrow> f c = Some (Inr x, c') \<and> clock c' - clock c \<le> d"
  by (auto simp: timeout_context_def timeout_def split: option.splits sum.splits timed.splits if_splits)

text \<open>The waiting inside a timeout is bounded: there is a result after \<open>d\<close> milliseconds at most.\<close>

lemma timeout_context_bounded: "snd (timeout_context d m f c) \<le> d"
  by (auto simp: timeout_context_def timeout_def split: option.splits sum.splits timed.splits if_splits)

text \<open>
  A dial (\<open>TcpStream::connect\<close>, or a TLS handshake on a stream) is an outcome after some
  milliseconds, or never; under a timeout, \<open>.context(m)?.context(m')?\<close>.
\<close>

type_synonym dial = "(nat \<times> conn result) option"

definition timeout_dial :: "nat \<Rightarrow> string \<Rightarrow> string \<Rightarrow> dial \<Rightarrow> conn result \<times> nat" where
  "timeout_dial d m m' o1 =
     (case o1 of
        Some (t, r) \<Rightarrow> if t \<le> d then (with_context m' r, t)
                      else (Inl (Context (lit m) (Msg (lit ''deadline has elapsed''))), d)
      | None \<Rightarrow> (Inl (Context (lit m) (Msg (lit ''deadline has elapsed''))), d))"

lemma timeout_dial_bounded: "snd (timeout_dial d m m' o1) \<le> d"
  by (auto simp: timeout_dial_def split: option.splits)

lemma timeout_dial_Inr: "fst (timeout_dial d m m' o1) = Inr c \<longleftrightarrow> (\<exists>t \<le> d. o1 = Some (t, Inr c))"
  by (auto simp: timeout_dial_def split: option.splits)

text \<open>Steps that take time, in sequence: a failure ends it, the waiting adds up.\<close>

definition then_timed :: "'a result \<times> nat \<Rightarrow> ('a \<Rightarrow> 'b result \<times> nat) \<Rightarrow> 'b result \<times> nat" where
  "then_timed x f =
     (case fst x of
        Inl e \<Rightarrow> (Inl e, snd x)
      | Inr a \<Rightarrow> (fst (f a), snd x + snd (f a)))"

lemma then_timed_bounded: "snd x \<le> a \<Longrightarrow> (\<And>y. snd (f y) \<le> b) \<Longrightarrow> snd (then_timed x f) \<le> a + b"
  by (auto simp: then_timed_def add_mono trans_le_add1 split: sum.splits)

lemma then_timed_Inr: "fst (then_timed x f) = Inr b \<longleftrightarrow> (\<exists>a. fst x = Inr a \<and> fst (f a) = Inr b)"
  by (auto simp: then_timed_def split: sum.splits)

section \<open>Decisions on the bytes read so far\<close>

text \<open>
  The contract between a reading loop and the parser it asks: once the parser has a verdict on the
  bytes read so far, more bytes do not change it. The verdict then depends on the stream alone and
  not on how it was cut into reads.
\<close>

locale prefix_parser =
  fixes verdict :: "bytes \<Rightarrow> 'v option"
  assumes stable: "verdict b = Some v \<Longrightarrow> verdict (b @ rest) = Some v"
begin

lemma verdict_unique: "verdict (take i s) = Some v \<Longrightarrow> verdict (take j s) = Some w \<Longrightarrow> v = w"
proof -
  assume a: "verdict (take i s) = Some v" "verdict (take j s) = Some w"
  have "verdict s = Some v" using stable [OF a(1), of "drop i s"] by simp
  moreover have "verdict s = Some w" using stable [OF a(2), of "drop j s"] by simp
  ultimately show ?thesis by simp
qed

lemma verdict_of_prefix: "verdict p = Some v \<Longrightarrow> p @ q = s \<Longrightarrow> verdict s = Some v"
  using stable by blast

lemma undecided_prefix: "verdict (p @ q) = None \<Longrightarrow> verdict p = None"
  using stable by (cases "verdict p") auto

end

end
