(* ===== verification/Tls.thy ===== *)
theory Tls
  imports Net_Stream Target
begin

text \<open>
  \<open>src/tls.rs\<close>: reading a TLS ClientHello from a connection and finding the server name in it. The
  parser indexes and slices the bytes of an untrusted peer, so it is modelled with the panics those
  operations can raise: its result is \<open>None\<close> if it panics.
\<close>

definition MAX_CLIENT_HELLO :: nat where
  "MAX_CLIENT_HELLO = 64 * 1024"

datatype client_hello_status = NeedMore | Found str | Invalid str

definition invalid :: "string \<Rightarrow> client_hello_status option" where
  "invalid reason = Some (Invalid (lit reason))"

section \<open>The server name extension\<close>

function sni_names :: "bytes \<Rightarrow> client_hello_status option" where
  "sni_names names =
     (if names = [] then invalid ''DNS SNI name not found''
      else if length names < 3 then invalid ''truncated SNI name''
      else do {
        name_type \<leftarrow> idx names 0;
        n1 \<leftarrow> idx names 1;
        n2 \<leftarrow> idx names 2;
        let name_len = unat (from_be_bytes16 n1 n2);
        if length names < 3 + name_len then invalid ''truncated SNI host''
        else if name_type = 0 then do {
          raw \<leftarrow> slice names 3 (3 + name_len);
          (case from_utf8 raw of
             None \<Rightarrow> invalid ''invalid SNI hostname''
           | Some host \<Rightarrow> if host = [] then invalid ''invalid SNI hostname'' else Some (Found host))
        }
        else do {
          rest \<leftarrow> slice_from names (3 + name_len);
          sni_names rest
        }
      })"
  by pat_completeness auto
termination
  by (relation "measure length") (auto dest: slice_from_shorter)

declare sni_names.simps [simp del]

definition parse_sni_extension :: "bytes \<Rightarrow> client_hello_status option" where
  "parse_sni_extension data =
     (if length data < 2 then invalid ''truncated SNI extension''
      else do {
        d0 \<leftarrow> idx data 0;
        d1 \<leftarrow> idx data 1;
        let list_len = unat (from_be_bytes16 d0 d1);
        if length data < 2 + list_len then invalid ''truncated SNI list''
        else do {
          names \<leftarrow> slice data 2 (2 + list_len);
          sni_names names
        }
      })"

section \<open>The ClientHello\<close>

function hello_extensions :: "bytes \<Rightarrow> client_hello_status option" where
  "hello_extensions extensions =
     (if extensions = [] then invalid ''TLS SNI extension not found''
      else if length extensions < 4 then invalid ''truncated extension header''
      else do {
        e0 \<leftarrow> idx extensions 0;
        e1 \<leftarrow> idx extensions 1;
        e2 \<leftarrow> idx extensions 2;
        e3 \<leftarrow> idx extensions 3;
        let ext_type = from_be_bytes16 e0 e1;
        let ext_len = unat (from_be_bytes16 e2 e3);
        if length extensions < 4 + ext_len then invalid ''truncated extension''
        else do {
          ext_data \<leftarrow> slice extensions 4 (4 + ext_len);
          if ext_type = 0 then parse_sni_extension ext_data
          else do {
            rest \<leftarrow> slice_from extensions (4 + ext_len);
            hello_extensions rest
          }
        }
      })"
  by pat_completeness auto
termination
  by (relation "measure length") (auto dest: slice_from_shorter)

declare hello_extensions.simps [simp del]

definition parse_client_hello_body :: "bytes \<Rightarrow> client_hello_status option" where
  "parse_client_hello_body body0 =
     (if length body0 < 34 then invalid ''truncated ClientHello''
      else do {
        body1 \<leftarrow> slice_from body0 34;
        (case body1 of
           [] \<Rightarrow> invalid ''missing session id length''
         | session_id_len # rest1 \<Rightarrow>
             if length rest1 < unat session_id_len then invalid ''truncated session id''
             else do {
               body2 \<leftarrow> slice_from rest1 (unat session_id_len);
               if length body2 < 2 then invalid ''missing cipher suites length''
               else do {
                 c0 \<leftarrow> idx body2 0;
                 c1 \<leftarrow> idx body2 1;
                 let cipher_len = unat (from_be_bytes16 c0 c1);
                 if length body2 < 2 + cipher_len then invalid ''truncated cipher suites''
                 else do {
                   body3 \<leftarrow> slice_from body2 (2 + cipher_len);
                   (case body3 of
                      [] \<Rightarrow> invalid ''missing compression methods length''
                    | compression_len # rest3 \<Rightarrow>
                        if length rest3 < unat compression_len then invalid ''truncated compression methods''
                        else do {
                          body4 \<leftarrow> slice_from rest3 (unat compression_len);
                          if length body4 < 2 then invalid ''missing extensions length''
                          else do {
                            x0 \<leftarrow> idx body4 0;
                            x1 \<leftarrow> idx body4 1;
                            let extensions_len = unat (from_be_bytes16 x0 x1);
                            if length body4 < 2 + extensions_len then invalid ''truncated extensions''
                            else do {
                              extensions \<leftarrow> slice body4 2 (2 + extensions_len);
                              hello_extensions extensions
                            }
                          }
                        })
                 }
               }
             })
      })"

text \<open>The 24-bit length of the handshake message, assembled in a \<open>usize\<close>.\<close>

definition handshake_len :: "u8 \<Rightarrow> u8 \<Rightarrow> u8 \<Rightarrow> nat" where
  "handshake_len r1 r2 r3 =
     unat (push_bit 16 (ucast r1) OR push_bit 8 (ucast r2) OR ucast r3 :: u64)"

definition parse_tls_sni :: "bytes \<Rightarrow> client_hello_status option" where
  "parse_tls_sni buf =
     (if length buf < 5 then Some NeedMore
      else do {
        content_type \<leftarrow> idx buf 0;
        if content_type \<noteq> 22 then invalid ''not a TLS handshake record''
        else do {
          b3 \<leftarrow> idx buf 3;
          b4 \<leftarrow> idx buf 4;
          let record_len = unat (from_be_bytes16 b3 b4);
          let record_end = 5 + record_len;
          if length buf < record_end then Some NeedMore
          else do {
            rec \<leftarrow> slice buf 5 record_end;
            if length rec < 4 then invalid ''not a TLS ClientHello''
            else do {
              r0 \<leftarrow> idx rec 0;
              if r0 \<noteq> 1 then invalid ''not a TLS ClientHello''
              else do {
                r1 \<leftarrow> idx rec 1;
                r2 \<leftarrow> idx rec 2;
                r3 \<leftarrow> idx rec 3;
                let hello_len = handshake_len r1 r2 r3;
                if length rec < 4 + hello_len then Some NeedMore
                else do {
                  body \<leftarrow> slice rec 4 (4 + hello_len);
                  parse_client_hello_body body
                }
              }
            }
          }
        }
      })"

section \<open>Reading the hello\<close>

text \<open>The body of the reading loop after a chunk has been appended.\<close>

definition hello_decide :: "bytes \<Rightarrow> (target \<times> bytes) result option" where
  "hello_decide buf =
     (if length buf > MAX_CLIENT_HELLO then Some (bail ''TLS ClientHello exceeds 65536 bytes'')
      else (case parse_tls_sni buf of
              None \<Rightarrow> Some (Inl Panicked)
            | Some NeedMore \<Rightarrow> None
            | Some (Found h) \<Rightarrow> Some (Inr (\<lparr>t_host = h, t_port = 443\<rparr>, buf))
            | Some (Invalid reason) \<Rightarrow> Some (Inl (Msg reason))))"

definition read_https_target :: "(target \<times> bytes) io" where
  "read_https_target = read_until 1024 ''connection closed before TLS ClientHello'' hello_decide []"

section \<open>No panic\<close>

lemma invalid_neq_None [simp]: "invalid m \<noteq> None"
  by (simp add: invalid_def)

lemma invalid_neq_NeedMore [simp]: "invalid m \<noteq> Some NeedMore"
  by (simp add: invalid_def)

lemma invalid_neq_Found [simp]: "invalid m \<noteq> Some (Found h)"
  by (simp add: invalid_def)

text \<open>The loops, with their reads in range: one round of each.\<close>

lemma sni_names_step:
  "3 \<le> length names \<Longrightarrow> sni_names names =
     (let n = unat (from_be_bytes16 (names ! 1) (names ! 2)) in
      if length names < 3 + n then invalid ''truncated SNI host''
      else if names ! 0 = 0 then
        (if valid_utf8 (take n (drop 3 names)) \<and> take n (drop 3 names) \<noteq> []
         then Some (Found (take n (drop 3 names))) else invalid ''invalid SNI hostname'')
      else sni_names (drop (3 + n) names))"
  by (subst sni_names.simps) (auto simp: panic_free Let_def from_utf8_def)

lemma hello_extensions_step:
  "4 \<le> length exts \<Longrightarrow> hello_extensions exts =
     (let n = unat (from_be_bytes16 (exts ! 2) (exts ! 3)) in
      if length exts < 4 + n then invalid ''truncated extension''
      else if from_be_bytes16 (exts ! 0) (exts ! 1) = 0 then parse_sni_extension (take n (drop 4 exts))
      else hello_extensions (drop (4 + n) exts))"
  by (subst hello_extensions.simps) (auto simp: panic_free Let_def)

text \<open>
  What a run of these parsers can return: not a panic, not a request for more bytes, and a name only
  if it is non-empty valid UTF-8.
\<close>

definition settled :: "client_hello_status option \<Rightarrow> bool" where
  "settled r = (case r of Some (Found h) \<Rightarrow> h \<noteq> [] \<and> valid_utf8 h | Some (Invalid _) \<Rightarrow> True | _ \<Rightarrow> False)"

lemma settled_invalid [simp]: "settled (invalid m)"
  by (simp add: settled_def invalid_def)

lemma settled_sni_names: "settled (sni_names names)"
proof (induction names rule: length_induct)
  case (1 names)
  show ?case
  proof (cases "length names < 3")
    case True
    then show ?thesis by (subst sni_names.simps) simp
  next
    case False
    let ?n = "unat (from_be_bytes16 (names ! 1) (names ! 2))"
    have "settled (sni_names (drop (3 + ?n) names))" using 1 False by simp
    moreover have "settled (Some (Found h)) \<longleftrightarrow> h \<noteq> [] \<and> valid_utf8 h" for h by (simp add: settled_def)
    ultimately show ?thesis using False by (simp add: sni_names_step Let_def)
  qed
qed

lemma settled_sni_extension: "settled (parse_sni_extension data)"
proof (cases "length data < 2")
  case False
  then have "data \<noteq> []" by auto
  with False show ?thesis
    by (simp add: parse_sni_extension_def panic_free Let_def settled_sni_names)
qed (simp add: parse_sni_extension_def)

lemma settled_hello_extensions: "settled (hello_extensions exts)"
proof (induction exts rule: length_induct)
  case (1 exts)
  show ?case
  proof (cases "length exts < 4")
    case True
    then show ?thesis by (subst hello_extensions.simps) simp
  next
    case False
    let ?n = "unat (from_be_bytes16 (exts ! 2) (exts ! 3))"
    have "settled (hello_extensions (drop (4 + ?n) exts))" using 1 False by simp
    with False show ?thesis by (simp add: hello_extensions_step settled_sni_extension Let_def)
  qed
qed

lemma settled_client_hello_body: "settled (parse_client_hello_body body)"
  by (simp add: parse_client_hello_body_def panic_free Let_def settled_hello_extensions split: list.split)

lemma handshake_len_eq: "handshake_len a b c = 65536 * unat a + 256 * unat b + unat c"
proof -
  have len: "bit w n \<Longrightarrow> n < 8" for w :: u8 and n by (drule bit_imp_le_length) simp
  have "(push_bit 8 (ucast b) OR ucast c :: u64) = push_bit 8 (ucast b) + ucast c"
    by (rule disjunctive_add [symmetric]) (auto simp: bit_simps dest: len)
  moreover have "(push_bit 16 (ucast a) OR (push_bit 8 (ucast b) OR ucast c) :: u64) =
      push_bit 16 (ucast a) + (push_bit 8 (ucast b) OR ucast c)"
    by (rule disjunctive_add [symmetric]) (auto simp: bit_simps dest: len)
  moreover have "unat a < 2 ^ LENGTH(8)" "unat b < 2 ^ LENGTH(8)" "unat c < 2 ^ LENGTH(8)"
    by (rule unsigned_less)+
  ultimately show ?thesis
    by (simp add: handshake_len_def push_bit_eq_mult unat_word_ariths unsigned_ucast_eq take_bit_eq_mod)
qed

section \<open>The record, and when more bytes matter\<close>

definition record_end :: "bytes \<Rightarrow> nat" where
  "record_end b = 5 + unat (from_be_bytes16 (b ! 3) (b ! 4))"

text \<open>The parser with the reads of the record layer in range.\<close>

lemma parse_tls_sni_eq:
  "parse_tls_sni b =
     (if length b < 5 then Some NeedMore
      else if b ! 0 \<noteq> 22 then invalid ''not a TLS handshake record''
      else if length b < record_end b then Some NeedMore
      else if record_end b < 9 \<or> b ! 5 \<noteq> 1 then invalid ''not a TLS ClientHello''
      else if record_end b < 9 + handshake_len (b ! 6) (b ! 7) (b ! 8) then Some NeedMore
      else parse_client_hello_body (take (handshake_len (b ! 6) (b ! 7) (b ! 8)) (drop 9 b)))"
proof (cases "length b < 5 \<or> b ! 0 \<noteq> 22 \<or> length b < record_end b \<or> record_end b < 9")
  case True
  then show ?thesis
    by (cases "b = []") (auto simp: parse_tls_sni_def record_end_def panic_free Let_def)
next
  case False
  then have f: "\<not> length b < 5" "b ! 0 = 22" "\<not> length b < record_end b" "\<not> record_end b - 5 < 4"
    by auto
  let ?r = "take (record_end b - 5) (drop 5 b)"
  have r: "length ?r = record_end b - 5" "?r \<noteq> []" "b \<noteq> []"
      "?r ! 0 = b ! 5" "?r ! 1 = b ! 6" "?r ! 2 = b ! 7" "?r ! 3 = b ! 8"
    using False by auto
  have body: "take n (drop 4 ?r) = take n (drop 9 b)" if "9 + n \<le> record_end b" for n
    using that by (simp add: drop_take min_def)
  have "parse_tls_sni b =
      (if ?r ! 0 \<noteq> 1 then invalid ''not a TLS ClientHello''
       else if length ?r < 4 + handshake_len (?r ! 1) (?r ! 2) (?r ! 3) then Some NeedMore
       else parse_client_hello_body (take (handshake_len (?r ! 1) (?r ! 2) (?r ! 3)) (drop 4 ?r)))"
    using f r(1-3) by (simp add: parse_tls_sni_def record_end_def [symmetric] panic_free Let_def)
  then show ?thesis using False r body by (auto simp del: One_nat_def)
qed

lemma record_end_append: "5 \<le> length b \<Longrightarrow> record_end (b @ rest) = record_end b"
  by (simp add: record_end_def nth_append)

lemma record_end_ge: "5 \<le> record_end b"
  by (simp add: record_end_def)

text \<open>Once the record is complete, what follows it is not looked at.\<close>

lemma parse_tls_sni_complete:
  assumes "5 \<le> length b" "record_end b \<le> length b"
  shows "parse_tls_sni (b @ rest) = parse_tls_sni b"
proof -
  have "handshake_len (b ! 6) (b ! 7) (b ! 8) \<le> length b - 9 \<Longrightarrow>
      take (handshake_len (b ! 6) (b ! 7) (b ! 8)) (drop 9 (b @ rest)) =
      take (handshake_len (b ! 6) (b ! 7) (b ! 8)) (drop 9 b)"
    by simp
  with assms show ?thesis
    by (auto simp: parse_tls_sni_eq record_end_append nth_append)
qed

lemma parse_tls_sni_decided:
  assumes "parse_tls_sni b \<noteq> Some NeedMore"
  shows "parse_tls_sni (b @ rest) = parse_tls_sni b"
proof (cases "length b < 5 \<or> b ! 0 = 22")
  case True
  with assms have "5 \<le> length b" "record_end b \<le> length b"
    by (auto simp: parse_tls_sni_eq split: if_splits)
  then show ?thesis by (rule parse_tls_sni_complete)
next
  case False
  then have "b \<noteq> []" by auto
  with False show ?thesis by (simp add: parse_tls_sni_eq nth_append)
qed

definition sni_verdict :: "bytes \<Rightarrow> client_hello_status option option" where
  "sni_verdict b = (if parse_tls_sni b = Some NeedMore then None else Some (parse_tls_sni b))"

interpretation sni: prefix_parser sni_verdict
  by unfold_locales (auto simp: sni_verdict_def parse_tls_sni_decided split: if_splits)

lemma sni_found_of_prefix:
  "parse_tls_sni p = Some (Found h) \<Longrightarrow> p @ q = s \<Longrightarrow> parse_tls_sni s = Some (Found h)"
  using sni.verdict_of_prefix [of p "Some (Found h)" q s]
  by (auto simp: sni_verdict_def split: if_splits)

lemma sni_found_record:
  assumes "parse_tls_sni s = Some (Found h)"
  shows "5 \<le> length s" "record_end s \<le> length s"
  using assms by (auto simp: parse_tls_sni_eq split: if_splits)

text \<open>A prefix that is still undecided ends before the record does.\<close>

lemma sni_undecided_short:
  assumes "parse_tls_sni (p @ q) = Some (Found h)" "parse_tls_sni p = Some NeedMore"
  shows "length p < record_end (p @ q)"
proof (rule ccontr)
  assume "\<not> length p < record_end (p @ q)"
  moreover from this have "5 \<le> length p" using record_end_ge [of "p @ q"] by simp
  ultimately have "parse_tls_sni (p @ q) = parse_tls_sni p"
    by (intro parse_tls_sni_complete) (simp_all add: record_end_append)
  with assms show False by simp
qed

lemma hello_decide_eq_None:
  "hello_decide b = None \<longleftrightarrow> length b \<le> MAX_CLIENT_HELLO \<and> parse_tls_sni b = Some NeedMore"
  by (auto simp: hello_decide_def split: option.splits client_hello_status.splits)

lemma hello_decide_eq_Inr:
  "hello_decide b = Some (Inr (t, x)) \<longleftrightarrow>
     length b \<le> MAX_CLIENT_HELLO \<and> x = b \<and> t_port t = 443 \<and> parse_tls_sni b = Some (Found (t_host t))"
  by (auto simp: hello_decide_def split: option.splits client_hello_status.splits)

section \<open>Encoding a ClientHello\<close>

text \<open>
  The encoder of the unit tests of \<open>tls.rs\<close>, and the general form of what clients send: any session
  id, cipher suites, compression methods and list of extensions.
\<close>

definition be16 :: "nat \<Rightarrow> bytes" where
  "be16 n = to_be_bytes16 (of_nat n)"

definition wrap_client_hello :: "bytes \<Rightarrow> bytes" where
  "wrap_client_hello body =
     (let handshake = [1,
            of_nat (drop_bit 16 (length body) AND 0xff),
            of_nat (drop_bit 8 (length body) AND 0xff),
            of_nat (length body AND 0xff)] @ body
      in [22, 3, 1] @ be16 (length handshake) @ handshake)"

definition synthetic_client_hello :: "str \<Rightarrow> bytes" where
  "synthetic_client_hello host =
     (let sni = be16 (3 + length host) @ [0] @ be16 (length host) @ host;
          extensions = to_be_bytes16 0 @ be16 (length sni) @ sni
      in wrap_client_hello
           ([3, 3] @ replicate 32 0 @ [0] @ be16 2 @ [0x13, 0x01] @ [1] @ [0] @
            be16 (length extensions) @ extensions))"

record hello =
  legacy_version :: bytes
  random :: bytes
  session_id :: bytes
  cipher_suites :: bytes
  compression :: bytes
  extensions :: "(u16 \<times> bytes) list"

fun ext_bytes :: "u16 \<times> bytes \<Rightarrow> bytes" where
  "ext_bytes (t, d) = to_be_bytes16 t @ be16 (length d) @ d"

fun name_bytes :: "u8 \<times> bytes \<Rightarrow> bytes" where
  "name_bytes (t, n) = [t] @ be16 (length n) @ n"

definition exts_bytes :: "(u16 \<times> bytes) list \<Rightarrow> bytes" where
  "exts_bytes xs = concat (map ext_bytes xs)"

definition names_bytes :: "(u8 \<times> bytes) list \<Rightarrow> bytes" where
  "names_bytes ns = concat (map name_bytes ns)"

definition sni_data :: "(u8 \<times> bytes) list \<Rightarrow> bytes" where
  "sni_data ns = be16 (length (names_bytes ns)) @ names_bytes ns"

definition hello_body :: "hello \<Rightarrow> bytes" where
  "hello_body h =
     legacy_version h @ random h @ [of_nat (length (session_id h))] @ session_id h @
     be16 (length (cipher_suites h)) @ cipher_suites h @
     [of_nat (length (compression h))] @ compression h @
     be16 (length (exts_bytes (extensions h))) @ exts_bytes (extensions h)"

definition wf_hello :: "hello \<Rightarrow> bool" where
  "wf_hello h \<longleftrightarrow>
     length (legacy_version h) = 2 \<and> length (random h) = 32 \<and> length (session_id h) < 256 \<and>
     length (compression h) < 256 \<and> length (hello_body h) + 4 < 65536"

declare ext_bytes.simps [simp del] name_bytes.simps [simp del]

lemma length_be16 [simp]: "length (be16 n) = 2"
  by (simp add: be16_def)

lemma be16_read: "n < 65536 \<Longrightarrow> \<exists>a b. be16 n = [a, b] \<and> unat (from_be_bytes16 a b) = n"
  by (simp add: be16_def to_be_bytes16_def from_to_be_bytes16 unat_of_nat)

lemma be16_nth:
  "n < 65536 \<Longrightarrow> unat (from_be_bytes16 (be16 n ! 0) (be16 n ! Suc 0)) = n"
  using be16_read [of n] by force

lemma to_be_bytes16_nth: "from_be_bytes16 (to_be_bytes16 w ! 0) (to_be_bytes16 w ! Suc 0) = w"
  by (simp add: to_be_bytes16_def from_to_be_bytes16)

lemma idx_at: "idx (x # xs) 0 = Some x" "idx (x # y # ys) (Suc 0) = Some y"
  by (simp_all add: idx_def)

lemma slice_from_at: "length a = n \<Longrightarrow> slice_from (a @ b) n = Some b"
  by (simp add: slice_from_def)

lemma slice_at: "length a = n \<Longrightarrow> length b = k \<Longrightarrow> slice (a @ b @ c) n (n + k) = Some b"
  by (simp add: slice_def)

lemma hello_extensions_cons:
  assumes "length d < 65536"
  shows "hello_extensions (ext_bytes (t, d) @ rest) = (if t = 0 then parse_sni_extension d else hello_extensions rest)"
proof -
  obtain a b where ab: "be16 (length d) = [a, b]" "unat (from_be_bytes16 a b) = length d"
    using be16_read assms by blast
  define hdr where "hdr = [ucast (drop_bit 8 t), ucast t, a, b :: u8]"
  have hdr: "length hdr = 4" "from_be_bytes16 (hdr ! 0) (hdr ! 1) = t"
      "unat (from_be_bytes16 (hdr ! 2) (hdr ! 3)) = length d"
    by (simp_all add: hdr_def from_to_be_bytes16 ab(2))
  have "ext_bytes (t, d) @ rest = hdr @ d @ rest" by (simp add: ext_bytes.simps ab to_be_bytes16_def hdr_def)
  then show ?thesis using hdr by (simp add: hello_extensions_step Let_def nth_append)
qed

lemma hello_extensions_find:
  assumes "\<forall>(t, d) \<in> set pre. t \<noteq> 0 \<and> length d < 65536" "length d < 65536"
  shows "hello_extensions (exts_bytes (pre @ (0, d) # post)) = parse_sni_extension d"
  using assms
proof (induction pre)
  case Nil
  then show ?case by (simp add: exts_bytes_def hello_extensions_cons)
next
  case (Cons x pre)
  then show ?case by (cases x) (simp add: exts_bytes_def hello_extensions_cons)
qed

lemma sni_names_cons:
  assumes "length n < 65536"
  shows "sni_names (name_bytes (t, n) @ rest) =
    (if t = 0 then (if valid_utf8 n \<and> n \<noteq> [] then Some (Found n) else invalid ''invalid SNI hostname'')
     else sni_names rest)"
proof -
  obtain a b where ab: "be16 (length n) = [a, b]" "unat (from_be_bytes16 a b) = length n"
    using be16_read assms by blast
  define hdr where "hdr = [t, a, b]"
  have hdr: "length hdr = 3" "hdr ! 0 = t" "unat (from_be_bytes16 (hdr ! 1) (hdr ! 2)) = length n"
    by (simp_all add: hdr_def ab(2))
  have "name_bytes (t, n) @ rest = hdr @ n @ rest" by (simp add: name_bytes.simps ab hdr_def)
  then show ?thesis using hdr by (simp add: sni_names_step Let_def nth_append)
qed

lemma sni_names_find:
  assumes "\<forall>(t, n) \<in> set pre. t \<noteq> 0 \<and> length n < 65536" "length n < 65536" "valid_utf8 n" "n \<noteq> []"
  shows "sni_names (names_bytes (pre @ (0, n) # post)) = Some (Found n)"
  using assms
proof (induction pre)
  case Nil
  then show ?case by (simp add: names_bytes_def sni_names_cons)
next
  case (Cons x pre)
  then show ?case by (cases x) (simp add: names_bytes_def sni_names_cons)
qed

lemma parse_sni_extension_data:
  assumes "length (names_bytes ns) < 65536"
  shows "parse_sni_extension (sni_data ns) = sni_names (names_bytes ns)"
proof -
  obtain a b where ab: "be16 (length (names_bytes ns)) = [a, b]"
      "unat (from_be_bytes16 a b) = length (names_bytes ns)"
    using be16_read assms by blast
  then show ?thesis
    by (simp add: parse_sni_extension_def sni_data_def idx_at Let_def slice_def)
qed

lemma length_in_exts_bytes: "(t, d) \<in> set xs \<Longrightarrow> length d \<le> length (exts_bytes xs)"
  by (induction xs) (auto simp: exts_bytes_def ext_bytes.simps)

lemma length_in_names_bytes: "(t, n) \<in> set ns \<Longrightarrow> length n \<le> length (names_bytes ns)"
  by (induction ns) (auto simp: names_bytes_def name_bytes.simps)

lemma parse_body_encoded:
  assumes "wf_hello h"
  shows "parse_client_hello_body (hello_body h) = hello_extensions (exts_bytes (extensions h))"
proof -
  have len: "length (legacy_version h @ random h) = 34" "length (session_id h) < 256"
      "length (compression h) < 256" "length (cipher_suites h) < 65536" "length (exts_bytes (extensions h)) < 65536"
    using assms by (auto simp: wf_hello_def hello_body_def)
  obtain a b where ab: "be16 (length (cipher_suites h)) = [a, b]" "unat (from_be_bytes16 a b) = length (cipher_suites h)"
    using be16_read len by blast
  obtain x y where xy: "be16 (length (exts_bytes (extensions h))) = [x, y]"
      "unat (from_be_bytes16 x y) = length (exts_bytes (extensions h))"
    using be16_read len by blast
  have b: "hello_body h = (legacy_version h @ random h) @ of_nat (length (session_id h)) # session_id h @
      ([a, b] @ cipher_suites h) @ of_nat (length (compression h)) # compression h @
      ([x, y] @ exts_bytes (extensions h))"
    by (simp add: hello_body_def ab xy)
  have t: "slice ([x, y] @ exts_bytes (extensions h)) 2 (2 + length (exts_bytes (extensions h))) =
      Some (exts_bytes (extensions h))"
    by (simp add: slice_def)
  have c: "slice_from (([a, b] @ cipher_suites h) @ r) (2 + length (cipher_suites h)) = Some r" for r
    by (rule slice_from_at) simp
  show ?thesis unfolding b parse_client_hello_body_def
    using len c t
    by (simp add: slice_from_at [of "legacy_version h @ random h"] slice_from_at idx_at unat_of_nat8 ab(2) xy(2) Let_def
        del: append_assoc)
qed

lemma handshake_len_split:
  assumes "n < 65536 * 256"
  shows "handshake_len (of_nat (drop_bit 16 n AND 0xff)) (of_nat (drop_bit 8 n AND 0xff)) (of_nat (n AND 0xff)) = n"
proof -
  have and_ff: "k AND 0xff = k mod 256" for k :: nat
    using take_bit_eq_mask [of 8 k] by (simp add: take_bit_eq_mod mask_eq_exp_minus_1)
  have "n div 65536 < 256" using assms by (simp add: less_mult_imp_div_less)
  have top: "n div 65536 mod 256 = n div 256 div 256"
    using \<open>n div 65536 < 256\<close> by (simp add: div_mult2_eq [symmetric])
  have mid: "256 * (n div 256 div 256) + n div 256 mod 256 = n div 256" by simp
  have low: "256 * (n div 256) + n mod 256 = n" by simp
  have "65536 * (n div 65536 mod 256) + 256 * (n div 256 mod 256) + n mod 256 = n"
    unfolding top using mid low by linarith
  moreover have "unat (of_nat (drop_bit 16 n AND 0xff) :: u8) = n div 65536 mod 256"
      "unat (of_nat (drop_bit 8 n AND 0xff) :: u8) = n div 256 mod 256"
      "unat (of_nat (n AND 0xff) :: u8) = n mod 256"
    by (simp_all add: and_ff drop_bit_eq_div unat_of_nat)
  ultimately show ?thesis by (simp only: handshake_len_eq)
qed

lemma parse_tls_sni_wrap:
  assumes "length body + 4 < 65536"
  shows "parse_tls_sni (wrap_client_hello body @ rest) = parse_client_hello_body body"
proof -
  let ?l1 = "of_nat (drop_bit 16 (length body) AND 0xff) :: u8"
  let ?l2 = "of_nat (drop_bit 8 (length body) AND 0xff) :: u8"
  let ?l3 = "of_nat (length body AND 0xff) :: u8"
  obtain a b where ab: "be16 (length body + 4) = [a, b]" "unat (from_be_bytes16 a b) = length body + 4"
    using be16_read assms by blast
  have w: "wrap_client_hello body @ rest = [22, 3, 1, a, b, 1, ?l1, ?l2, ?l3] @ body @ rest"
    using ab(1) by (simp add: wrap_client_hello_def Let_def eval_nat_numeral)
  have n: "handshake_len ?l1 ?l2 ?l3 = length body" using assms by (intro handshake_len_split) simp
  define hdr where "hdr = [22, 3, 1, a, b, 1, ?l1, ?l2, ?l3]"
  have "length hdr = 9" "hdr ! 0 = 22" "hdr ! 5 = 1" "handshake_len (hdr ! 6) (hdr ! 7) (hdr ! 8) = length body"
      "unat (from_be_bytes16 (hdr ! 3) (hdr ! 4)) = length body + 4"
    by (simp_all add: hdr_def n ab(2))
  then show ?thesis unfolding w hdr_def [symmetric]
    by (simp add: parse_tls_sni_eq record_end_def nth_append)
qed

lemma parse_encoded_hello_aux:
  assumes "wf_hello h" and "extensions h = pre @ (0, sni_data (npre @ (0, host) # npost)) # post"
    and "\<forall>(t, d) \<in> set pre. t \<noteq> 0" and "\<forall>(t, n) \<in> set npre. t \<noteq> 0"
    and "host \<noteq> []" and "valid_utf8 host"
  shows "parse_tls_sni (wrap_client_hello (hello_body h) @ rest) = Some (Found host)"
proof -
  let ?ns = "npre @ (0, host) # npost"
  have total: "length (exts_bytes (extensions h)) < 65536" "length (hello_body h) + 4 < 65536"
    using assms(1) by (auto simp: wf_hello_def hello_body_def)
  have ext: "length d < 65536" if "(t, d) \<in> set (extensions h)" for t d
    using length_in_exts_bytes [OF that] total(1) by simp
  have d: "\<forall>(t, d) \<in> set pre. t \<noteq> 0 \<and> length d < 65536" "length (sni_data ?ns) < 65536"
    using assms(2,3) ext by auto
  then have names: "length (names_bytes ?ns) < 65536" by (simp add: sni_data_def)
  have name: "length n < 65536" if "(t, n) \<in> set ?ns" for t n
    using length_in_names_bytes [OF that] names by simp
  have n: "\<forall>(t, n) \<in> set npre. t \<noteq> 0 \<and> length n < 65536" "length host < 65536"
    using assms(4) name by auto
  have "parse_tls_sni (wrap_client_hello (hello_body h) @ rest) = hello_extensions (exts_bytes (extensions h))"
    using total(2) by (simp add: parse_tls_sni_wrap parse_body_encoded assms(1))
  also have "\<dots> = sni_names (names_bytes ?ns)"
    unfolding assms(2) using hello_extensions_find [OF d] names by (simp add: parse_sni_extension_data)
  also have "\<dots> = Some (Found host)" using sni_names_find [OF n assms(6,5)] .
  finally show ?thesis .
qed

section \<open>Properties\<close>

text \<open>
  C34: on every byte sequence a peer can send, the ClientHello parser returns without a panic: no
  index and no slice of it is ever out of range, and a name it reports is non-empty valid UTF-8.
\<close>

theorem parse_tls_sni_no_panic:
  "case parse_tls_sni buf of None \<Rightarrow> False | Some NeedMore \<Rightarrow> True | Some (Invalid _) \<Rightarrow> True
   | Some (Found h) \<Rightarrow> h \<noteq> [] \<and> valid_utf8 h"
  using settled_client_hello_body [of "take (handshake_len (buf ! 6) (buf ! 7) (buf ! 8)) (drop 9 buf)"]
  by (auto simp: parse_tls_sni_eq invalid_def settled_def split: option.splits client_hello_status.splits)

text \<open>
  C35: the parser gives back the name a client encoded. For any ClientHello that fits one record, with
  any session id, cipher suites, compression methods and other extensions, the result is the first
  host name of its first server-name extension, whatever bytes follow the record.
\<close>

theorem parse_encoded_hello:
  assumes "wf_hello h" and "extensions h = pre @ (0, sni_data (npre @ (0, host) # npost)) # post"
    and "\<forall>(t, d) \<in> set pre. t \<noteq> 0" and "\<forall>(t, n) \<in> set npre. t \<noteq> 0"
    and "host \<noteq> []" and "valid_utf8 host"
  shows "parse_tls_sni (wrap_client_hello (hello_body h) @ rest) = Some (Found host)"
  using assms by (rule parse_encoded_hello_aux)

theorem parse_encoded_hello_witness:
  "parse_tls_sni (wrap_client_hello (hello_body
     \<lparr>legacy_version = [3, 3], random = replicate 32 7, session_id = [1], cipher_suites = [0x13, 1],
      compression = [0], extensions = [(43, [2, 3, 4])] @ (0, sni_data ([(9, [1])] @ (0, lit ''a.b'') # [])) # []\<rparr>) @ [23]) =
   Some (Found (lit ''a.b''))"
  by (rule parse_encoded_hello [where pre = "[(43, [2, 3, 4])]" and npre = "[(9, [1])]" and npost = "[]" and post = "[]"])
    (simp_all add: wf_hello_def hello_body_def exts_bytes_def ext_bytes.simps names_bytes_def name_bytes.simps sni_data_def lit_def)

text \<open>The encoder of the unit tests is an instance, so the parser reads back any host it encodes.\<close>

lemma synthetic_client_hello_eq:
  "synthetic_client_hello host = wrap_client_hello (hello_body
     \<lparr>legacy_version = [3, 3], random = replicate 32 0, session_id = [], cipher_suites = [0x13, 1],
      compression = [0], extensions = [(0, sni_data [(0, host)])]\<rparr>)"
  by (simp add: synthetic_client_hello_def hello_body_def exts_bytes_def ext_bytes.simps names_bytes_def
      name_bytes.simps sni_data_def Let_def eval_nat_numeral)

lemma parse_synthetic_hello:
  assumes "host \<noteq> []" "valid_utf8 host" "length host < 65000"
  shows "parse_tls_sni (synthetic_client_hello host @ rest) = Some (Found host)"
proof -
  let ?h = "\<lparr>legacy_version = [3, 3], random = replicate 32 0, session_id = [], cipher_suites = [0x13, 1],
      compression = [0], extensions = [(0, sni_data [(0, host)])]\<rparr>"
  have "wf_hello ?h" using assms(3)
    by (simp add: wf_hello_def hello_body_def exts_bytes_def ext_bytes.simps names_bytes_def
        name_bytes.simps sni_data_def)
  then show ?thesis unfolding synthetic_client_hello_eq
    using parse_encoded_hello_aux [of ?h "[]" "[]" host "[]" "[]" rest] assms by simp
qed

text \<open>
  C36: a ClientHello that fits the reading limit is read to the same target however the network cuts it
  into chunks, and the bytes handed over, with those still to be read, are the stream unchanged.
\<close>

theorem read_https_target_chunking:
  assumes "parse_tls_sni (pending c) = Some (Found h)" and "record_end (pending c) + 1023 \<le> MAX_CLIENT_HELLO"
  shows "\<exists>initial c'. read_https_target c = Some (Inr (\<lparr>t_host = h, t_port = 443\<rparr>, initial), c') \<and>
           initial @ pending c' = pending c \<and> record_end (pending c) \<le> length initial"
proof -
  let ?s = "pending c"
  have len: "5 \<le> length ?s" "record_end ?s \<le> length ?s" using sni_found_record [OF assms(1)] .
  have undecided: "hello_decide [] = None" by (simp add: hello_decide_def parse_tls_sni_def)
  have "hello_decide ([] @ ?s) \<noteq> None" using assms(1) by (simp add: hello_decide_eq_None)
  then obtain p q r c' where
    r: "read_https_target c = Some (r, c')" "(p @ q) @ pending c' = ?s"
      "hello_decide p = None" "hello_decide (p @ q) = Some r" "length q \<le> 1024"
    using read_until_total [where n = 1024 and decide = hello_decide and buf = "[]" and c = c
        and m = "''connection closed before TLS ClientHello''"] undecided
    unfolding read_https_target_def by auto
  have s: "?s = p @ (q @ pending c')" using r(2) by simp
  have "length p < record_end ?s"
    using sni_undecided_short [of p "q @ pending c'" h] assms(1) r(3) unfolding s by (simp add: hello_decide_eq_None)
  then have fits: "length (p @ q) \<le> MAX_CLIENT_HELLO" using r(5) assms(2) by simp
  have more: "parse_tls_sni (p @ q) \<noteq> Some NeedMore"
  proof
    assume n: "parse_tls_sni (p @ q) = Some NeedMore"
    with fits have "hello_decide (p @ q) = None" by (simp add: hello_decide_eq_None)
    with r(4) show False by simp
  qed
  from parse_tls_sni_decided [OF more, of "pending c'"] r(2) assms(1)
  have found: "parse_tls_sni (p @ q) = Some (Found h)" by simp
  then have "r = Inr (\<lparr>t_host = h, t_port = 443\<rparr>, p @ q)" using r(4) fits by (simp add: hello_decide_def)
  moreover have "record_end ?s = record_end (p @ q)"
    using record_end_append [of "p @ q" "pending c'"] sni_found_record [OF found] r(2) by simp
  ultimately show ?thesis using r sni_found_record [OF found] by auto
qed

definition sample_hello_conn :: conn where
  "sample_hello_conn = \<lparr>clock = 0,
     incoming = [(1, Data (take 3 (synthetic_client_hello (lit ''a.b'')))),
                 (1, Data (drop 3 (synthetic_client_hello (lit ''a.b''))))],
     sent = [], mode = Accepts\<rparr>"

lemma sample_hello_bytes:
  "synthetic_client_hello (lit ''a.b'') =
     [22, 3, 1, 0, 59, 1, 0, 0, 55, 3, 3] @ replicate 32 0 @
     [0, 0, 2, 19, 1, 1, 0, 0, 12, 0, 0, 0, 8, 0, 6, 0, 0, 3, 97, 46, 98]"
  by (simp add: synthetic_client_hello_def wrap_client_hello_def be16_def to_be_bytes16_def lit_def Let_def
      drop_bit_eq_div)

theorem read_https_target_chunking_witness:
  "\<exists>initial c'. read_https_target sample_hello_conn =
     Some (Inr (\<lparr>t_host = lit ''a.b'', t_port = 443\<rparr>, initial), c')"
proof -
  have p: "pending sample_hello_conn = synthetic_client_hello (lit ''a.b'')"
    by (simp add: pending_def sample_hello_conn_def)
  have "parse_tls_sni (pending sample_hello_conn) = Some (Found (lit ''a.b''))"
    unfolding p using parse_synthetic_hello [of "lit ''a.b''" "[]"] by (simp add: lit_def)
  moreover have "record_end (pending sample_hello_conn) = 64"
    by (simp add: p sample_hello_bytes record_end_def from_be_bytes16_def)
  ultimately show ?thesis
    using read_https_target_chunking [of sample_hello_conn "lit ''a.b''"]
    by (auto simp: MAX_CLIENT_HELLO_def)
qed

text \<open>A complete first record holding only the start of a ClientHello.\<close>

definition fragmented :: "bytes \<Rightarrow> bool" where
  "fragmented b \<longleftrightarrow>
     9 \<le> record_end b \<and> record_end b \<le> length b \<and> b ! 0 = 22 \<and> b ! 5 = 1 \<and>
     record_end b < 9 + handshake_len (b ! 6) (b ! 7) (b ! 8)"

text \<open>
  C40: only the first record is ever looked at. When a client splits its ClientHello over several
  records, the parser asks for more bytes, but no bytes that follow change its answer, so the reading
  loop never reports the name: the connection ends with the limit, the end of the stream or a timeout.
\<close>

theorem fragmented_hello_never_found:
  assumes "fragmented b" and "pending c = b @ rest"
  shows "parse_tls_sni (b @ rest) = Some NeedMore \<and> (\<nexists>x c'. read_https_target c = Some (Inr x, c'))"
proof
  have "parse_tls_sni b = Some NeedMore" using assms(1) by (simp add: fragmented_def parse_tls_sni_eq)
  then show s: "parse_tls_sni (b @ rest) = Some NeedMore"
    using parse_tls_sni_complete [of b rest] assms(1) by (simp add: fragmented_def)
  show "\<nexists>x c'. read_https_target c = Some (Inr x, c')"
  proof
    assume "\<exists>x c'. read_https_target c = Some (Inr x, c')"
    then obtain x c' where "read_https_target c = Some (Inr x, c')" by blast
    then obtain p where p: "hello_decide p = Some (Inr x)" "p @ pending c' = b @ rest"
      using read_until_result [of 1024 _ hello_decide "[]" c x c'] assms(2) unfolding read_https_target_def by auto
    obtain t y where "x = (t, y)" by (cases x)
    with p have "parse_tls_sni p = Some (Found (t_host t))" by (simp add: hello_decide_eq_Inr)
    from sni_found_of_prefix [OF this p(2)] s show False by simp
  qed
qed

theorem fragmented_hello_never_found_witness:
  "\<exists>c. pending c \<noteq> [] \<and> (\<nexists>x c'. read_https_target c = Some (Inr x, c'))"
proof -
  let ?b = "[22, 3, 1, 0, 5, 1, 0, 0, 9, 3 :: u8]"
  let ?c = "\<lparr>clock = 0, incoming = [(0, Data (?b @ [22, 3, 1, 0, 8]))], sent = [], mode = Accepts\<rparr>"
  have "fragmented ?b" by (simp add: fragmented_def record_end_def from_be_bytes16_def handshake_len_eq)
  moreover have "pending ?c = ?b @ [22, 3, 1, 0, 8]" by (simp add: pending_def)
  ultimately have "\<nexists>x c'. read_https_target ?c = Some (Inr x, c')"
    using fragmented_hello_never_found [of ?b ?c "[22, 3, 1, 0, 8]"] by blast
  moreover have "pending ?c \<noteq> []" by (simp add: pending_def)
  ultimately show ?thesis by blast
qed

end
