(* ===== verification/Http.thy ===== *)
theory Http
  imports Net_Stream Target
begin

text \<open>
  \<open>src/http.rs\<close>: reading a request head from a connection and finding the target in its \<open>Host\<close>
  header. Bytes: 13 and 10 are the line break, 58 is ':'.
\<close>

definition MAX_HTTP_HEADER :: nat where
  "MAX_HTTP_HEADER = 64 * 1024"

definition CRLF :: bytes where
  "CRLF = [13, 10]"

text \<open>\<open>buf.windows(4).position(..)\<close>: the first index where the four bytes occur.\<close>

definition header_end :: "bytes \<Rightarrow> nat option" where
  "header_end buf = find_sub [13, 10, 13, 10] buf"

text \<open>The body of the reading loop after a chunk has been appended.\<close>

definition header_decide :: "bytes \<Rightarrow> bytes result option" where
  "header_decide buf =
     (if header_end buf \<noteq> None then Some (Inr buf)
      else if length buf > MAX_HTTP_HEADER then Some (bail ''HTTP header exceeds 65536 bytes'')
      else None)"

definition read_until_header_end :: "bytes io" where
  "read_until_header_end = read_until 1024 ''connection closed before HTTP header'' header_decide []"

fun find_host :: "str list \<Rightarrow> target result" where
  "find_host [] = bail ''HTTP Host header not found''"
| "find_host (line # lines) =
     (case split_once 58 line of
        None \<Rightarrow> find_host lines
      | Some (name, val) \<Rightarrow>
          if eq_ignore_ascii_case (trim name) (lit ''host'') then parse_host_port (trim val) 80
          else find_host lines)"

definition parse_http_host :: "bytes \<Rightarrow> target result" where
  "parse_http_host header =
     (case header_end header of
        None \<Rightarrow> bail ''incomplete HTTP header''
      | Some e \<Rightarrow>
          (case from_utf8 (take e header) of
             None \<Rightarrow> Inl (Context (lit ''HTTP header is not valid UTF-8'') (Msg (lit ''utf-8'')))
           | Some t \<Rightarrow> find_host (drop 1 (split_seq CRLF t))))"

definition read_http_target :: "(target \<times> bytes) io" where
  "read_http_target =
     io_bind read_until_header_end (\<lambda>header.
     io_bind (io_lift (parse_http_host header)) (\<lambda>target.
     io_return (target, header)))"

section \<open>The end of the head\<close>

lemma header_end_append: "header_end b = Some e \<Longrightarrow> header_end (b @ rest) = Some e"
  by (simp add: header_end_def find_sub_append)

lemma header_end_length: "header_end b = Some e \<Longrightarrow> e + 4 \<le> length b"
  using find_sub_length [of "[13, 10, 13, 10]" b e] by (simp add: header_end_def)

lemma header_end_take: "header_end b = Some e \<Longrightarrow> e + 4 \<le> n \<Longrightarrow> header_end (take n b) = Some e"
  by (simp add: header_end_def find_sub_take)

interpretation head: prefix_parser header_end
  by unfold_locales (rule header_end_append)

text \<open>A prefix of a stream whose head ends at \<open>e\<close> has a complete head as soon as it holds it.\<close>

lemma header_end_of_prefix:
  assumes "header_end (p @ q) = Some e"
  shows "header_end p = (if e + 4 \<le> length p then Some e else None)"
proof (cases "e + 4 \<le> length p")
  case True
  with assms header_end_take [of "p @ q" e "length p"] show ?thesis by simp
next
  case False
  have "header_end p \<noteq> Some k" for k
    using False assms head.verdict_of_prefix [of p k q "p @ q"] header_end_length [of p k] by auto
  with False show ?thesis by (cases "header_end p") auto
qed

lemma parse_http_host_prefix:
  assumes "header_end p = Some e"
  shows "parse_http_host (p @ q) = parse_http_host p"
  using header_end_append [OF assms] header_end_length [OF assms] assms
  by (simp add: parse_http_host_def)

text \<open>Reading a head that fits: it is read whole, and nothing after it is lost.\<close>

lemma read_until_header_end_complete:
  assumes e: "header_end (pending c) = Some e" and fits: "e + 4 \<le> MAX_HTTP_HEADER"
  shows "\<exists>buf c'. read_until_header_end c = Some (Inr buf, c') \<and> buf @ pending c' = pending c \<and>
           header_end buf = Some e \<and> sent c' = sent c \<and> mode c' = mode c"
proof -
  have undecided: "header_decide [] = None" by (simp add: header_decide_def header_end_def)
  have "header_decide ([] @ pending c) \<noteq> None" using e by (simp add: header_decide_def)
  then obtain p q r c' where
    r: "read_until_header_end c = Some (r, c')" "(p @ q) @ pending c' = pending c"
      "header_decide p = None" "header_decide (p @ q) = Some r" "sent c' = sent c" "mode c' = mode c"
    using read_until_total [where n = 1024 and decide = header_decide and buf = "[]" and c = c
        and m = "''connection closed before HTTP header''"] undecided
    unfolding read_until_header_end_def by auto
  have pq: "header_end ((p @ q) @ pending c') = Some e" using e r(2) by simp
  have "header_end (p @ q) \<noteq> None"
  proof
    assume none: "header_end (p @ q) = None"
    then have "length (p @ q) < e + 4"
      using header_end_of_prefix [OF pq] by (simp split: if_splits)
    with none r(4) fits show False by (simp add: header_decide_def)
  qed
  then have "header_end (p @ q) = Some e" using header_end_of_prefix [OF pq] by (auto split: if_splits)
  moreover from this have "r = Inr (p @ q)" using r(4) by (simp add: header_decide_def)
  ultimately show ?thesis using r by blast
qed

lemma read_until_header_end_result:
  assumes "read_until_header_end c = Some (Inr buf, c')"
  shows "buf @ pending c' = pending c \<and> header_end buf \<noteq> None"
proof -
  obtain p where "header_decide p = Some (Inr buf)" "p @ pending c' = pending c"
    using read_until_result [OF assms [unfolded read_until_header_end_def]] by auto
  then show ?thesis by (auto simp: header_decide_def split: if_splits)
qed

section \<open>Request heads\<close>

text \<open>A head as a client sends it: its lines, each with a line break, and the empty line.\<close>

definition request_head :: "str list \<Rightarrow> bytes" where
  "request_head ls = concat (map (\<lambda>l. l @ CRLF) ls) @ CRLF"

text \<open>A text without the carriage return has no line break in it.\<close>

lemma find_sub_hd_notin: "p \<noteq> [] \<Longrightarrow> hd p \<notin> set s \<Longrightarrow> find_sub p s = None"
  using occurs_at_hd nth_mem by (metis find_sub_eq_None)

lemma occurs_at_skip:
  assumes "hd p \<notin> set l" "p \<noteq> []" "occurs_at p (l @ s) j"
  shows "length l \<le> j"
proof (rule ccontr)
  assume "\<not> length l \<le> j"
  then have "(l @ s) ! j \<in> set l" by (simp add: nth_append)
  with occurs_at_hd [OF assms(3,2)] assms(1) show False by simp
qed

lemma find_sub_skip:
  assumes "p \<noteq> []" "hd p \<notin> set l" "find_sub p s = Some i"
  shows "find_sub p (l @ s) = Some (length l + i)"
proof -
  have "occurs_at p (l @ s) (length l + i)"
    using assms by (simp add: find_sub_eq_Some occurs_at_append2)
  moreover have "\<not> occurs_at p (l @ s) j" if "j < length l + i" for j
  proof
    assume o: "occurs_at p (l @ s) j"
    then have "length l \<le> j" using occurs_at_skip assms by metis
    then obtain k where k: "j = length l + k" by (auto simp: le_iff_add)
    then have "k < i" "occurs_at p s k" using that o by (simp_all add: occurs_at_append2)
    with assms show False by (simp add: find_sub_eq_Some)
  qed
  ultimately show ?thesis using assms(1) by (simp add: find_sub_eq_Some)
qed

lemma split_seq_line:
  assumes "13 \<notin> set l"
  shows "split_seq CRLF (l @ CRLF @ s) = l # split_seq CRLF s"
proof -
  have "find_sub CRLF (CRLF @ s) = Some 0" by (simp add: CRLF_def)
  then have "find_sub CRLF (l @ CRLF @ s) = Some (length l)"
    using find_sub_skip [of CRLF l "CRLF @ s" 0] assms by (simp add: CRLF_def)
  then show ?thesis by (subst split_seq.simps) (simp add: CRLF_def)
qed

lemma split_seq_last: "13 \<notin> set l \<Longrightarrow> split_seq CRLF l = [l]"
  by (subst split_seq.simps) (simp add: find_sub_hd_notin CRLF_def)

lemma split_seq_lines:
  assumes "\<forall>l \<in> set (ls @ [m]). 13 \<notin> set l"
  shows "split_seq CRLF (concat (map (\<lambda>l. l @ CRLF) ls) @ m) = ls @ [m]"
  using assms by (induction ls) (simp_all add: split_seq_last split_seq_line)

text \<open>The blank line of a head is the first place where two line breaks meet.\<close>

lemma header_end_request:
  assumes "ls \<noteq> []" "\<forall>l \<in> set ls. l \<noteq> [] \<and> 13 \<notin> set l"
  shows "header_end (request_head ls @ body) = Some (length (concat (map (\<lambda>l. l @ CRLF) ls)) - 2)"
  using assms
proof (induction ls)
  case (Cons l ls)
  have skip: "find_sub [13, 10, 13, 10] s = Some i \<Longrightarrow>
      find_sub [13, 10, 13, 10] (l @ s) = Some (length l + i)" for s i
    using find_sub_skip [of "[13, 10, 13, 10 :: u8]" l s i] Cons.prems by simp
  show ?case
  proof (cases "ls = []")
    case True
    have "find_sub [13, 10, 13, 10] (CRLF @ CRLF @ body) = Some 0" by (simp add: CRLF_def)
    from skip [OF this] True show ?thesis by (simp add: header_end_def request_head_def CRLF_def)
  next
    case False
    then obtain k ks where ks: "ls = k # ks" by (cases ls) auto
    with Cons.prems have k: "k \<noteq> []" "13 \<notin> set k" by auto
    have IH: "find_sub [13, 10, 13, 10] (request_head ls @ body) =
        Some (length (concat (map (\<lambda>l. l @ CRLF) ls)) - 2)"
      using Cons False by (simp add: header_end_def)
    have two: "find_sub [13, 10, 13, 10] (CRLF @ s) = Some (2 + i)"
      if "find_sub [13, 10, 13, 10] s = Some i" "s \<noteq> []" "hd s \<noteq> 13" for s i
      using that by (cases s) (auto simp: CRLF_def)
    have h: "request_head ls @ body \<noteq> []" "hd (request_head ls @ body) \<noteq> 13"
      using ks k by (cases k; simp add: request_head_def)+
    have "length (concat (map (\<lambda>l. l @ CRLF) ls)) \<ge> 2" using ks by (simp add: CRLF_def)
    then show ?thesis using skip [OF two [OF IH h]]
      by (simp add: header_end_def request_head_def CRLF_def)
  qed
qed simp

lemma parse_http_host_request:
  assumes ls: "ls \<noteq> []" "\<forall>l \<in> set ls. l \<noteq> [] \<and> 13 \<notin> set l" and v: "\<forall>l \<in> set ls. \<forall>b \<in> set l. b < 0x80"
  shows "parse_http_host (request_head ls @ body) = find_host (tl ls)"
proof -
  let ?all = "concat (map (\<lambda>l. l @ CRLF) ls)"
  obtain ks m where ks: "ls = ks @ [m]" using ls(1) by (cases ls rule: rev_cases) auto
  let ?text = "concat (map (\<lambda>l. l @ CRLF) ks) @ m"
  have e: "header_end (request_head ls @ body) = Some (length ?all - 2)"
    using ls by (rule header_end_request)
  have t: "take (length ?all - 2) (request_head ls @ body) = ?text"
    by (simp add: ks request_head_def CRLF_def)
  have "\<forall>b \<in> set ?text. b < 0x80" using v ks by (auto simp: CRLF_def)
  then have "valid_utf8 ?text" by (rule valid_utf8_ascii)
  moreover have "split_seq CRLF ?text = ls" using split_seq_lines [of ks m] ls(2) ks by simp
  ultimately show ?thesis using e t by (simp add: parse_http_host_def from_utf8_def drop_Suc)
qed

text \<open>Lines that are no \<open>Host\<close> header are passed over.\<close>

definition is_host_line :: "str \<Rightarrow> bool" where
  "is_host_line line \<longleftrightarrow>
     (case split_once 58 line of
        None \<Rightarrow> False
      | Some (name, val) \<Rightarrow> eq_ignore_ascii_case (trim name) (lit ''host''))"

lemma find_host_skip: "\<forall>l \<in> set pre. \<not> is_host_line l \<Longrightarrow> find_host (pre @ ls) = find_host ls"
  by (induction pre) (auto simp: is_host_line_def split: option.splits)

lemma find_host_first:
  "is_host_line (name @ 58 # val) \<Longrightarrow> 58 \<notin> set name \<Longrightarrow>
     find_host ((name @ 58 # val) # ls) = parse_host_port (trim val) 80"
  by (auto simp: is_host_line_def split_once_append)

lemma host_line: "is_host_line (lit ''Host'' @ 58 # val)"
proof -
  have "split_once 58 (lit ''Host'' @ 58 # val) = Some (lit ''Host'', val)"
    by (rule split_once_append) (simp add: lit_def)
  moreover have "trim (lit ''Host'') = lit ''Host''"
    by (rule trim_visible) (simp add: lit_def visible_def)
  ultimately show ?thesis
    by (simp add: is_host_line_def eq_ignore_ascii_case_def lit_def to_lower_def)
qed

lemma find_host_none: "\<forall>l \<in> set ls. \<not> is_host_line l \<Longrightarrow> find_host ls = bail ''HTTP Host header not found''"
  using find_host_skip [of ls "[]"] by simp

section \<open>Properties\<close>

text \<open>
  C32: a request whose head fits the limit is read to the same target however the network cuts it
  into chunks: the loop returns, the target is the one of the whole stream, and the bytes it hands
  over, with those still to be read, are the stream unchanged.
\<close>

theorem read_http_target_chunking:
  assumes "header_end (pending c) = Some e" and "e + 4 \<le> MAX_HTTP_HEADER"
    and "parse_http_host (pending c) = Inr t"
  shows "\<exists>initial c'. read_http_target c = Some (Inr (t, initial), c') \<and>
           initial @ pending c' = pending c \<and> e + 4 \<le> length initial"
proof -
  obtain buf c' where b: "read_until_header_end c = Some (Inr buf, c')" "buf @ pending c' = pending c"
    "header_end buf = Some e"
    using read_until_header_end_complete [OF assms(1,2)] by blast
  have "parse_http_host buf = Inr t"
    using parse_http_host_prefix [OF b(3), of "pending c'"] b(2) assms(3) by simp
  with b header_end_length [OF b(3)] show ?thesis
    by (auto simp: read_http_target_def io_bind_def io_lift_def io_return_def)
qed

definition sample_request :: bytes where
  "sample_request = request_head [lit ''GET / HTTP/1.1'', lit ''Host: example.com'']"

definition sample_conn :: conn where
  "sample_conn = \<lparr>clock = 0,
     incoming = [(3, Data (take 20 sample_request)), (5, Data (drop 20 sample_request @ [1, 2]))],
     sent = [], mode = Accepts\<rparr>"

lemma sample_request_host:
  "parse_http_host (sample_request @ body) = Inr \<lparr>t_host = lit ''example.com'', t_port = 80\<rparr>"
proof -
  have "parse_http_host (sample_request @ body) = find_host [lit ''Host'' @ 58 # 32 # lit ''example.com'']"
    unfolding sample_request_def by (subst parse_http_host_request) (simp_all add: lit_def)
  also have "\<dots> = parse_host_port (trim (32 # lit ''example.com'')) 80"
    by (rule find_host_first [OF host_line]) (simp add: lit_def)
  also have "trim (32 # lit ''example.com'') = lit ''example.com''"
    by (rule trim_space_visible) (simp_all add: lit_def visible_def)
  finally show ?thesis by (simp add: parse_host_port_no_colon lit_def)
qed

lemma sample_conn_pending: "pending sample_conn = sample_request @ [1, 2]"
  by (simp add: sample_conn_def pending_def)

theorem read_http_target_chunking_witness:
  "\<exists>initial c'. read_http_target sample_conn =
     Some (Inr (\<lparr>t_host = lit ''example.com'', t_port = 80\<rparr>, initial), c') \<and>
     initial @ pending c' = pending sample_conn"
proof -
  have "header_end (pending sample_conn) = Some (length (concat (map (\<lambda>l. l @ CRLF)
      [lit ''GET / HTTP/1.1'', lit ''Host: example.com''])) - 2)"
    unfolding sample_conn_pending sample_request_def by (rule header_end_request) (simp_all add: lit_def)
  then have "header_end (pending sample_conn) = Some 33" by (simp add: lit_def CRLF_def)
  from read_http_target_chunking [OF this] show ?thesis
    by (auto simp: MAX_HTTP_HEADER_def sample_conn_pending sample_request_host)
qed

text \<open>
  C33: the target of a request is that of its first \<open>Host\<close> line. For a request line and header
  lines of visible text, the lines before it that are not \<open>Host\<close> lines and everything after it
  make no difference, and the host is taken with port 80 if it is a valid host name.
\<close>

theorem parse_http_host_first_host:
  assumes "request \<noteq> []" and "\<forall>l \<in> set (request # pre @ post). l \<noteq> [] \<and> 13 \<notin> set l \<and> (\<forall>b \<in> set l. b < 0x80)"
    and "\<forall>l \<in> set pre. \<not> is_host_line l" and "is_valid_hostname h"
  shows "parse_http_host (request_head (request # pre @ [lit ''Host'' @ 58 # 32 # h] @ post) @ body) =
           Inr \<lparr>t_host = h, t_port = 80\<rparr>"
proof -
  have h: "13 \<notin> set h" "58 \<notin> set h" "\<forall>b \<in> set h. b < 0x80"
    using valid_hostname_no_byte [OF assms(4)] valid_hostname_utf8 [OF assms(4)] by auto
  have "parse_http_host (request_head (request # pre @ [lit ''Host'' @ 58 # 32 # h] @ post) @ body) =
      find_host (pre @ [lit ''Host'' @ 58 # 32 # h] @ post)"
    using assms h by (subst parse_http_host_request) (auto simp: lit_def)
  also have "\<dots> = parse_host_port (trim (32 # h)) 80"
    using assms(3) find_host_first [OF host_line, of "32 # h"] by (simp add: find_host_skip lit_def)
  also have "\<dots> = parse_host_port h 80" using valid_hostname_trim [OF assms(4)] by simp
  also have "\<dots> = Inr \<lparr>t_host = h, t_port = 80\<rparr>"
    using h valid_hostname_neq_Nil [OF assms(4)] valid_hostname_ends(1) [OF assms(4)] alphanumeric_neq
    by (intro parse_host_port_no_colon) auto
  finally show ?thesis .
qed

theorem parse_http_host_first_host_witness:
  "parse_http_host (request_head (lit ''GET / HTTP/1.1'' # [lit ''Accept: a''] @
     [lit ''Host'' @ 58 # 32 # lit ''a.b''] @ [lit ''Host: c'']) @ [0, 255]) =
     Inr \<lparr>t_host = lit ''a.b'', t_port = 80\<rparr>"
proof (rule parse_http_host_first_host)
  have "trim (lit ''Accept'') = lit ''Accept''" by (rule trim_visible) (simp add: lit_def visible_def)
  then have "\<not> is_host_line (lit ''Accept'' @ 58 # lit '' a'')"
    by (simp add: is_host_line_def lit_def eq_ignore_ascii_case_def)
  then show "\<forall>l \<in> set [lit ''Accept: a'']. \<not> is_host_line l" by (simp add: lit_def)
qed (simp_all add: lit_def is_valid_hostname_def is_valid_dns_label_def is_ascii_alphanumeric_def)

end
