(* ===== verification/Proxy.thy ===== *)
theory Proxy
  imports Http
begin

text \<open>
  \<open>src/proxy.rs\<close>: upstream proxies: parsing their URL, the HTTP CONNECT and SOCKS5 handshakes, and
  connecting under timeouts. The \<open>url\<close> crate (what it finds in a text), base64, the TLS connector,
  and the network (what dialling an address gives) are parameters; a TLS connector is opaque.
\<close>

datatype proxy_kind = HttpProxy | HttpsProxy | Socks5

record 'tls proxy_config =
  kind :: proxy_kind
  host :: str
  port :: u16
  username :: "str option"
  password :: "str option"
  tls_connector :: "'tls option"

definition UPSTREAM_CONNECT_TIMEOUT :: nat where
  "UPSTREAM_CONNECT_TIMEOUT = 10000"

definition PROXY_HANDSHAKE_TIMEOUT :: nat where
  "PROXY_HANDSHAKE_TIMEOUT = 10000"

text \<open>What the \<open>url\<close> crate answers about a URL it has parsed.\<close>

record url_parts =
  url_scheme :: str
  url_host_str :: "str option"
  url_port_or_known_default :: "u16 option"
  url_username :: str
  url_password :: "str option"

definition parse_proxy :: "(str \<Rightarrow> url_parts result) \<Rightarrow> 'tls \<Rightarrow> str \<Rightarrow> 'tls proxy_config result" where
  "parse_proxy url_parse tls_client raw =
     try_res (with_context ''parse proxy URL'' (url_parse raw)) (\<lambda>url.
     try_res (if url_scheme url = lit ''http'' then Inr HttpProxy
              else if url_scheme url = lit ''https'' then Inr HttpsProxy
              else if url_scheme url = lit ''socks5'' then Inr Socks5
              else bail ''unsupported proxy scheme'') (\<lambda>k.
     try_res (ok_or ''proxy URL missing host'' (url_host_str url)) (\<lambda>h.
     try_res (ok_or ''proxy URL missing port and scheme has no known default'' (url_port_or_known_default url)) (\<lambda>p.
     Inr \<lparr>kind = k, host = h, port = p,
          username = (if url_username url = [] then None else Some (url_username url)),
          password = url_password url,
          tls_connector = (if k = HttpsProxy then Some tls_client else None)\<rparr>))))"

text \<open>The fields the \<open>Debug\<close> implementation prints, in order.\<close>

datatype debug_field = KindField proxy_kind | HostField str | PortField u16 | CredentialField str "str option"

definition debug_proxy :: "'tls proxy_config \<Rightarrow> debug_field list" where
  "debug_proxy p =
     [KindField (kind p), HostField (host p), PortField (port p),
      CredentialField (lit ''username'') (map_option (\<lambda>_. lit ''<redacted>'') (username p)),
      CredentialField (lit ''password'') (map_option (\<lambda>_. lit ''<redacted>'') (password p))]"

section \<open>HTTP CONNECT\<close>

record connect_response =
  header :: bytes
  leftover :: bytes

text \<open>The body of the reading loop after a chunk has been appended.\<close>

definition connect_decide :: "bytes \<Rightarrow> connect_response result option" where
  "connect_decide response =
     (case header_end response of
        Some e \<Rightarrow>
          (case slice_from response (e + 4) of
             None \<Rightarrow> Some (Inl Panicked)
           | Some left_over \<Rightarrow> Some (Inr \<lparr>header = take e response, leftover = left_over\<rparr>))
      | None \<Rightarrow>
          if length response > MAX_HTTP_HEADER then Some (bail ''HTTP proxy CONNECT response too large'')
          else None)"

definition read_connect_response :: "connect_response io" where
  "read_connect_response = read_until 512 ''HTTP proxy closed before CONNECT response'' connect_decide []"

definition basic_auth_header :: "(bytes \<Rightarrow> str) \<Rightarrow> 'tls proxy_config \<Rightarrow> str option" where
  "basic_auth_header b64 p =
     (case username p of
        None \<Rightarrow> None
      | Some user \<Rightarrow>
          (let pass = (case password p of Some w \<Rightarrow> w | None \<Rightarrow> [])
           in Some (b64 (user @ [58] @ pass))))"

definition connect_request :: "(bytes \<Rightarrow> str) \<Rightarrow> 'tls proxy_config \<Rightarrow> target \<Rightarrow> str" where
  "connect_request b64 p target =
     (let target_addr = format_target target
      in lit ''CONNECT '' @ target_addr @ lit '' HTTP/1.1'' @ CRLF @
         lit ''Host: '' @ target_addr @ CRLF @
         lit ''Proxy-Connection: Keep-Alive'' @ CRLF @
         (case basic_auth_header b64 p of
            Some auth \<Rightarrow> lit ''Proxy-Authorization: Basic '' @ auth @ CRLF
          | None \<Rightarrow> []) @
         CRLF)"

definition check_status :: "connect_response \<Rightarrow> bytes result" where
  "check_status response =
     (case from_utf8 (header response) of
        None \<Rightarrow> Inl (Context (lit ''CONNECT response is not UTF-8'') (Msg (lit ''utf-8'')))
      | Some head \<Rightarrow>
          (case first_line head of
             None \<Rightarrow> bail ''empty CONNECT response''
           | Some status \<Rightarrow>
               (case drop 1 (split_whitespace status) of
                  word # _ \<Rightarrow>
                    if word = lit ''200'' then Inr (leftover response)
                    else Inl (Msg (lit ''HTTP proxy CONNECT failed: '' @ status))
                | [] \<Rightarrow> Inl (Msg (lit ''HTTP proxy CONNECT failed: '' @ status)))))"

definition http_connect :: "(bytes \<Rightarrow> str) \<Rightarrow> 'tls proxy_config \<Rightarrow> target \<Rightarrow> bytes io" where
  "http_connect b64 p target =
     io_bind (write_all (connect_request b64 p target)) (\<lambda>_.
     io_bind read_connect_response (\<lambda>response.
     io_lift (check_status response)))"

section \<open>SOCKS5\<close>

definition socks5_userpass :: "bytes \<Rightarrow> bytes \<Rightarrow> bytes" where
  "socks5_userpass user pass = [0x01, of_nat (length user)] @ user @ [of_nat (length pass)] @ pass"

definition socks5_select :: "'tls proxy_config \<Rightarrow> unit io" where
  "socks5_select p =
     (let pass = (case password p of Some w \<Rightarrow> w | None \<Rightarrow> [])
      in case username p of
           Some user \<Rightarrow>
             io_bind (write_all [0x05, 0x02, 0x00, 0x02]) (\<lambda>_.
             io_bind (read_exact 2) (\<lambda>selected.
               if selected = [0x05, 0x02] then
                 if length user > 255 \<or> length pass > 255
                 then io_bail ''SOCKS5 username/password must be <= 255 bytes''
                 else
                   io_bind (write_all (socks5_userpass user pass)) (\<lambda>_.
                   io_bind (read_exact 2) (\<lambda>auth_status.
                     if auth_status \<noteq> [0x01, 0x00] then io_bail ''SOCKS5 username/password authentication failed''
                     else io_return ()))
               else if selected = [0x05, 0x00] then io_return ()
               else if selected = [0x05, 0xff] then io_bail ''SOCKS5 proxy rejected authentication methods''
               else io_bail ''invalid SOCKS5 method selection response''))
         | None \<Rightarrow>
             io_bind (write_all [0x05, 0x01, 0x00]) (\<lambda>_.
             io_bind (read_exact 2) (\<lambda>selected.
               if selected \<noteq> [0x05, 0x00] then io_bail ''SOCKS5 proxy requires unsupported authentication''
               else io_return ())))"

definition socks5_request :: "target \<Rightarrow> bytes" where
  "socks5_request t =
     [0x05, 0x01, 0x00, 0x03, of_nat (length (t_host t))] @ t_host t @ to_be_bytes16 (t_port t)"

definition socks5_reply :: "unit io" where
  "socks5_reply =
     io_bind (read_exact 4) (\<lambda>head.
       if head ! 0 \<noteq> 0x05 then io_bail ''invalid SOCKS5 response version''
       else if head ! 1 \<noteq> 0x00 then io_bail ''SOCKS5 connect failed''
       else
         io_bind (if head ! 3 = 0x01 then io_return 4
                  else if head ! 3 = 0x03 then io_bind (read_exact 1) (\<lambda>len. io_return (unat (len ! 0)))
                  else if head ! 3 = 0x04 then io_return 16
                  else io_bail ''invalid SOCKS5 address type'') (\<lambda>addr_len.
         io_bind (read_exact (addr_len + 2)) (\<lambda>_. io_return ())))"

definition socks5_connect :: "'tls proxy_config \<Rightarrow> target \<Rightarrow> unit io" where
  "socks5_connect p target =
     io_bind (socks5_select p) (\<lambda>_.
       if length (t_host target) > 255 then io_bail ''SOCKS5 target host is too long''
       else
         io_bind (write_all (socks5_request target)) (\<lambda>_. socks5_reply))"

section \<open>Connecting\<close>

record 's prefixed_stream =
  stream :: 's
  prefix :: bytes
  prefix_offset :: nat

definition new_prefixed :: "'s \<Rightarrow> bytes \<Rightarrow> 's prefixed_stream" where
  "new_prefixed s p = \<lparr>stream = s, prefix = p, prefix_offset = 0\<rparr>"

datatype proxy_stream = Plain "conn prefixed_stream" | Tls "conn prefixed_stream"

text \<open>
  The network and the crates a connection goes through: what dialling a host and port gives, the
  check of a TLS server name, and the TLS handshake on a stream, which gives the decrypted one.
\<close>

record ('tls, 'name) network =
  dial_tcp :: "str \<Rightarrow> u16 \<Rightarrow> dial"
  server_name :: "str \<Rightarrow> 'name result"
  tls_handshake :: "'tls \<Rightarrow> 'name \<Rightarrow> conn \<Rightarrow> dial"

definition connect ::
  "('tls, 'name) network \<Rightarrow> (bytes \<Rightarrow> str) \<Rightarrow> 'tls proxy_config \<Rightarrow> target \<Rightarrow> proxy_stream result \<times> nat" where
  "connect net b64 p target =
     (case kind p of
        HttpProxy \<Rightarrow>
          then_timed (timeout_dial UPSTREAM_CONNECT_TIMEOUT ''timed out connecting to HTTP proxy''
              ''connect HTTP proxy'' (dial_tcp net (host p) (port p))) (\<lambda>stream.
          then_timed (timeout_context PROXY_HANDSHAKE_TIMEOUT ''timed out during HTTP proxy CONNECT''
              (http_connect b64 p target) stream) (\<lambda>(prefix, stream).
          (Inr (Plain (new_prefixed stream prefix)), 0)))
      | HttpsProxy \<Rightarrow>
          then_timed (timeout_dial UPSTREAM_CONNECT_TIMEOUT ''timed out connecting to HTTPS proxy''
              ''connect HTTPS proxy'' (dial_tcp net (host p) (port p))) (\<lambda>stream.
          then_timed (ok_or ''HTTPS proxy connector missing'' (tls_connector p), 0) (\<lambda>connector.
          then_timed (with_context ''HTTPS proxy host is not a valid TLS server name''
              (server_name net (host p)), 0) (\<lambda>dns_name.
          then_timed (timeout_dial PROXY_HANDSHAKE_TIMEOUT ''timed out during HTTPS proxy TLS handshake''
              ''TLS handshake with HTTPS proxy'' (tls_handshake net connector dns_name stream)) (\<lambda>stream.
          then_timed (timeout_context PROXY_HANDSHAKE_TIMEOUT ''timed out during HTTPS proxy CONNECT''
              (http_connect b64 p target) stream) (\<lambda>(prefix, stream).
          (Inr (Tls (new_prefixed stream prefix)), 0))))))
      | Socks5 \<Rightarrow>
          then_timed (timeout_dial UPSTREAM_CONNECT_TIMEOUT ''timed out connecting to SOCKS5 proxy''
              ''connect SOCKS5 proxy'' (dial_tcp net (host p) (port p))) (\<lambda>stream.
          then_timed (timeout_context PROXY_HANDSHAKE_TIMEOUT ''timed out during SOCKS5 handshake''
              (socks5_connect p target) stream) (\<lambda>(_, stream).
          (Inr (Plain (new_prefixed stream [])), 0))))"

section \<open>Reading a tunnel\<close>

text \<open>What a \<open>poll_read\<close> answers: not yet, or the bytes put into the buffer, or an error.\<close>

datatype read_poll = Pending | Ready "bytes result"

text \<open>\<open>poll_read\<close> of a connection into a buffer with \<open>n\<close> free bytes.\<close>

definition conn_poll_read :: "nat \<Rightarrow> conn \<Rightarrow> read_poll \<times> conn" where
  "conn_poll_read n c = (case read n c of None \<Rightarrow> (Pending, c) | Some (r, c') \<Rightarrow> (Ready r, c'))"

definition poll_read ::
  "(nat \<Rightarrow> 's \<Rightarrow> read_poll \<times> 's) \<Rightarrow> nat \<Rightarrow> 's prefixed_stream \<Rightarrow> (read_poll \<times> 's prefixed_stream) option" where
  "poll_read inner remaining st =
     (if prefix_offset st < length (prefix st) \<and> remaining > 0 then do {
        available \<leftarrow> slice_from (prefix st) (prefix_offset st);
        let n = min (length available) remaining;
        chunk \<leftarrow> slice available 0 n;
        let offset = prefix_offset st + n;
        Some (Ready (Inr chunk),
              if offset = length (prefix st) then st\<lparr>prefix := [], prefix_offset := 0\<rparr>
              else st\<lparr>prefix_offset := offset\<rparr>)
      }
      else (case inner remaining (stream st) of (r, s) \<Rightarrow> Some (r, st\<lparr>stream := s\<rparr>)))"

definition tunnel_poll_read :: "nat \<Rightarrow> proxy_stream \<Rightarrow> (read_poll \<times> proxy_stream) option" where
  "tunnel_poll_read n t =
     (case t of
        Plain s \<Rightarrow> map_option (\<lambda>(r, s'). (r, Plain s')) (poll_read conn_poll_read n s)
      | Tls s \<Rightarrow> map_option (\<lambda>(r, s'). (r, Tls s')) (poll_read conn_poll_read n s))"

section \<open>Writing a tunnel\<close>

text \<open>
  Writing, flushing and shutting down pass each call on to the stream inside: \<open>call\<close> is what the
  call does there, with \<open>None\<close> if it does not complete.
\<close>

definition prefixed_write :: "('s \<Rightarrow> ('a \<times> 's) option) \<Rightarrow> 's prefixed_stream \<Rightarrow> ('a \<times> 's prefixed_stream) option" where
  "prefixed_write call st = map_option (\<lambda>(r, s). (r, st\<lparr>stream := s\<rparr>)) (call (stream st))"

definition tunnel_write :: "(conn \<Rightarrow> ('a \<times> conn) option) \<Rightarrow> proxy_stream \<Rightarrow> ('a \<times> proxy_stream) option" where
  "tunnel_write call t =
     (case t of
        Plain s \<Rightarrow> map_option (\<lambda>(r, s'). (r, Plain s')) (prefixed_write call s)
      | Tls s \<Rightarrow> map_option (\<lambda>(r, s'). (r, Tls s')) (prefixed_write call s))"

end
