(* ===== verification/Proxy_Spec.thy ===== *)
theory Proxy_Spec
  imports Proxy
begin

text \<open>
  What the handshakes with an upstream proxy promise: the bytes sent and consumed, when they
  succeed, that no byte of the tunnel is lost, and that connecting always comes to an end.
\<close>

section \<open>SOCKS5\<close>

text \<open>
  The exchanges of RFC 1928 and RFC 1929 that let a client in: what it sends, and what the server
  answers. The client offers a password exactly if it has a user name.
\<close>

inductive socks5_auth :: "'tls proxy_config \<Rightarrow> bytes \<Rightarrow> bytes \<Rightarrow> bool" for p where
  no_user: "username p = None \<Longrightarrow> socks5_auth p [5, 1, 0] [5, 0]"
| not_asked: "username p = Some u \<Longrightarrow> socks5_auth p [5, 2, 0, 2] [5, 0]"
| asked: "username p = Some u \<Longrightarrow> w = (case password p of Some w \<Rightarrow> w | None \<Rightarrow> []) \<Longrightarrow>
    length u \<le> 255 \<Longrightarrow> length w \<le> 255 \<Longrightarrow>
    socks5_auth p ([5, 2, 0, 2] @ [1, of_nat (length u)] @ u @ [of_nat (length w)] @ w) [5, 2, 1, 0]"

text \<open>A success reply: version, code 0, a reserved byte, and the bound address of one of three kinds.\<close>

inductive socks5_success :: "bytes \<Rightarrow> bool" where
  v4: "length a = 4 \<Longrightarrow> length pt = 2 \<Longrightarrow> socks5_success ([5, 0, r, 1] @ a @ pt)"
| domain: "length a = unat n \<Longrightarrow> length pt = 2 \<Longrightarrow> socks5_success ([5, 0, r, 3, n] @ a @ pt)"
| v6: "length a = 16 \<Longrightarrow> length pt = 2 \<Longrightarrow> socks5_success ([5, 0, r, 4] @ a @ pt)"

lemma select_exchanges: "socks5_auth p out inp \<Longrightarrow> exchanges (socks5_select p) () out inp"
proof (induction rule: socks5_auth.induct)
  case no_user
  have "exchanges (socks5_select p) () ([5, 1, 0] @ []) ([5, 0] @ [])"
    unfolding socks5_select_def no_user Let_def option.case
    by (rule exchanges_write_then [OF exchanges_read_then [where ?i1.0 = "[5, 0]"]]) (simp_all add: exchanges_return)
  then show ?case by simp
next
  case (not_asked u)
  have "exchanges (socks5_select p) () ([5, 2, 0, 2] @ []) ([5, 0] @ [])"
    unfolding socks5_select_def not_asked Let_def option.case
    by (rule exchanges_write_then [OF exchanges_read_then [where ?i1.0 = "[5, 0]"]]) (simp_all add: exchanges_return)
  then show ?case by simp
next
  case (asked u w)
  have inner: "exchanges (io_bind (write_all (socks5_userpass u w)) (\<lambda>_.
                   io_bind (read_exact 2) (\<lambda>auth_status.
                     if auth_status \<noteq> [0x01, 0x00] then io_bail ''SOCKS5 username/password authentication failed''
                     else io_return ()))) () (socks5_userpass u w @ []) ([1, 0] @ [])"
    by (rule exchanges_write_then [OF exchanges_read_then [where ?i1.0 = "[1, 0]"]]) (simp_all add: exchanges_return)
  have "exchanges (socks5_select p) () ([5, 2, 0, 2] @ socks5_userpass u w) ([5, 2] @ [1, 0])"
    unfolding socks5_select_def asked(1) Let_def option.case asked(2) [symmetric]
    using inner asked(3,4)
    by (intro exchanges_write_then [OF exchanges_read_then [where ?i1.0 = "[5, 2]"]]) simp_all
  then show ?case by (simp add: socks5_userpass_def)
qed

lemma reply_exchanges: "socks5_success inp \<Longrightarrow> exchanges socks5_reply () [] inp"
proof (induction rule: socks5_success.induct)
  case (v4 a pt r)
  have "exchanges socks5_reply () [] ([5, 0, r, 1] @ (a @ pt))"
    unfolding socks5_reply_def
    by (rule exchanges_read_then [where ?i1.0 = "[5, 0, r, 1]"], simp, simp,
        rule exchanges_bind [OF exchanges_return exchanges_read_then [where ?i1.0 = "a @ pt"]])
      (simp_all add: v4 exchanges_return)
  then show ?case by simp
next
  case (domain a n pt r)
  have len: "exchanges (io_bind (read_exact 1) (\<lambda>len. io_return (unat (len ! 0)))) (unat n) [] ([n] @ [])"
    by (rule exchanges_read_then [where ?i1.0 = "[n]"]) (simp_all add: exchanges_return)
  have "exchanges socks5_reply () [] ([5, 0, r, 3] @ ([n] @ [] @ a @ pt))"
    unfolding socks5_reply_def
    by (rule exchanges_read_then [where ?i1.0 = "[5, 0, r, 3]"], simp, simp,
        rule exchanges_bind [OF len [unfolded One_nat_def] exchanges_read_then [where ?i1.0 = "a @ pt"]])
      (simp_all add: domain exchanges_return)
  then show ?case by simp
next
  case (v6 a pt r)
  have "exchanges socks5_reply () [] ([5, 0, r, 4] @ (a @ pt))"
    unfolding socks5_reply_def
    by (rule exchanges_read_then [where ?i1.0 = "[5, 0, r, 4]"], simp, simp,
        rule exchanges_bind [OF exchanges_return exchanges_read_then [where ?i1.0 = "a @ pt"]])
      (simp_all add: v6 exchanges_return)
  then show ?case by simp
qed

lemma select_only_if: "only_if (socks5_select p) (\<lambda>_. socks5_auth p)"
proof (cases "username p")
  case None
  then show ?thesis unfolding socks5_select_def
    by (auto intro!: only_if_rules socks5_auth.no_user)
next
  case (Some user)
  then show ?thesis unfolding socks5_select_def Let_def option.case
    by (auto intro!: only_if_rules socks5_auth.not_asked socks5_auth.asked [simplified]
        simp: socks5_userpass_def)
qed

lemma length_Suc_ex: "length xs = Suc n \<longleftrightarrow> (\<exists>y ys. xs = y # ys \<and> length ys = n)"
  by (cases xs) auto

lemma length_split: "length xs = Suc (Suc n) \<Longrightarrow> \<exists>a pt. xs = a @ pt \<and> length a = n \<and> length pt = 2"
  by (intro exI [of _ "take n xs"] exI [of _ "drop n xs"]) simp

lemma reply_only_if: "only_if socks5_reply (\<lambda>_ out inp. out = [] \<and> socks5_success inp)"
  unfolding socks5_reply_def
proof (intro only_if_read_then only_if_cond only_if_bail)
  fix h :: bytes
  assume h: "length h = 4" "\<not> h ! 0 \<noteq> 5" "\<not> h ! 1 \<noteq> 0"
  let ?addr = "if h ! 3 = 1 then io_return 4
      else if h ! 3 = 3 then io_bind (read_exact 1) (\<lambda>len. io_return (unat (len ! 0)))
      else if h ! 3 = 4 then io_return 16 else io_bail ''invalid SOCKS5 address type''"
  let ?Q = "\<lambda>n out inp. out = [] \<and> (\<forall>a pt. length a = n \<and> length pt = 2 \<longrightarrow> socks5_success (h @ inp @ a @ pt))"
  obtain r k where hh: "h = [5, 0, r, k]" using h by (auto simp: numeral_eq_Suc length_Suc_ex)
  have "only_if ?addr ?Q"
  proof (intro only_if_cond only_if_bail only_if_return only_if_read_then)
    fix l :: bytes
    assume "length l = 1" "h ! 3 = 3"
    then show "[] = [] \<and> (\<forall>a pt. length a = unat (l ! 0) \<and> length pt = 2 \<longrightarrow> socks5_success (h @ (l @ []) @ a @ pt))"
      using socks5_success.domain [of _ "l ! 0" _ r] hh by (auto simp: length_Suc_ex)
  qed (use hh socks5_success.v4 [of _ _ r] socks5_success.v6 [of _ _ r] in auto)
  then show "only_if (io_bind ?addr (\<lambda>addr_len. io_bind (read_exact (addr_len + 2)) (\<lambda>_. io_return ())))
      (\<lambda>y out inp. out = [] \<and> socks5_success (h @ inp))"
    by (rule only_if_bind) (auto intro!: only_if_rules dest!: length_split)
qed

lemma socks5_exchanges:
  assumes "socks5_auth p o1 i1" "socks5_success i2" "length (t_host t) \<le> 255"
  shows "exchanges (socks5_connect p t) () (o1 @ socks5_request t) (i1 @ i2)"
  unfolding socks5_connect_def
  by (rule exchanges_bind [OF select_exchanges [OF assms(1)]])
    (use assms reply_exchanges in \<open>auto intro!: exchanges_write_then\<close>)

lemma socks5_only_if:
  "only_if (socks5_connect p t)
     (\<lambda>_ out inp. \<exists>o1 i1 i2. socks5_auth p o1 i1 \<and> socks5_success i2 \<and> length (t_host t) \<le> 255 \<and>
        out = o1 @ socks5_request t \<and> inp = i1 @ i2)"
  unfolding socks5_connect_def
proof (rule only_if_bind [OF select_only_if])
  fix o1 i1 
  assume a: "socks5_auth p o1 i1"
  have r: "only_if socks5_reply (\<lambda>_ out inp. \<exists>o1' i1' i2. socks5_auth p o1' i1' \<and> socks5_success i2 \<and>
      length (t_host t) \<le> 255 \<and> o1 @ socks5_request t @ out = o1' @ socks5_request t \<and> i1 @ inp = i1' @ i2)"
    if "length (t_host t) \<le> 255"
    using reply_only_if a that unfolding only_if_def by fastforce
  show "only_if (if length (t_host t) > 255 then io_bail ''SOCKS5 target host is too long''
      else io_bind (write_all (socks5_request t)) (\<lambda>_. socks5_reply))
     (\<lambda>y o2 i2. \<exists>o1' i1' i2'. socks5_auth p o1' i1' \<and> socks5_success i2' \<and> length (t_host t) \<le> 255 \<and>
        o1 @ o2 = o1' @ socks5_request t \<and> i1 @ i2 = i1' @ i2')"
    by (intro only_if_rules r) simp
qed

definition socks5_sample :: "unit proxy_config" where
  "socks5_sample = \<lparr>kind = Socks5, host = lit ''p'', port = 1080, username = Some (lit ''user''),
     password = Some (lit ''pass''), tls_connector = None\<rparr>"

definition socks5_conn :: conn where
  "socks5_conn = \<lparr>clock = 0, incoming = [(1, Data [5]), (1, Data [2, 1]), (0, Data [0, 5, 0, 0, 1, 127, 0]),
     (2, Data [0, 1, 0x12, 0x34, 42])], sent = [], mode = Accepts\<rparr>"

text \<open>
  C24: With a server that answers as RFC 1928 and 1929 say, in chunks of any sizes, and names of at
  most 255 bytes, the SOCKS5 handshake succeeds; it sends exactly the greeting, the credentials if
  they are asked for, and the request; and it consumes exactly the answers, so the first byte after
  them is the first byte of the tunnel.
\<close>

theorem socks5_connect_complete:
  assumes "mode c = Accepts" "pending c = i1 @ i2 @ rest"
    and "socks5_auth p o1 i1" "socks5_success i2" "length (t_host t) \<le> 255"
  shows "\<exists>c'. socks5_connect p t c = Some (Inr (), c') \<and> pending c' = rest \<and>
           sent c' = sent c @ o1 @ [5, 1, 0, 3, of_nat (length (t_host t))] @ t_host t @
             [ucast (drop_bit 8 (t_port t)), ucast (t_port t)]"
  using exchangesD [OF socks5_exchanges [OF assms(3-5)] assms(1), of rest] assms(2)
  by (auto simp: socks5_request_def to_be_bytes16_def)

theorem socks5_connect_complete_witness:
  "\<exists>c'. socks5_connect socks5_sample \<lparr>t_host = lit ''a.b'', t_port = 443\<rparr> socks5_conn = Some (Inr (), c') \<and>
     pending c' = [42] \<and>
     sent c' = [] @ ([5, 2, 0, 2] @ [1, 4] @ lit ''user'' @ [4] @ lit ''pass'') @ [5, 1, 0, 3, 3] @ lit ''a.b'' @ [1, 187]"
proof -
  have a: "socks5_auth socks5_sample ([5, 2, 0, 2] @ [1, of_nat (length (lit ''user''))] @ lit ''user'' @
      [of_nat (length (lit ''pass''))] @ lit ''pass'') [5, 2, 1, 0]"
    by (rule socks5_auth.asked) (simp_all add: socks5_sample_def lit_def)
  have s: "socks5_success ([5, 0, 0, 1] @ [127, 0, 0, 1] @ [0x12, 0x34])" by (rule socks5_success.v4) simp_all
  have "\<exists>c'. socks5_connect socks5_sample \<lparr>t_host = lit ''a.b'', t_port = 443\<rparr> socks5_conn = Some (Inr (), c') \<and>
      pending c' = [42] \<and> sent c' = sent socks5_conn @ ([5, 2, 0, 2] @ [1, of_nat (length (lit ''user''))] @ lit ''user'' @
      [of_nat (length (lit ''pass''))] @ lit ''pass'') @ [5, 1, 0, 3, of_nat (length (t_host \<lparr>t_host = lit ''a.b'', t_port = 443\<rparr>))] @
      t_host \<lparr>t_host = lit ''a.b'', t_port = 443\<rparr> @
      [ucast (drop_bit 8 (t_port \<lparr>t_host = lit ''a.b'', t_port = 443\<rparr>)), ucast (t_port \<lparr>t_host = lit ''a.b'', t_port = 443\<rparr>)]"
    by (rule socks5_connect_complete [OF _ _ a s]) (simp_all add: socks5_conn_def pending_def lit_def)
  moreover have "(443 :: u8) = 187" by code_simp
  ultimately show ?thesis by (simp add: socks5_conn_def lit_def drop_bit_eq_div)
qed

text \<open>
  The SOCKS5 handshake succeeds only then: on any connection, if it reports success, the server
  has accepted a method the client offered (and the password, if it chose that), and has answered
  the request with success; the host had at most 255 bytes, so that its length byte is its length;
  and exactly these answers were consumed.
\<close>

lemma socks5_connect_sound:
  assumes "socks5_connect p t c = Some (Inr u, c')"
  shows "\<exists>o1 i1 i2. socks5_auth p o1 i1 \<and> socks5_success i2 \<and>
           unat (of_nat (length (t_host t)) :: u8) = length (t_host t) \<and>
           sent c' = sent c @ o1 @ socks5_request t \<and> pending c = i1 @ i2 @ pending c'"
proof -
  from only_ifD [OF socks5_only_if assms] obtain o1 i1 i2 where
    "socks5_auth p o1 i1" "socks5_success i2" "length (t_host t) \<le> 255"
    "sent c' = sent c @ o1 @ socks5_request t" "pending c = (i1 @ i2) @ pending c'" by blast
  moreover have "unat (of_nat (length (t_host t)) :: u8) = length (t_host t)"
    using \<open>length (t_host t) \<le> 255\<close> by (simp add: unat_of_nat)
  ultimately show ?thesis by auto
qed

section \<open>HTTP CONNECT\<close>

definition connect_ok :: "bytes \<Rightarrow> bool" where
  "connect_ok head \<longleftrightarrow> valid_utf8 head \<and>
     (\<exists>status w ws. first_line head = Some status \<and> split_whitespace status = w # lit ''200'' # ws)"

lemma check_status_Inr: "check_status r = Inr l \<longleftrightarrow> connect_ok (header r) \<and> l = leftover r"
proof (cases "from_utf8 (header r)")
  case None
  then show ?thesis by (simp add: check_status_def connect_ok_def from_utf8_def split: if_splits)
next
  case (Some head)
  then have h: "head = header r" "valid_utf8 (header r)" by auto
  show ?thesis
  proof (cases "first_line head")
    case None
    with h show ?thesis by (simp add: check_status_def connect_ok_def from_utf8_def)
  next
    case fl: (Some status)
    have "drop 1 (split_whitespace status) = w # ws \<longleftrightarrow> (\<exists>v. split_whitespace status = v # w # ws)" for w ws
      by (cases "split_whitespace status") auto
    with h fl show ?thesis
      by (cases "drop 1 (split_whitespace status)") (auto simp: check_status_def connect_ok_def from_utf8_def split: if_splits)
  qed
qed

lemma connect_decide_eq:
  "connect_decide b =
     (case header_end b of
        Some e \<Rightarrow> Some (Inr \<lparr>header = take e b, leftover = drop (e + 4) b\<rparr>)
      | None \<Rightarrow> if length b > MAX_HTTP_HEADER then Some (bail ''HTTP proxy CONNECT response too large'') else None)"
  using header_end_length [of b]
  by (auto simp: connect_decide_def slice_from_in_range split: option.splits)

lemma read_connect_response_complete:
  assumes e: "header_end (pending c) = Some e" and fits: "e + 4 \<le> MAX_HTTP_HEADER"
  shows "\<exists>r c'. read_connect_response c = Some (Inr r, c') \<and> header r = take e (pending c) \<and>
           leftover r @ pending c' = drop (e + 4) (pending c) \<and> sent c' = sent c"
proof -
  have undecided: "connect_decide [] = None" by (simp add: connect_decide_def header_end_def)
  have "connect_decide ([] @ pending c) \<noteq> None" using e by (simp add: connect_decide_eq)
  then obtain p q r c' where
    r: "read_connect_response c = Some (r, c')" "(p @ q) @ pending c' = pending c"
      "connect_decide p = None" "connect_decide (p @ q) = Some r" "sent c' = sent c"
    using read_until_total [where n = 512 and decide = connect_decide and buf = "[]" and c = c
        and m = "''HTTP proxy closed before CONNECT response''"] undecided
    unfolding read_connect_response_def by auto
  have pq: "header_end ((p @ q) @ pending c') = Some e" using e r(2) by simp
  have "header_end (p @ q) \<noteq> None"
  proof
    assume none: "header_end (p @ q) = None"
    then have "length (p @ q) < e + 4"
      using header_end_of_prefix [OF pq] by (simp split: if_splits)
    with none r(4) fits show False by (simp add: connect_decide_eq)
  qed
  then have h: "header_end (p @ q) = Some e" using header_end_of_prefix [OF pq] by (auto split: if_splits)
  then have "r = Inr \<lparr>header = take e (p @ q), leftover = drop (e + 4) (p @ q)\<rparr>" using r(4) by (simp add: connect_decide_eq)
  moreover have "e + 4 \<le> length (p @ q)" using header_end_length [OF h] .
  then have "take e (pending c) = take e (p @ q)" "drop (e + 4) (pending c) = drop (e + 4) (p @ q) @ pending c'"
    unfolding r(2) [symmetric] by simp_all
  ultimately show ?thesis using r(1,5) by auto
qed

lemma read_connect_response_sound:
  assumes "read_connect_response c = Some (Inr r, c')"
  shows "\<exists>e. header_end (pending c) = Some e \<and> header r = take e (pending c) \<and>
           leftover r @ pending c' = drop (e + 4) (pending c) \<and> sent c' = sent c"
proof -
  from read_until_result [OF assms [unfolded read_connect_response_def]] obtain p where
    p: "connect_decide p = Some (Inr r)" "p @ pending c' = pending c" "sent c' = sent c" by auto
  then obtain e where e: "header_end p = Some e" "r = \<lparr>header = take e p, leftover = drop (e + 4) p\<rparr>"
    by (auto simp: connect_decide_eq split: option.splits if_splits)
  have "header_end (pending c) = Some e" unfolding p(2) [symmetric] by (rule header_end_append [OF e(1)])
  moreover have "take e (pending c) = take e p" "drop (e + 4) (pending c) = drop (e + 4) p @ pending c'"
    unfolding p(2) [symmetric] using header_end_length [OF e(1)] by simp_all
  ultimately show ?thesis using e(2) p(3) by simp
qed

text \<open>
  C25: With an HTTP proxy whose answer has its end within 64 KiB, in chunks of any sizes, the CONNECT
  handshake sends exactly the request; if the second word of the status line is 200 it succeeds, and
  what it hands over, with what is still to be read, is exactly what follows the answer's head.
\<close>

theorem http_connect_complete:
  assumes "mode c = Accepts" "header_end (pending c) = Some e" "e + 4 \<le> MAX_HTTP_HEADER"
    and "connect_ok (take e (pending c))"
  shows "\<exists>left c'. http_connect b64 p t c = Some (Inr left, c') \<and>
           left @ pending c' = drop (e + 4) (pending c) \<and> sent c' = sent c @ connect_request b64 p t"
proof -
  let ?c = "c\<lparr>sent := sent c @ connect_request b64 p t\<rparr>"
  obtain r c' where r: "read_connect_response ?c = Some (Inr r, c')" "header r = take e (pending c)"
    "leftover r @ pending c' = drop (e + 4) (pending c)" "sent c' = sent ?c"
    using read_connect_response_complete [of ?c e] assms(2,3) by auto
  have "check_status r = Inr (leftover r)" using r(2) assms(4) by (simp add: check_status_Inr)
  with r assms(1) show ?thesis by (auto simp: http_connect_def io_bind_Inr)
qed

definition connect_reply :: bytes where
  "connect_reply = request_head [lit ''HTTP/1.1 200 OK'', lit ''Via: p'']"

definition connect_conn :: conn where
  "connect_conn = \<lparr>clock = 0, incoming = [(1, Data (take 7 connect_reply)), (1, Data (drop 7 connect_reply @ [42])),
     (2, Data [43])], sent = [], mode = Accepts\<rparr>"

definition http_sample :: "unit proxy_config" where
  "http_sample = \<lparr>kind = HttpProxy, host = lit ''p'', port = 8080, username = None, password = None, tls_connector = None\<rparr>"

lemma connect_conn_facts:
  "header_end (pending connect_conn) = Some 23" "connect_ok (take 23 (pending connect_conn))"
  "drop 27 (pending connect_conn) = [42, 43]"
proof -
  have p: "pending connect_conn = connect_reply @ [42, 43]" by (simp add: connect_conn_def pending_def)
  show "header_end (pending connect_conn) = Some 23" "drop 27 (pending connect_conn) = [42, 43]"
    unfolding p by code_simp+
  have "valid_utf8 (take 23 (connect_reply @ [42, 43]))"
    "first_line (take 23 (connect_reply @ [42, 43])) = Some (lit ''HTTP/1.1 200 OK'')"
    "split_whitespace (lit ''HTTP/1.1 200 OK'') = lit ''HTTP/1.1'' # lit ''200'' # [lit ''OK'']" by code_simp+
  then show "connect_ok (take 23 (pending connect_conn))" unfolding p connect_ok_def by blast
qed

theorem http_connect_complete_witness:
  "\<exists>left c'. http_connect id http_sample \<lparr>t_host = lit ''a.b'', t_port = 443\<rparr> connect_conn = Some (Inr left, c') \<and>
     left @ pending c' = [42, 43] \<and>
     sent c' = sent connect_conn @ connect_request id http_sample \<lparr>t_host = lit ''a.b'', t_port = 443\<rparr>"
  using http_connect_complete [of connect_conn 23] connect_conn_facts
  by (simp add: MAX_HTTP_HEADER_def connect_conn_def)

section \<open>The request as the proxy reads it\<close>

definition request_lines :: "(bytes \<Rightarrow> str) \<Rightarrow> 'tls proxy_config \<Rightarrow> target \<Rightarrow> str list" where
  "request_lines b64 p t =
     [lit ''CONNECT '' @ format_target t @ lit '' HTTP/1.1'', lit ''Host: '' @ format_target t,
      lit ''Proxy-Connection: Keep-Alive''] @
     (case basic_auth_header b64 p of Some auth \<Rightarrow> [lit ''Proxy-Authorization: Basic '' @ auth] | None \<Rightarrow> [])"

lemma connect_request_lines: "connect_request b64 p t = request_head (request_lines b64 p t)"
  by (simp add: connect_request_def request_head_def request_lines_def Let_def split: option.splits)

lemma format_target_host: "is_valid_hostname (t_host t) \<Longrightarrow> format_target t = t_host t @ [58] @ show_nat (unat (t_port t))"
  using valid_hostname_no_byte [of "t_host t" 58] by (simp add: format_target_def)

lemma format_target_bytes:
  assumes "is_valid_hostname (t_host t)"
  shows "\<forall>b \<in> set (format_target t). b \<noteq> 13 \<and> b < 0x80" "trim (32 # format_target t) = format_target t"
proof -
  note f = format_target_host [OF assms]
  have d: "b \<noteq> 13 \<and> b < 0x80 \<and> visible b" if "b \<in> set (show_nat n)" for b n
    using show_nat_digits [OF that] by (auto simp: is_ascii_digit_def visible_def word_le_nat_alt word_less_nat_alt)
  show "\<forall>b \<in> set (format_target t). b \<noteq> 13 \<and> b < 0x80"
    using valid_hostname_utf8 [OF assms] valid_hostname_no_byte [OF assms, of 13] d unfolding f by auto
  have "visible (hd (format_target t))"
    using valid_hostname_ends(1) [OF assms] valid_hostname_neq_Nil [OF assms] alphanumeric_visible unfolding f by simp
  moreover have "visible (last (format_target t))"
    using d [of "last (show_nat (unat (t_port t)))" "unat (t_port t)"] unfolding f by simp
  ultimately show "trim (32 # format_target t) = format_target t" by (rule trim_space_visible)
qed

lemma request_lines_clean:
  assumes "is_valid_hostname (t_host t)" "\<forall>x. \<forall>b \<in> set (b64 x). b \<noteq> 13 \<and> b < 0x80" "l \<in> set (request_lines b64 p t)"
  shows "l \<noteq> [] \<and> (\<forall>b \<in> set l. b \<noteq> 13 \<and> b < 0x80)"
proof -
  have auth: "\<forall>b \<in> set auth. b \<noteq> 13 \<and> b < 0x80" if "basic_auth_header b64 p = Some auth" for auth
    using that assms(2) by (auto simp: basic_auth_header_def split: option.splits)
  have t: "\<forall>b \<in> set (lit ''CONNECT ''). b \<noteq> 13 \<and> b < 0x80" "\<forall>b \<in> set (lit '' HTTP/1.1''). b \<noteq> 13 \<and> b < 0x80"
    "\<forall>b \<in> set (lit ''Host: ''). b \<noteq> 13 \<and> b < 0x80" "\<forall>b \<in> set (lit ''Proxy-Connection: Keep-Alive''). b \<noteq> 13 \<and> b < 0x80"
    "\<forall>b \<in> set (lit ''Proxy-Authorization: Basic ''). b \<noteq> 13 \<and> b < 0x80" by (simp_all add: lit_def)
  have n: "lit ''CONNECT '' \<noteq> []" "lit ''Host: '' \<noteq> []" "lit ''Proxy-Connection: Keep-Alive'' \<noteq> []"
    "lit ''Proxy-Authorization: Basic '' \<noteq> []" by (simp_all add: lit_def)
  have "l = lit ''CONNECT '' @ format_target t @ lit '' HTTP/1.1'' \<or> l = lit ''Host: '' @ format_target t \<or>
      l = lit ''Proxy-Connection: Keep-Alive'' \<or>
      (\<exists>auth. basic_auth_header b64 p = Some auth \<and> l = lit ''Proxy-Authorization: Basic '' @ auth)"
    using assms(3) by (auto simp: request_lines_def split: option.splits)
  then show ?thesis using t n format_target_bytes(1) [OF assms(1)] auth by (elim disjE exE conjE) (simp_all add: ball_Un)
qed

text \<open>
  C31: The CONNECT request is one head and nothing more, whatever the credentials, and a proxy that
  reads it the way this program reads requests finds the target asked for: printing the target into
  the request and parsing the request is the identity. Base64 is only used for writing text without
  line breaks.
\<close>

theorem connect_request_roundtrip:
  assumes "is_valid_hostname (t_host t)" "\<forall>x. \<forall>b \<in> set (b64 x). b \<noteq> 13 \<and> b < 0x80"
  shows "parse_http_host (connect_request b64 p t @ body) = Inr t \<and>
         header_end (connect_request b64 p t @ body) = Some (length (connect_request b64 p t) - 4)"
proof -
  note f = format_target_bytes [OF assms(1)]
  note l = request_lines_clean [OF assms]
  have ls: "request_lines b64 p t \<noteq> []" "\<forall>l \<in> set (request_lines b64 p t). l \<noteq> [] \<and> 13 \<notin> set l"
    using l by (simp add: request_lines_def, blast)
  have "parse_http_host (connect_request b64 p t @ body) = find_host (tl (request_lines b64 p t))"
    unfolding connect_request_lines using l by (intro parse_http_host_request ls) blast
  also have "\<dots> = parse_host_port (trim (32 # format_target t)) 80"
    using find_host_first [OF host_line, of "32 # format_target t"] by (simp add: request_lines_def lit_def)
  also have "\<dots> = parse_host_port (format_target t) 80" by (simp only: f(2))
  also have "\<dots> = Inr t"
  proof (rule parse_format_target)
    show "take 1 (t_host t) \<noteq> [91]"
      using valid_hostname_no_byte [OF assms(1), of 91] by (cases "t_host t") auto
    show "58 \<notin> set (t_host t) \<or> 93 \<notin> set (t_host t)"
      using valid_hostname_no_byte [OF assms(1), of 58] by simp
  qed
  finally have "parse_http_host (connect_request b64 p t @ body) = Inr t" .
  moreover have "header_end (connect_request b64 p t @ body) =
      Some (length (concat (map (\<lambda>l. l @ CRLF) (request_lines b64 p t))) - 2)"
    unfolding connect_request_lines by (rule header_end_request [OF ls])
  then have "header_end (connect_request b64 p t @ body) = Some (length (connect_request b64 p t) - 4)"
    unfolding connect_request_lines by (simp add: request_head_def CRLF_def)
  ultimately show ?thesis ..
qed

theorem connect_request_roundtrip_witness:
  "parse_http_host (connect_request (\<lambda>_. lit ''dTpw'') (http_sample\<lparr>username := Some (lit ''u'')\<rparr>)
     \<lparr>t_host = lit ''a.b'', t_port = 443\<rparr> @ [1]) = Inr \<lparr>t_host = lit ''a.b'', t_port = 443\<rparr>"
proof -
  have "is_valid_hostname (lit ''a.b'')" by code_simp
  moreover have "\<forall>b \<in> set (lit ''dTpw''). b \<noteq> 13 \<and> b < 0x80" by (simp add: lit_def)
  ultimately show ?thesis
    using connect_request_roundtrip [of "\<lparr>t_host = lit ''a.b'', t_port = 443\<rparr>" "\<lambda>_. lit ''dTpw''" "http_sample\<lparr>username := Some (lit ''u'')\<rparr>" "[1]"]
    by simp
qed

section \<open>Parsed proxies\<close>

text \<open>
  A proxy that parses has the scheme, host and port of its URL; it has a TLS connector exactly
  if it is an HTTPS proxy, so connecting never finds one missing; an empty user name is none; and
  what is printed for debugging is the same for all user names and passwords.
\<close>

lemma parse_proxy_result:
  assumes "parse_proxy url_parse tls raw = Inr p" "url_parse raw = Inr url"
  shows "Some (host p) = url_host_str url \<and> Some (port p) = url_port_or_known_default url \<and>
     url_scheme url = (case kind p of HttpProxy \<Rightarrow> lit ''http'' | HttpsProxy \<Rightarrow> lit ''https'' | Socks5 \<Rightarrow> lit ''socks5'') \<and>
     (tls_connector p \<noteq> None \<longleftrightarrow> kind p = HttpsProxy) \<and> username p \<noteq> Some [] \<and>
     (\<forall>u w. debug_proxy (p\<lparr>username := map_option (\<lambda>_. u) (username p), password := map_option (\<lambda>_. w) (password p)\<rparr>) =
        debug_proxy p)"
  using assms by (auto simp: parse_proxy_def try_res_eq_Inr debug_proxy_def option.map_comp comp_def split: if_splits)

end
