(* ===== verification/Tunnel.thy ===== *)
theory Tunnel
  imports Proxy_Spec
begin

text \<open>
  The tunnel a successful connection hands over: reading it gives exactly the bytes that follow the
  handshake, first those that came with the proxy's answer; and connecting always comes to an end.
\<close>

section \<open>Sources of bytes\<close>

text \<open>
  What the relay relies on when it polls a stream with \<open>n\<close> bytes of buffer: there is no panic, no
  byte is lost, reordered or doubled, and with room in the buffer an empty read means the end.
\<close>

locale byte_source =
  fixes poll :: "nat \<Rightarrow> 's \<Rightarrow> (read_poll \<times> 's) option" and bytes_of :: "'s \<Rightarrow> bytes"
  assumes no_panic: "poll n s \<noteq> None"
    and data: "poll n s = Some (Ready (Inr bs), s') \<Longrightarrow> bs @ bytes_of s' = bytes_of s \<and> length bs \<le> n"
    and waiting: "poll n s = Some (Pending, s') \<Longrightarrow> bytes_of s' = bytes_of s"
    and at_end: "poll n s = Some (Ready (Inr []), s') \<Longrightarrow> 0 < n \<Longrightarrow> bytes_of s = []"

text \<open>Polls with buffers of the sizes given, until an error: the bytes read, and the stream.\<close>

fun poll_run :: "(nat \<Rightarrow> 's \<Rightarrow> (read_poll \<times> 's) option) \<Rightarrow> nat list \<Rightarrow> 's \<Rightarrow> (bytes \<times> 's) option" where
  "poll_run poll [] s = Some ([], s)"
| "poll_run poll (n # ns) s =
     (case poll n s of
        None \<Rightarrow> None
      | Some (Pending, s') \<Rightarrow> poll_run poll ns s'
      | Some (Ready (Inl e), s') \<Rightarrow> Some ([], s)
      | Some (Ready (Inr bs), s') \<Rightarrow> map_option (\<lambda>(bs', s''). (bs @ bs', s'')) (poll_run poll ns s'))"

context byte_source
begin

lemma run_exact: "\<exists>bs s'. poll_run poll ns s = Some (bs, s') \<and> bs @ bytes_of s' = bytes_of s"
proof (induction ns arbitrary: s)
  case (Cons n ns)
  obtain r s1 where p: "poll n s = Some (r, s1)" using no_panic [of n s] by auto
  show ?case
  proof (cases r)
    case Pending
    with p waiting [of n s s1] Cons [of s1] show ?thesis by auto
  next
    case (Ready x)
    show ?thesis
    proof (cases x)
      case (Inl e)
      with p Ready show ?thesis by auto
    next
      case (Inr bs)
      with p Ready data [of n s bs s1] Cons [of s1] show ?thesis by auto
    qed
  qed
qed simp

end

section \<open>Connections\<close>

lemma read_events_end: "read_events n t es = Some (Inr [], t', es') \<Longrightarrow> 0 < n \<Longrightarrow> pending_of es = []"
  by (induction n t es rule: read_events.induct) (auto split: if_splits)

lemma conn_poll_data:
  "conn_poll_read n c = (Ready (Inr bs), c') \<Longrightarrow> bs @ pending c' = pending c \<and> length bs \<le> n"
  using read_data(1,2) by (auto simp: conn_poll_read_def split: option.splits)

lemma conn_poll_waiting: "conn_poll_read n c = (Pending, c') \<Longrightarrow> c' = c"
  by (auto simp: conn_poll_read_def split: option.splits)

lemma conn_poll_end: "conn_poll_read n c = (Ready (Inr []), c') \<Longrightarrow> 0 < n \<Longrightarrow> pending c = []"
  by (auto simp: conn_poll_read_def read_def pending_def split: option.splits dest: read_events_end)

section \<open>The prefix\<close>

definition prefixed_bytes :: "('s \<Rightarrow> bytes) \<Rightarrow> 's prefixed_stream \<Rightarrow> bytes" where
  "prefixed_bytes bytes_of st = drop (prefix_offset st) (prefix st) @ bytes_of (stream st)"

lemma poll_read_prefix:
  assumes "prefix_offset st < length (prefix st)" "0 < n"
  shows "\<exists>chunk st'. poll_read inner n st = Some (Ready (Inr chunk), st') \<and> chunk \<noteq> [] \<and> length chunk \<le> n \<and>
           stream st' = stream st \<and>
           chunk @ drop (prefix_offset st') (prefix st') = drop (prefix_offset st) (prefix st)"
proof -
  let ?k = "min (length (prefix st) - prefix_offset st) n"
  let ?chunk = "take ?k (drop (prefix_offset st) (prefix st))"
  let ?st = "if prefix_offset st + ?k = length (prefix st) then st\<lparr>prefix := [], prefix_offset := 0\<rparr>
             else st\<lparr>prefix_offset := prefix_offset st + ?k\<rparr>"
  have p: "poll_read inner n st = Some (Ready (Inr ?chunk), ?st)"
    using assms by (simp add: poll_read_def slice_from_in_range slice_in_range Let_def)
  have "?chunk @ drop (prefix_offset st + ?k) (prefix st) = drop (prefix_offset st) (prefix st)"
    by (metis add.commute append_take_drop_id drop_drop)
  moreover have "?chunk \<noteq> []" "length ?chunk \<le> n" using assms by auto
  moreover have "drop (prefix_offset ?st) (prefix ?st) = drop (prefix_offset st + ?k) (prefix st)" by auto
  moreover have "stream ?st = stream st" by simp
  ultimately show ?thesis using p by metis
qed

lemma poll_read_stream:
  "\<not> (prefix_offset st < length (prefix st) \<and> 0 < n) \<Longrightarrow>
     poll_read inner n st = Some (fst (inner n (stream st)), st\<lparr>stream := snd (inner n (stream st))\<rparr>)"
  by (auto simp: poll_read_def split: prod.splits)

lemma poll_read_cases:
  assumes "poll_read inner n st = Some (r, st')"
  obtains (buffered) chunk where "0 < n" "r = Ready (Inr chunk)" "chunk \<noteq> []" "length chunk \<le> n" "stream st' = stream st"
      "chunk @ drop (prefix_offset st') (prefix st') = drop (prefix_offset st) (prefix st)"
  | (inner) "inner n (stream st) = (r, stream st')" "prefix st' = prefix st" "prefix_offset st' = prefix_offset st"
      "0 < n \<Longrightarrow> length (prefix st) \<le> prefix_offset st"
proof (cases "prefix_offset st < length (prefix st) \<and> 0 < n")
  case True
  with poll_read_prefix [of st n inner] assms show thesis by (auto intro: buffered)
next
  case False
  with poll_read_stream [of st n inner] assms show thesis by (intro inner) (auto simp: prod_eq_iff)
qed

text \<open>A stream, which never panics, with a prefix before it is a source of bytes.\<close>

locale stream_source = byte_source "\<lambda>n s. Some (inner n s)" bytes_of
  for inner :: "nat \<Rightarrow> 's \<Rightarrow> read_poll \<times> 's" and bytes_of :: "'s \<Rightarrow> bytes"

sublocale stream_source \<subseteq> prefixed: byte_source "poll_read inner" "prefixed_bytes bytes_of"
proof
  fix n st st' bs
  show "poll_read inner n st \<noteq> None"
    using poll_read_prefix [of st n inner] poll_read_stream [of st n inner] by blast
  show "bs @ prefixed_bytes bytes_of st' = prefixed_bytes bytes_of st \<and> length bs \<le> n"
    if "poll_read inner n st = Some (Ready (Inr bs), st')"
    using that
    by (cases rule: poll_read_cases; use data [of n "stream st" bs "stream st'"] in \<open>cases "n = 0"; auto simp: prefixed_bytes_def\<close>)
  show "prefixed_bytes bytes_of st' = prefixed_bytes bytes_of st" if "poll_read inner n st = Some (Pending, st')"
    using that by (cases rule: poll_read_cases) (use waiting [of n "stream st" "stream st'"] in \<open>auto simp: prefixed_bytes_def\<close>)
  show "prefixed_bytes bytes_of st = []" if "poll_read inner n st = Some (Ready (Inr []), st')" "0 < n"
    using that(1) by (cases rule: poll_read_cases) (use at_end [of n "stream st" "stream st'"] that(2) in \<open>auto simp: prefixed_bytes_def\<close>)
qed

interpretation conns: stream_source conn_poll_read pending
  by unfold_locales (auto dest: conn_poll_data conn_poll_waiting conn_poll_end)

section \<open>The tunnel\<close>

fun tunnel_bytes :: "proxy_stream \<Rightarrow> bytes" where
  "tunnel_bytes (Plain s) = prefixed_bytes pending s"
| "tunnel_bytes (Tls s) = prefixed_bytes pending s"

lemma tunnel_poll_Plain:
  "tunnel_poll_read n (Plain s) = Some (r, t) \<longleftrightarrow> (\<exists>s'. t = Plain s' \<and> poll_read conn_poll_read n s = Some (r, s'))"
  by (auto simp: tunnel_poll_read_def)

lemma tunnel_poll_Tls:
  "tunnel_poll_read n (Tls s) = Some (r, t) \<longleftrightarrow> (\<exists>s'. t = Tls s' \<and> poll_read conn_poll_read n s = Some (r, s'))"
  by (auto simp: tunnel_poll_read_def)

interpretation tunnel: byte_source tunnel_poll_read tunnel_bytes
proof
  fix n t t' bs
  show "tunnel_poll_read n t \<noteq> None"
    using conns.prefixed.no_panic by (cases t) (simp_all add: tunnel_poll_read_def)
  show "tunnel_poll_read n t = Some (Ready (Inr bs), t') \<Longrightarrow> bs @ tunnel_bytes t' = tunnel_bytes t \<and> length bs \<le> n"
    using conns.prefixed.data by (cases t) (auto simp: tunnel_poll_Plain tunnel_poll_Tls)
  show "tunnel_poll_read n t = Some (Pending, t') \<Longrightarrow> tunnel_bytes t' = tunnel_bytes t"
    using conns.prefixed.waiting by (cases t) (auto simp: tunnel_poll_Plain tunnel_poll_Tls)
  show "tunnel_poll_read n t = Some (Ready (Inr []), t') \<Longrightarrow> 0 < n \<Longrightarrow> tunnel_bytes t = []"
    using conns.prefixed.at_end by (cases t) (auto simp: tunnel_poll_Plain tunnel_poll_Tls)
qed

text \<open>
  Reading a tunnel never panics and, with buffers of any sizes, gives its bytes in order, none
  lost and none doubled, those that came with the proxy's answer before those of the stream; and a
  read with room in the buffer is empty only when there is nothing left.
\<close>

lemma tunnel_reads_exact:
  "(\<exists>bs t'. poll_run tunnel_poll_read sizes t = Some (bs, t') \<and> bs @ tunnel_bytes t' = tunnel_bytes t) \<and>
   (\<forall>n t'. 0 < n \<and> tunnel_poll_read n t = Some (Ready (Inr []), t') \<longrightarrow> tunnel_bytes t = [])"
  using tunnel.run_exact tunnel.at_end by blast

lemma http_connect_sound:
  assumes "http_connect b64 p t c = Some (Inr left, c')"
  shows "\<exists>e. header_end (pending c) = Some e \<and> connect_ok (take e (pending c)) \<and>
           left @ pending c' = drop (e + 4) (pending c) \<and> sent c' = sent c @ connect_request b64 p t"
proof -
  from assms obtain c1 r where w: "write_all (connect_request b64 p t) c = Some (Inr (), c1)"
    and r: "read_connect_response c1 = Some (Inr r, c')" and s: "check_status r = Inr left"
    by (auto simp: http_connect_def io_bind_Inr)
  from read_connect_response_sound [OF r] write_all_ok [OF w] write_all_pending [OF w] s show ?thesis
    by (auto simp: check_status_Inr)
qed

declare tunnel_bytes.simps [simp del]

lemma tunnel_bytes_new [simp]:
  "tunnel_bytes (Plain (new_prefixed s p)) = p @ pending s" "tunnel_bytes (Tls (new_prefixed s p)) = p @ pending s"
  by (simp_all add: prefixed_bytes_def new_prefixed_def tunnel_bytes.simps)

text \<open>The end of the proxy's answers in what it sends: the CONNECT head, or the SOCKS5 replies.\<close>

definition after_handshake :: "'tls proxy_config \<Rightarrow> bytes \<Rightarrow> bytes \<Rightarrow> bool" where
  "after_handshake p all rest \<longleftrightarrow>
     (if kind p = Socks5 then \<exists>o1 i1 i2. socks5_auth p o1 i1 \<and> socks5_success i2 \<and> all = i1 @ i2 @ rest
      else \<exists>e. header_end all = Some e \<and> connect_ok (take e all) \<and> rest = drop (e + 4) all)"

lemma connect_grants:
  assumes "fst (connect net b64 p target) = Inr t"
  shows "\<exists>d tcp c. dial_tcp net (host p) (port p) = Some (d, Inr tcp) \<and> d \<le> 10000 \<and>
           (if kind p = HttpsProxy
            then \<exists>tls name d'. tls_connector p = Some tls \<and> server_name net (host p) = Inr name \<and>
                   tls_handshake net tls name tcp = Some (d', Inr c) \<and> d' \<le> 10000
            else c = tcp) \<and>
           after_handshake p (pending c) (tunnel_bytes t)"
proof -
  note inr = then_timed_Inr timeout_dial_Inr timeout_context_Inr UPSTREAM_CONNECT_TIMEOUT_def PROXY_HANDSHAKE_TIMEOUT_def
  have http: "after_handshake p (pending c) (left @ pending c')"
    if "http_connect b64 p target c = Some (Inr left, c')" "kind p \<noteq> Socks5" for left c c'
    using http_connect_sound [OF that(1)] that(2) by (auto simp: after_handshake_def)
  have socks: "after_handshake p (pending c) (pending c')"
    if "socks5_connect p target c = Some (Inr u, c')" "kind p = Socks5" for u c c'
    using only_ifD [OF socks5_only_if that(1)] that(2) by (simp add: after_handshake_def) (metis append_assoc)
  show ?thesis
  proof (cases "kind p")
    case HttpProxy
    with assms obtain d tcp left c' where "dial_tcp net (host p) (port p) = Some (d, Inr tcp)" "d \<le> 10000"
      "http_connect b64 p target tcp = Some (Inr left, c')" "t = Plain (new_prefixed c' left)"
      by (auto simp: connect_def inr)
    with http [of tcp left c'] HttpProxy show ?thesis by auto
  next
    case HttpsProxy
    with assms obtain d tcp tls name d' c left c' where "dial_tcp net (host p) (port p) = Some (d, Inr tcp)" "d \<le> 10000"
      "tls_connector p = Some tls" "server_name net (host p) = Inr name"
      "tls_handshake net tls name tcp = Some (d', Inr c)" "d' \<le> 10000"
      "http_connect b64 p target c = Some (Inr left, c')" "t = Tls (new_prefixed c' left)"
      by (auto simp: connect_def inr)
    with http [of c left c'] HttpsProxy show ?thesis by auto
  next
    case Socks5
    with assms obtain d tcp u c' where "dial_tcp net (host p) (port p) = Some (d, Inr tcp)" "d \<le> 10000"
      "socks5_connect p target tcp = Some (Inr u, c')" "t = Plain (new_prefixed c' [])"
      by (auto simp: connect_def inr)
    with socks [of tcp u c'] Socks5 show ?thesis by auto
  qed
qed

text \<open>
  C8: A tunnel is handed over only after the proxy has accepted the connection: the TCP connection
  (and for an HTTPS proxy the TLS session for the proxy's name on it) was made in time, what the
  proxy has sent begins with the answers that grant the request, and the tunnel's bytes are exactly
  what follows them.
\<close>

theorem connect_sound:
  assumes "fst (connect net b64 p target) = Inr t"
  shows "\<exists>d tcp c. dial_tcp net (host p) (port p) = Some (d, Inr tcp) \<and> d \<le> 10000 \<and>
           (if kind p = HttpsProxy
            then \<exists>tls name d'. tls_connector p = Some tls \<and> server_name net (host p) = Inr name \<and>
                   tls_handshake net tls name tcp = Some (d', Inr c) \<and> d' \<le> 10000
            else c = tcp) \<and>
           after_handshake p (pending c) (tunnel_bytes t)"
  by (rule connect_grants [OF assms])

definition sample_net :: "(unit, unit) network" where
  "sample_net = \<lparr>dial_tcp = (\<lambda>h p. Some (5, Inr socks5_conn)), server_name = (\<lambda>_. Inr ()),
     tls_handshake = (\<lambda>_ _ c. Some (3, Inr c))\<rparr>"

theorem connect_sound_witness:
  "\<exists>t d tcp c. fst (connect sample_net id socks5_sample \<lparr>t_host = lit ''a.b'', t_port = 443\<rparr>) = Inr t \<and>
     dial_tcp sample_net (lit ''p'') 1080 = Some (d, Inr tcp) \<and> d \<le> 10000 \<and> c = tcp \<and>
     after_handshake socks5_sample (pending c) (tunnel_bytes t)"
proof -
  let ?s = "socks5_connect socks5_sample \<lparr>t_host = lit ''a.b'', t_port = 443\<rparr> socks5_conn"
  let ?r = "fst (connect sample_net id socks5_sample \<lparr>t_host = lit ''a.b'', t_port = 443\<rparr>)"
  have "map_option (\<lambda>(r, c). (r, clock c)) ?s = Some (Inr (), 4)" by code_simp
  then obtain c where "?s = Some (Inr (), c)" "clock c = 4" by auto
  moreover have "kind socks5_sample = Socks5" "clock socks5_conn = 0" by (simp_all add: socks5_sample_def socks5_conn_def)
  ultimately have "?r = Inr (Plain (new_prefixed c []))"
    by (simp add: connect_def then_timed_def timeout_dial_def timeout_context_def timeout_def sample_net_def
        UPSTREAM_CONNECT_TIMEOUT_def PROXY_HANDSHAKE_TIMEOUT_def)
  from connect_sound [OF this] this show ?thesis by (auto simp: socks5_sample_def)
qed

text \<open>
  Connecting to a proxy always comes to an end, with a tunnel or an error, whatever the network
  and the proxy do: after at most 20 seconds, or 30 with an HTTPS proxy.
\<close>

lemma connect_time:
  "snd (connect net b64 p target) \<le> (if kind p = HttpsProxy then 30000 else 20000)"
proof -
  note b = timeout_dial_bounded timeout_context_bounded
  show ?thesis
  proof (cases "kind p")
    case HttpsProxy
    have "snd (connect net b64 p target) \<le> 10000 + (0 + (0 + (10000 + (10000 + 0))))"
      unfolding connect_def HttpsProxy proxy_kind.case UPSTREAM_CONNECT_TIMEOUT_def PROXY_HANDSHAKE_TIMEOUT_def
      by (intro then_timed_bounded b) (auto split: prod.splits)
    with HttpsProxy show ?thesis by simp
  next
    case HttpProxy
    have "snd (connect net b64 p target) \<le> 10000 + (10000 + 0)"
      unfolding connect_def HttpProxy proxy_kind.case UPSTREAM_CONNECT_TIMEOUT_def PROXY_HANDSHAKE_TIMEOUT_def
      by (intro then_timed_bounded b) (auto split: prod.splits)
    with HttpProxy show ?thesis by simp
  next
    case Socks5
    have "snd (connect net b64 p target) \<le> 10000 + (10000 + 0)"
      unfolding connect_def Socks5 proxy_kind.case UPSTREAM_CONNECT_TIMEOUT_def PROXY_HANDSHAKE_TIMEOUT_def
      by (intro then_timed_bounded b) (auto split: prod.splits)
    with Socks5 show ?thesis by simp
  qed
qed

end
