(* ===== verification/Config.thy ===== *)
theory Config
  imports Ip_Addr Fs
begin

text \<open>
  \<open>src/config.rs\<close>: where the configuration comes from, how it is fetched within a size limit, what
  the program itself checks when it is deserialised, and the settings of the command line and the
  file merged. \<open>serde_yaml\<close> (with the code serde derives for the standard types), the \<open>url\<close> crate
  and the HTTP client are parameters. A \<open>HashMap\<close> is the list of its entries, with distinct keys,
  in the order the map iterates.
\<close>

datatype 'url config_source = File path | Url 'url

record cli_overrides =
  cli_listen :: "ip_addr option"
  cli_hosts :: "path option"
  no_hosts :: bool
  no_http :: bool
  cli_refresh :: "u64 option"

record static_settings =
  listen :: ip_addr
  http :: bool
  hosts_path :: "path option"
  refresh :: u64

datatype hosts_setting = Disabled | HostsPath path

datatype proxy_ref = ProxyRef "str list"

record file_config =
  yaml_listen :: "ip_addr option"
  yaml_hosts :: "hosts_setting option"
  yaml_refresh :: "u64 option"
  yaml_http :: "bool option"
  proxies :: "(str \<times> str) list"
  rules :: "(str \<times> proxy_ref) list"

definition DEFAULT_LISTEN :: ip_addr where
  "DEFAULT_LISTEN = V4 127 0 0 2"

definition DEFAULT_REFRESH_SECS :: u64 where
  "DEFAULT_REFRESH_SECS = 30"

definition MAX_CONFIG_BYTES :: nat where
  "MAX_CONFIG_BYTES = 1024 * 1024"

definition parse_source :: "(str \<Rightarrow> 'url result) \<Rightarrow> str \<Rightarrow> 'url config_source result" where
  "parse_source url_parse raw =
     (if strip_prefix (lit ''http://'') raw \<noteq> None \<or> strip_prefix (lit ''https://'') raw \<noteq> None
      then try_res (with_context ''parse config URL'' (url_parse raw)) (\<lambda>u. Inr (Url u))
      else Inr (File (path_from raw)))"

section \<open>Deserialising\<close>

text \<open>
  What a visitor of the program is called with: a scalar, or a sequence, whose elements the visitor
  asks for one after the other as strings (each a string or an error of the deserialiser). \<open>InOther\<close>
  is any other YAML value: the visitors of serde answer it with an error.
\<close>

datatype de_input = InBool bool | InStr str | InSeq "str result list" | InOther

definition visit_bool :: "bool \<Rightarrow> hosts_setting result" where
  "visit_bool v = (if v then bail ''hosts: true is invalid; use a path or false'' else Inr Disabled)"

definition visit_hosts_str :: "str \<Rightarrow> hosts_setting result" where
  "visit_hosts_str v = (if v = [] then bail ''hosts path must not be empty'' else Inr (HostsPath (path_from v)))"

fun deserialize_hosts :: "de_input \<Rightarrow> hosts_setting result" where
  "deserialize_hosts (InBool b) = visit_bool b"
| "deserialize_hosts (InStr s) = visit_hosts_str s"
| "deserialize_hosts _ = bail ''invalid type, expected a hosts file path or false''"

definition visit_proxy_str :: "str \<Rightarrow> proxy_ref result" where
  "visit_proxy_str v = (if v = [] then bail ''proxy name must not be empty'' else Inr (ProxyRef [v]))"

fun visit_seq :: "str list \<Rightarrow> str result list \<Rightarrow> proxy_ref result" where
  "visit_seq names [] = (if names = [] then bail ''proxy list must not be empty'' else Inr (ProxyRef names))"
| "visit_seq names (Inl e # sq) = Inl e"
| "visit_seq names (Inr name # sq) =
     (if name = [] then bail ''proxy name must not be empty'' else visit_seq (names @ [name]) sq)"

fun deserialize_proxy_ref :: "de_input \<Rightarrow> proxy_ref result" where
  "deserialize_proxy_ref (InStr s) = visit_proxy_str s"
| "deserialize_proxy_ref (InSeq sq) = visit_seq [] sq"
| "deserialize_proxy_ref _ = bail ''invalid type, expected a proxy name or a list of proxy names''"

text \<open>
  A document as the deserialiser of YAML hands it to the derived code of \<open>FileConfig\<close>: the fields of
  standard types read, the others still to be visited.
\<close>

record yaml_doc =
  doc_listen :: "ip_addr option"
  doc_hosts :: "de_input option"
  doc_refresh :: "u64 option"
  doc_http :: "bool option"
  doc_proxies :: "(str \<times> str) list"
  doc_rules :: "(str \<times> de_input) list"

text \<open>Inserting into a \<open>HashMap\<close>: the last value of a key stays.\<close>

fun hm_insert :: "'k \<Rightarrow> 'v \<Rightarrow> ('k \<times> 'v) list \<Rightarrow> ('k \<times> 'v) list" where
  "hm_insert k v [] = [(k, v)]"
| "hm_insert k v (e # m) = (if fst e = k then (k, v) # m else e # hm_insert k v m)"

fun collect_proxies :: "(str \<times> str) list \<Rightarrow> (str \<times> str) list \<Rightarrow> (str \<times> str) list" where
  "collect_proxies m [] = m"
| "collect_proxies m ((k, v) # es) = collect_proxies (hm_insert k v m) es"

fun collect_rules :: "(str \<times> proxy_ref) list \<Rightarrow> (str \<times> de_input) list \<Rightarrow> (str \<times> proxy_ref) list result" where
  "collect_rules m [] = Inr m"
| "collect_rules m ((k, i) # es) =
     try_res (deserialize_proxy_ref i) (\<lambda>r. collect_rules (hm_insert k r m) es)"

definition from_doc :: "yaml_doc \<Rightarrow> file_config result" where
  "from_doc d =
     try_res (case doc_hosts d of None \<Rightarrow> Inr None | Some i \<Rightarrow> try_res (deserialize_hosts i) (\<lambda>h. Inr (Some h))) (\<lambda>h.
     try_res (collect_rules [] (doc_rules d)) (\<lambda>rs.
     Inr \<lparr>yaml_listen = doc_listen d, yaml_hosts = h, yaml_refresh = doc_refresh d, yaml_http = doc_http d,
          proxies = collect_proxies [] (doc_proxies d), rules = rs\<rparr>))"

definition parse_yaml :: "(str \<Rightarrow> yaml_doc result) \<Rightarrow> str \<Rightarrow> file_config result" where
  "parse_yaml serde_yaml t =
     try_res (with_context ''parse YAML config'' (try_res (serde_yaml t) from_doc)) (\<lambda>cfg.
       if proxies cfg = [] then bail ''proxies must not be empty''
       else if list_ex (\<lambda>(name, _). name = []) (proxies cfg) then bail ''proxy name must not be empty''
       else if \<not> list_ex (\<lambda>(key, _). eq_ignore_ascii_case key (lit ''default'')) (rules cfg)
       then bail ''rules.default is required''
       else Inr cfg)"

section \<open>Fetching\<close>

text \<open>\<open>usize::saturating_add\<close>.\<close>

definition saturating_add :: "nat \<Rightarrow> nat \<Rightarrow> nat" where
  "saturating_add a b = min (a + b) (2 ^ 64 - 1)"

text \<open>A response of the HTTP client; its body arrives in chunks, each of which may fail.\<close>

record response =
  is_success :: bool
  content_length :: "u64 option"
  chunks :: "bytes result list"

fun read_chunks :: "nat \<Rightarrow> bytes \<Rightarrow> bytes result list \<Rightarrow> bytes result" where
  "read_chunks mx buf [] = Inr buf"
| "read_chunks mx buf (Inl e # cs) = with_context ''read config URL body'' (Inl e)"
| "read_chunks mx buf (Inr chunk # cs) =
     (if saturating_add (length buf) (length chunk) > mx then bail ''config URL exceeds the byte limit''
      else read_chunks mx (buf @ chunk) cs)"

definition fetch_url_limited :: "('url \<Rightarrow> response result) \<Rightarrow> 'url \<Rightarrow> nat \<Rightarrow> str result" where
  "fetch_url_limited http_get url mx =
     try_res (with_context ''fetch config URL'' (http_get url)) (\<lambda>resp.
       if \<not> is_success resp then bail ''fetch config URL returned an error status''
       else if (case content_length resp of None \<Rightarrow> False | Some len \<Rightarrow> unat len > mx)
       then bail ''config URL is larger than the byte limit''
       else try_res (read_chunks mx [] (chunks resp)) (\<lambda>buf.
         with_context ''config URL body is not valid UTF-8'' (ok_or ''invalid utf-8 sequence'' (from_utf8 buf))))"

definition read_file_limited :: "path \<Rightarrow> nat \<Rightarrow> fs \<Rightarrow> str result \<times> fs" where
  "read_file_limited p mx s =
     (case fs_open p s of
        (Inl e, s1) \<Rightarrow> (with_context ''read config'' (Inl e), s1)
      | (Inr opened, s1) \<Rightarrow>
          (case fs_read_take (mx + 1) opened s1 of
             (Inl e, s2) \<Rightarrow> (with_context ''read config'' (Inl e), s2)
           | (Inr buf, s2) \<Rightarrow>
               if length buf > mx then (bail ''config exceeds the byte limit'', s2)
               else (with_context ''config is not valid UTF-8'' (ok_or ''invalid utf-8 sequence'' (from_utf8 buf)), s2)))"

definition fetch_config_limited ::
  "('url \<Rightarrow> response result) \<Rightarrow> 'url config_source \<Rightarrow> nat \<Rightarrow> fs \<Rightarrow> str result \<times> fs" where
  "fetch_config_limited http_get source mx s =
     (case source of
        File p \<Rightarrow> read_file_limited p mx s
      | Url url \<Rightarrow> (fetch_url_limited http_get url mx, s))"

definition fetch_config :: "('url \<Rightarrow> response result) \<Rightarrow> 'url config_source \<Rightarrow> fs \<Rightarrow> str result \<times> fs" where
  "fetch_config http_get source = fetch_config_limited http_get source MAX_CONFIG_BYTES"

section \<open>Settings\<close>

definition default_hosts_path :: path where
  "default_hosts_path = path_from (lit ''/etc/hosts'')"

definition merge_settings :: "file_config \<Rightarrow> cli_overrides \<Rightarrow> static_settings result" where
  "merge_settings yaml cli =
     (let lst = (case cli_listen cli of Some x \<Rightarrow> x | None \<Rightarrow>
                   (case yaml_listen yaml of Some x \<Rightarrow> x | None \<Rightarrow> DEFAULT_LISTEN))
      in if \<not> is_loopback lst then bail ''listen must be a loopback address''
         else
           (let htp = (if no_http cli then False else (case yaml_http yaml of Some b \<Rightarrow> b | None \<Rightarrow> True));
                hp = (if no_hosts cli then None
                      else (case cli_hosts cli of
                              Some p \<Rightarrow> Some p
                            | None \<Rightarrow>
                                (case yaml_hosts yaml of
                                   Some Disabled \<Rightarrow> None
                                 | Some (HostsPath p) \<Rightarrow> Some p
                                 | None \<Rightarrow> Some default_hosts_path)));
                secs = (case cli_refresh cli of Some x \<Rightarrow> x | None \<Rightarrow>
                          (case yaml_refresh yaml of Some x \<Rightarrow> x | None \<Rightarrow> DEFAULT_REFRESH_SECS))
            in if secs = 0 then bail ''refresh must be greater than 0 seconds''
               else Inr \<lparr>listen = lst, http = htp, hosts_path = hp, refresh = secs\<rparr>))"

text \<open>The warnings of a reload whose static settings differ.\<close>

definition warn_ignored_runtime_changes :: "file_config \<Rightarrow> file_config \<Rightarrow> str list" where
  "warn_ignored_runtime_changes prev nxt =
     (if yaml_listen prev \<noteq> yaml_listen nxt then [lit ''ignoring listen change in reloaded config; restart to apply''] else []) @
     (if yaml_http prev \<noteq> yaml_http nxt then [lit ''ignoring http change in reloaded config; restart to apply''] else []) @
     (if yaml_hosts prev \<noteq> yaml_hosts nxt then [lit ''ignoring hosts change in reloaded config; restart to apply''] else []) @
     (if yaml_refresh prev \<noteq> yaml_refresh nxt then [lit ''ignoring refresh change in reloaded config; restart to apply''] else [])"

text \<open>\<open>canonicalize\<close> is the call of the operating system.\<close>

definition canonicalize_source :: "(path \<Rightarrow> path result) \<Rightarrow> 'url config_source \<Rightarrow> 'url config_source result" where
  "canonicalize_source canonicalize source =
     (case source of
        File p \<Rightarrow> try_res (with_context ''canonicalize config'' (canonicalize p)) (\<lambda>q. Inr (File q))
      | Url u \<Rightarrow> Inr (Url u))"

definition config_filename :: "path \<Rightarrow> str option" where
  "config_filename p = file_name p"

section \<open>A parsed configuration\<close>

lemma map_of_hm_insert: "map_of (hm_insert k v m) = (map_of m)(k \<mapsto> v)"
  by (induction k v m rule: hm_insert.induct) auto

lemma set_hm_insert: "set (hm_insert k v m) \<subseteq> insert (k, v) (set m)"
  by (induction k v m rule: hm_insert.induct) auto

lemma keys_hm_insert: "fst ` set (hm_insert k v m) = insert k (fst ` set m)"
  by (induction k v m rule: hm_insert.induct) auto

lemma distinct_hm_insert: "distinct (map fst m) \<Longrightarrow> distinct (map fst (hm_insert k v m))"
  by (induction k v m rule: hm_insert.induct) (auto simp: keys_hm_insert)

lemma collect_proxies_map: "map_of (collect_proxies m es) = map_of m ++ map_of (rev es)"
  by (induction m es rule: collect_proxies.induct) (auto simp: map_of_hm_insert fun_eq_iff map_add_def split: option.splits)

lemma collect_proxies_distinct: "distinct (map fst m) \<Longrightarrow> distinct (map fst (collect_proxies m es))"
  by (induction m es rule: collect_proxies.induct) (auto simp: distinct_hm_insert)

lemma collect_rules_distinct: "collect_rules m es = Inr m' \<Longrightarrow> distinct (map fst m) \<Longrightarrow> distinct (map fst m')"
  by (induction m es rule: collect_rules.induct) (auto simp: try_res_eq_Inr distinct_hm_insert)

lemma visit_seq_iff:
  "visit_seq acc sq = Inr (ProxyRef names) \<longleftrightarrow>
     (\<exists>ns. sq = map Inr ns \<and> [] \<notin> set ns \<and> names = acc @ ns \<and> names \<noteq> [])"
proof (induction acc sq rule: visit_seq.induct)
  case (1 acc)
  then show ?case by auto
next
  case (2 acc e sq)
  then show ?case by auto
next
  case (3 acc name sq)
  show ?case
  proof (cases "name = []")
    case True
    then show ?thesis by (auto simp: map_eq_Cons_conv)
  next
    case False
    then have "visit_seq acc (Inr name # sq) = visit_seq (acc @ [name]) sq" by simp
    with 3 [OF False] False show ?thesis by (auto simp: Cons_eq_map_conv)
  qed
qed

definition wf_ref :: "proxy_ref \<Rightarrow> bool" where
  "wf_ref r = (case r of ProxyRef names \<Rightarrow> names \<noteq> [] \<and> [] \<notin> set names)"

lemma deserialize_proxy_ref_wf: "deserialize_proxy_ref i = Inr r \<Longrightarrow> wf_ref r"
  by (cases r; cases i) (auto simp: visit_proxy_str_def visit_seq_iff wf_ref_def split: if_splits)

lemma collect_rules_wf:
  "collect_rules m es = Inr m' \<Longrightarrow> \<forall>(k, r) \<in> set m. wf_ref r \<Longrightarrow> \<forall>(k, r) \<in> set m'. wf_ref r"
proof (induction m es rule: collect_rules.induct)
  case (2 m k i es)
  then obtain r where r: "deserialize_proxy_ref i = Inr r" "collect_rules (hm_insert k r m) es = Inr m'"
    by (auto simp: try_res_eq_Inr)
  have "\<forall>(k', r') \<in> set (hm_insert k r m). wf_ref r'"
    using set_hm_insert [of k r m] "2.prems"(2) deserialize_proxy_ref_wf [OF r(1)] by auto
  with "2.IH" [OF r(2)] show ?case by simp
qed simp

lemma collect_rules_map:
  "collect_rules m es = Inr m' \<Longrightarrow>
     map_of m' k = (case map_of (rev es) k of
                      None \<Rightarrow> map_of m k
                    | Some i \<Rightarrow> (case deserialize_proxy_ref i of Inl _ \<Rightarrow> None | Inr r \<Rightarrow> Some r))"
proof (induction m es rule: collect_rules.induct)
  case (2 m k' i es)
  then obtain r where r: "deserialize_proxy_ref i = Inr r" "collect_rules (hm_insert k' r m) es = Inr m'"
    by (auto simp: try_res_eq_Inr)
  from "2.IH" [OF r(2)] r(1) show ?case
    by (auto simp: map_of_hm_insert map_add_def split: option.splits)
qed simp

text \<open>What the rest of the program relies on in a parsed configuration.\<close>

definition wf_config :: "file_config \<Rightarrow> bool" where
  "wf_config cfg \<longleftrightarrow>
     proxies cfg \<noteq> [] \<and> distinct (map fst (proxies cfg)) \<and> [] \<notin> fst ` set (proxies cfg) \<and>
     distinct (map fst (rules cfg)) \<and> (\<forall>(k, r) \<in> set (rules cfg). wf_ref r) \<and>
     (\<exists>k \<in> fst ` set (rules cfg). eq_ignore_ascii_case k (lit ''default''))"

lemma from_doc_Inr:
  assumes "from_doc d = Inr cfg"
  shows "proxies cfg = collect_proxies [] (doc_proxies d)" "collect_rules [] (doc_rules d) = Inr (rules cfg)"
    "yaml_listen cfg = doc_listen d" "yaml_refresh cfg = doc_refresh d" "yaml_http cfg = doc_http d"
    "map_option deserialize_hosts (doc_hosts d) = map_option Inr (yaml_hosts cfg)"
  using assms by (auto simp: from_doc_def try_res_eq_Inr split: option.splits)

lemma parse_yaml_config:
  assumes "parse_yaml serde_yaml t = Inr cfg"
  shows "wf_config cfg \<and> (\<exists>d. serde_yaml t = Inr d \<and> map_of (proxies cfg) = map_of (rev (doc_proxies d)) \<and>
     (\<forall>k. map_option Inr (map_of (rules cfg) k) = map_option deserialize_proxy_ref (map_of (rev (doc_rules d)) k)))"
proof -
  from assms obtain d where d: "serde_yaml t = Inr d" "from_doc d = Inr cfg"
    and c: "proxies cfg \<noteq> []" "\<not> list_ex (\<lambda>(name, _). name = []) (proxies cfg)"
      "list_ex (\<lambda>(key, _). eq_ignore_ascii_case key (lit ''default'')) (rules cfg)"
    by (auto simp: parse_yaml_def try_res_eq_Inr split: if_splits)
  note f = from_doc_Inr [OF d(2)]
  have "wf_config cfg"
    using c f(1) collect_proxies_distinct [of "[]" "doc_proxies d"] collect_rules_distinct [OF f(2)] collect_rules_wf [OF f(2)]
    by (force simp: wf_config_def list_ex_iff)
  moreover have "map_option Inr (map_of (rules cfg) k) = map_option deserialize_proxy_ref (map_of (rev (doc_rules d)) k)" for k
  proof (cases "map_of (rev (doc_rules d)) k")
    case None
    with collect_rules_map [OF f(2), of k] show ?thesis by simp
  next
    case (Some i)
    have "(k', i') \<in> set es \<Longrightarrow> collect_rules m es = Inr m' \<Longrightarrow> \<exists>r. deserialize_proxy_ref i' = Inr r" for k' i' m es m'
      by (induction m es rule: collect_rules.induct) (auto simp: try_res_eq_Inr)
    then obtain r where "deserialize_proxy_ref i = Inr r" using map_of_SomeD [OF Some] f(2) by fastforce
    with collect_rules_map [OF f(2), of k] Some show ?thesis by simp
  qed
  ultimately show ?thesis using d(1) collect_proxies_map [of "[]" "doc_proxies d"] f(1) by auto
qed

text \<open>
  C37: A configuration that parses is well-formed: there is a proxy, no proxy has an empty name, no
  key occurs twice, every rule names at least one proxy and no empty one, and there is a default
  rule; and it is what the document says: every entry is the last one of its key.
\<close>

theorem parse_yaml_wf:
  assumes "parse_yaml serde_yaml t = Inr cfg"
  shows "wf_config cfg \<and> (\<exists>d. serde_yaml t = Inr d \<and> map_of (proxies cfg) = map_of (rev (doc_proxies d)) \<and>
     (\<forall>k. map_option Inr (map_of (rules cfg) k) = map_option deserialize_proxy_ref (map_of (rev (doc_rules d)) k)))"
  by (rule parse_yaml_config [OF assms])

definition sample_doc :: yaml_doc where
  "sample_doc = \<lparr>doc_listen = None, doc_hosts = Some (InBool False), doc_refresh = None, doc_http = None,
     doc_proxies = [(lit ''jp'', lit ''http://127.0.0.1:8080''), (lit ''us'', lit ''http://127.0.0.1:8081'')],
     doc_rules = [(lit ''example.com'', InStr (lit ''us'')),
                  (lit ''www.example.com'', InSeq [Inr (lit ''us''), Inr (lit ''jp'')]),
                  (lit ''Default'', InStr (lit ''jp''))]\<rparr>"

definition sample_config :: file_config where
  "sample_config = \<lparr>yaml_listen = None, yaml_hosts = Some Disabled, yaml_refresh = None, yaml_http = None,
     proxies = [(lit ''jp'', lit ''http://127.0.0.1:8080''), (lit ''us'', lit ''http://127.0.0.1:8081'')],
     rules = [(lit ''example.com'', ProxyRef [lit ''us'']),
              (lit ''www.example.com'', ProxyRef [lit ''us'', lit ''jp'']), (lit ''Default'', ProxyRef [lit ''jp''])]\<rparr>"

lemma sample_parses: "parse_yaml (\<lambda>_. Inr sample_doc) [] = Inr sample_config"
  by code_simp

theorem parse_yaml_wf_witness:
  "wf_config sample_config \<and> (\<exists>d. (\<lambda>_. Inr sample_doc :: yaml_doc result) ([] :: str) = Inr d \<and>
     map_of (proxies sample_config) = map_of (rev (doc_proxies d)) \<and>
     (\<forall>k. map_option Inr (map_of (rules sample_config) k) = map_option deserialize_proxy_ref (map_of (rev (doc_rules d)) k)))"
  by (rule parse_yaml_wf [OF sample_parses])

section \<open>Merged settings\<close>

text \<open>The first value that is set: command line, then file, then the built-in default.\<close>

fun first_set :: "'a option list \<Rightarrow> 'a \<Rightarrow> 'a" where
  "first_set [] d = d"
| "first_set (None # os) d = first_set os d"
| "first_set (Some x # os) d = x"

text \<open>
  C38: The settings are the command line's, else the file's, else the defaults; an option to disable
  beats a value. There are settings exactly if the address to listen on is a loopback address and
  the refresh interval is positive, so the program never listens on another interface.
\<close>

theorem merge_settings_iff:
  "merge_settings yaml cli = Inr st \<longleftrightarrow>
     listen st = first_set [cli_listen cli, yaml_listen yaml] DEFAULT_LISTEN \<and> is_loopback (listen st) \<and>
     refresh st = first_set [cli_refresh cli, yaml_refresh yaml] DEFAULT_REFRESH_SECS \<and> 0 < refresh st \<and>
     http st = (\<not> no_http cli \<and> first_set [yaml_http yaml] True) \<and>
     hosts_path st =
       (if no_hosts cli then None
        else first_set [map_option Some (cli_hosts cli),
               map_option (\<lambda>h. case h of Disabled \<Rightarrow> None | HostsPath p \<Rightarrow> Some p) (yaml_hosts yaml)]
             (Some [RootDir, Normal (lit ''etc''), Normal (lit ''hosts'')]))"
proof -
  have p: "default_hosts_path = [RootDir, Normal (lit ''etc''), Normal (lit ''hosts'')]" by code_simp
  have z: "0 < w \<longleftrightarrow> w \<noteq> 0" for w :: u64 by (simp add: word_gt_0)
  have e: "first_set [a, b] d = (case a of Some x \<Rightarrow> x | None \<Rightarrow> case b of Some x \<Rightarrow> x | None \<Rightarrow> d)" for a b and d :: 'x
    by (simp split: option.splits)
  have h: "(case cli_hosts cli of Some p \<Rightarrow> Some p | None \<Rightarrow>
              (case yaml_hosts yaml of Some Disabled \<Rightarrow> None | Some (HostsPath p) \<Rightarrow> Some p | None \<Rightarrow> Some default_hosts_path)) =
      first_set [map_option Some (cli_hosts cli),
          map_option (\<lambda>h. case h of Disabled \<Rightarrow> None | HostsPath p \<Rightarrow> Some p) (yaml_hosts yaml)] (Some default_hosts_path)"
    by (auto split: option.splits hosts_setting.splits)
  have b: "(if n then False else (case x of Some b \<Rightarrow> b | None \<Rightarrow> True)) = (\<not> n \<and> first_set [x] True)" for n x
    by (simp split: option.splits)
  have s: "\<lparr>listen = a, http = b, hosts_path = c, refresh = d\<rparr> = st \<longleftrightarrow>
      listen st = a \<and> http st = b \<and> hosts_path st = c \<and> refresh st = d" for a b c d
    by (cases st) auto
  show ?thesis
    unfolding merge_settings_def Let_def h unfolding e [symmetric] b p z
    by (auto simp: s simp del: first_set.simps)
qed

section \<open>What is fetched\<close>

lemma read_chunks_iff:
  "mx < 2 ^ 64 - 1 \<Longrightarrow> length buf \<le> mx \<Longrightarrow> read_chunks mx buf cs = Inr t \<longleftrightarrow>
           (\<exists>ds. cs = map Inr ds \<and> t = buf @ concat ds \<and> length t \<le> mx)"
proof (induction mx buf cs rule: read_chunks.induct)
  case (2 mx buf e cs)
  then show ?case by auto
next
  case (3 mx buf chunk cs)
  show ?case
  proof (cases "length buf + length chunk \<le> mx")
    case True
    then have "read_chunks mx buf (Inr chunk # cs) = read_chunks mx (buf @ chunk) cs"
      by (simp add: saturating_add_def)
    with 3 True show ?thesis by (auto simp: saturating_add_def Cons_eq_map_conv)
  next
    case False
    with "3.prems" have "saturating_add (length buf) (length chunk) > mx" by (simp add: saturating_add_def)
    with False show ?thesis by (auto simp: Cons_eq_map_conv)
  qed
qed auto

text \<open>
  C39: A configuration is fetched from a URL exactly if the request succeeds, the announced length
  and the length received are within one MiB, no chunk fails and the bytes are UTF-8; the text is
  then the whole body, however it is cut into chunks. Nothing longer is ever taken into memory.
\<close>

theorem fetch_config_url_iff:
  "fst (fetch_config http_get (Url u) s) = Inr t \<longleftrightarrow>
     (\<exists>resp parts. http_get u = Inr resp \<and> is_success resp \<and>
        (case content_length resp of None \<Rightarrow> True | Some len \<Rightarrow> unat len \<le> 1048576) \<and>
        chunks resp = map Inr parts \<and> t = concat parts \<and> length t \<le> 1048576 \<and> valid_utf8 t)"
proof -
  have m: "MAX_CONFIG_BYTES = 1048576" by (simp add: MAX_CONFIG_BYTES_def)
  have r: "read_chunks 1048576 [] cs = Inr x \<longleftrightarrow> (\<exists>ds. cs = map Inr ds \<and> x = concat ds \<and> length x \<le> 1048576)" for cs x
    using read_chunks_iff [of 1048576 "[]" cs x] by simp
  show ?thesis
  proof (cases "http_get u")
    case (Inl e)
    then show ?thesis by (simp add: fetch_config_def fetch_config_limited_def fetch_url_limited_def with_context_def)
  next
    case (Inr resp)
    then show ?thesis
      by (cases "content_length resp")
        (auto simp: fetch_config_def fetch_config_limited_def fetch_url_limited_def m try_res_eq_Inr r)
  qed
qed

text \<open>
  A configuration file is read exactly if it opens, reads, has at most one MiB and is UTF-8; the
  text is then the whole content, and reading changes no file.
\<close>

lemma fetch_config_file_text:
  assumes "fetch_config http_get (File p) s = (r, s')"
  shows "files s' = files s \<and>
     (\<forall>t. r = Inr t \<longrightarrow> map_option content (files s p) = Some t \<and> length t \<le> 1048576 \<and> valid_utf8 t) \<and>
     (\<forall>f. script s = [] \<and> files s p = Some f \<and> length (content f) \<le> 1048576 \<and> valid_utf8 (content f) \<longrightarrow>
        r = Inr (content f))"
proof -
  obtain r1 s1 where o: "fs_open p s = (r1, s1)" by (cases "fs_open p s")
  note f1 = fs_open_files [OF o]
  have m: "MAX_CONFIG_BYTES = 1048576" by (simp add: MAX_CONFIG_BYTES_def)
  note eq = assms [unfolded fetch_config_def fetch_config_limited_def read_file_limited_def m, simplified, unfolded o, simplified]
  show ?thesis
  proof (cases r1)
    case (Inl e)
    with eq have "s' = s1" "isl r" by (auto simp: with_context_def split: if_splits)
    moreover have "script s \<noteq> [] \<or> files s p = None" using o Inl by (auto simp: fs_open_def split: option.splits)
    ultimately show ?thesis using f1 by auto
  next
    case (Inr b)
    obtain r2 s2 where t: "fs_read_take (1048576 + 1) b s1 = (r2, s2)" by (cases "fs_read_take (1048576 + 1) b s1")
    note f2 = fs_read_take_Inr [OF t]
    show ?thesis
    proof (cases r2)
      case (Inl e)
      with eq t \<open>r1 = Inr b\<close> have "s' = s2" "isl r" by (auto simp: with_context_def split: if_splits)
      moreover have "script s \<noteq> []"
        using o t Inl by (auto simp: fs_open_def fs_read_take_def split: outcome.splits option.splits)
      ultimately show ?thesis using f1 f2 by auto
    next
      case (Inr b')
      with eq t \<open>r1 = Inr b\<close> f1 f2 show ?thesis
        by (auto simp: from_utf8_def split: if_splits)
    qed
  qed
qed

end
