(* ===== verification/Router.thy ===== *)
theory Router
  imports Tunnel Config "HOL-Library.Multiset"
begin

text \<open>
  \<open>src/router.rs\<close>: the routing table built from a configuration, lookups, the fingerprint reloads
  are compared by, and connecting with fallback. Byte 46 is '.'. The hash function is a parameter;
  what is fed to it is modelled byte by byte.
\<close>

record 'tls hop =
  hop_name :: str
  hop_proxy :: "'tls proxy_config"

record 'tls router =
  table :: "(str \<times> 'tls hop list) list"
  fallback :: "'tls hop list"

definition lookup :: "'tls router \<Rightarrow> str \<Rightarrow> 'tls hop list" where
  "lookup r h =
     (let h = to_ascii_lowercase (trim_end_matches 46 h)
      in case map_of (table r) h of Some hops \<Rightarrow> hops | None \<Rightarrow> fallback r)"

record 'tls runtime =
  routing :: "'tls router"
  hostnames :: "str list"
  fingerprint :: u64

section \<open>Building the table\<close>

fun parse_proxies ::
  "(str \<Rightarrow> 'tls proxy_config result) \<Rightarrow> (str \<times> 'tls proxy_config) list \<Rightarrow> (str \<times> str) list \<Rightarrow>
     (str \<times> 'tls proxy_config) list result" where
  "parse_proxies parse m [] = Inr m"
| "parse_proxies parse m ((name, url) # ps) = try_res (parse url) (\<lambda>p. parse_proxies parse (hm_insert name p m) ps)"

fun resolve :: "(str \<times> 'tls proxy_config) list \<Rightarrow> str list \<Rightarrow> 'tls hop list result" where
  "resolve px [] = Inr []"
| "resolve px (name # names) =
     try_res (ok_or ''unknown proxy'' (map_of px name)) (\<lambda>p.
     try_res (resolve px names) (\<lambda>hops. Inr (\<lparr>hop_name = name, hop_proxy = p\<rparr> # hops)))"

definition is_default :: "str \<Rightarrow> bool" where
  "is_default key = eq_ignore_ascii_case key (lit ''default'')"

record 'tls build =
  b_rules :: "(str \<times> 'tls hop list) list"
  b_default :: "'tls hop list option"
  b_hostnames :: "str list"
  b_seen :: "str set"

definition add_rule :: "str \<Rightarrow> 'tls hop list \<Rightarrow> 'tls build \<Rightarrow> 'tls build" where
  "add_rule key hops b =
     (let lower = to_ascii_lowercase key;
          b1 = (if lower \<notin> b_seen b
                then b\<lparr>b_seen := insert lower (b_seen b), b_hostnames := b_hostnames b @ [key]\<rparr> else b)
      in b1\<lparr>b_rules := hm_insert lower hops (b_rules b1)\<rparr>)"

fun build_rules :: "(str \<times> 'tls proxy_config) list \<Rightarrow> 'tls build \<Rightarrow> (str \<times> proxy_ref) list \<Rightarrow> 'tls build result" where
  "build_rules px b [] = Inr b"
| "build_rules px b ((key, ProxyRef names) # rs) =
     (if is_default key then
        try_res (resolve px names) (\<lambda>hops. build_rules px (b\<lparr>b_default := Some hops\<rparr>) rs)
      else if \<not> is_valid_hostname key then bail ''invalid hostname in rules''
      else try_res (resolve px names) (\<lambda>hops. build_rules px (add_rule key hops b) rs))"

section \<open>The fingerprint\<close>

text \<open>What \<open>Hash\<close> writes for a string, a length and a list of strings.\<close>

definition hash_str :: "str \<Rightarrow> bytes" where
  "hash_str s = s @ [0xFF]"

definition hash_usize :: "nat \<Rightarrow> bytes" where
  "hash_usize n = map (\<lambda>i. ucast (drop_bit (8 * i) (of_nat n :: u64))) [0..<8]"

definition hash_strs :: "str list \<Rightarrow> bytes" where
  "hash_strs ss = hash_usize (length ss) @ concat (map hash_str ss)"

fun hash_proxy :: "str \<times> str \<Rightarrow> bytes" where
  "hash_proxy (name, url) = hash_str name @ hash_str url"

fun hash_rule :: "str \<times> proxy_ref \<Rightarrow> bytes" where
  "hash_rule (name, ProxyRef hops) = hash_str (to_ascii_lowercase name) @ hash_strs hops"

definition fingerprint_stream :: "file_config \<Rightarrow> bytes" where
  "fingerprint_stream yaml =
     concat (map hash_proxy (sort_key fst (proxies yaml))) @
     concat (map hash_rule (sort_key (\<lambda>e. to_ascii_lowercase (fst e)) (rules yaml)))"

definition routing_fingerprint :: "(bytes \<Rightarrow> u64) \<Rightarrow> file_config \<Rightarrow> u64" where
  "routing_fingerprint siphash yaml = siphash (fingerprint_stream yaml)"

definition from_yaml ::
  "(str \<Rightarrow> url_parts result) \<Rightarrow> 'tls \<Rightarrow> (bytes \<Rightarrow> u64) \<Rightarrow> file_config \<Rightarrow> 'tls runtime result" where
  "from_yaml url_parse tls siphash yaml =
     try_res (parse_proxies (parse_proxy url_parse tls) [] (proxies yaml)) (\<lambda>px.
     try_res (build_rules px \<lparr>b_rules = [], b_default = None, b_hostnames = [], b_seen = {}\<rparr> (rules yaml)) (\<lambda>b.
     try_res (ok_or ''rules.default is required'' (b_default b)) (\<lambda>def.
       if def = [] then bail ''rules.default must not be empty''
       else Inr \<lparr>routing = \<lparr>table = b_rules b, fallback = def\<rparr>,
                 hostnames = sort_key to_ascii_lowercase (b_hostnames b),
                 fingerprint = routing_fingerprint siphash yaml\<rparr>)))"

section \<open>Connecting with fallback\<close>

text \<open>The result, the milliseconds waited, and the names of the proxies a warning is logged for.\<close>

fun fallback_loop ::
  "('tls, 'name) network \<Rightarrow> (bytes \<Rightarrow> str) \<Rightarrow> target \<Rightarrow> 'tls hop list \<Rightarrow> error option \<Rightarrow>
     proxy_stream result \<times> nat \<times> str list" where
  "fallback_loop net b64 target [] last_err =
     (Inl (case last_err of Some e \<Rightarrow> e | None \<Rightarrow> Msg (lit ''no proxy candidates'')), 0, [])"
| "fallback_loop net b64 target (hop # hops) last_err =
     (case connect net b64 (hop_proxy hop) target of
        (Inr s, t) \<Rightarrow> (Inr s, t, [])
      | (Inl e, t) \<Rightarrow>
          (case fallback_loop net b64 target hops (Some e) of
             (r, t', warned) \<Rightarrow> (r, t + t', hop_name hop # warned)))"

definition connect_with_fallback ::
  "('tls, 'name) network \<Rightarrow> (bytes \<Rightarrow> str) \<Rightarrow> 'tls hop list \<Rightarrow> target \<Rightarrow> proxy_stream result \<times> nat \<times> str list" where
  "connect_with_fallback net b64 hops target = fallback_loop net b64 target hops None"

text \<open>The table of the tests of the other components: one proxy for every host.\<close>

definition single_proxy :: "(str \<Rightarrow> url_parts result) \<Rightarrow> 'tls \<Rightarrow> str \<Rightarrow> 'tls runtime result" where
  "single_proxy url_parse tls url =
     try_res (parse_proxy url_parse tls url) (\<lambda>p.
       Inr \<lparr>routing = \<lparr>table = [], fallback = [\<lparr>hop_name = lit ''default'', hop_proxy = p\<rparr>]\<rparr>,
            hostnames = [], fingerprint = 0\<rparr>)"

end
