(* ===== verification/Relay.thy ===== *)
theory Relay
  imports Tunnel
begin

text \<open>
  \<open>copy_bidirectional_with_idle_timeout\<close> of \<open>src/main.rs\<close>: the loop that relays between the client
  and the tunnel. A turn waits for whatever comes first, bytes from either side or the idle
  deadline; when several are ready at the same time, any of them is taken. Times are milliseconds,
  in the time base of the clocks of the two streams. \<open>None\<close> as the result of the relay is that it
  waits for ever.
\<close>

definition RELAY_BUFFER :: nat where
  "RELAY_BUFFER = 16 * 1024"

text \<open>
  What the relay depends on: the idle timeout, what shutting down the write side of each stream
  gives (\<open>None\<close>: it does not complete), and which of the branches that are ready a turn takes.
\<close>

datatype branch = Idle | FromA | FromB

record relay_env =
  idle_timeout :: nat
  shutdown_a :: "unit result option"
  shutdown_b :: "unit result option"
  pick :: "nat \<Rightarrow> branch list \<Rightarrow> branch"

record relay =
  inbound :: conn
  upstream :: proxy_stream
  a_to_b :: u64
  b_to_a :: u64
  a_done :: bool
  b_done :: bool
  a_shut :: bool
  b_shut :: bool
  now_ms :: nat
  idle_at :: nat

section \<open>Waiting\<close>

fun tunnel_conn :: "proxy_stream \<Rightarrow> conn" where
  "tunnel_conn (Plain s) = stream s"
| "tunnel_conn (Tls s) = stream s"

text \<open>The read of each side: when it is ready, its result, and the stream afterwards.\<close>

definition read_a :: "relay \<Rightarrow> (nat \<times> bytes result \<times> conn) option" where
  "read_a st =
     (if a_done st then None
      else (case conn_poll_read RELAY_BUFFER (inbound st) of
              (Pending, _) \<Rightarrow> None
            | (Ready r, c) \<Rightarrow> Some (max (now_ms st) (clock c), r, c)))"

definition read_b :: "relay \<Rightarrow> (nat \<times> bytes result \<times> proxy_stream) option" where
  "read_b st =
     (if b_done st then None
      else (case tunnel_poll_read RELAY_BUFFER (upstream st) of
              Some (Ready r, t) \<Rightarrow> Some (max (now_ms st) (clock (tunnel_conn t)), r, t)
            | _ \<Rightarrow> None))"

text \<open>The branches that are ready first, with the time.\<close>

definition ready :: "relay \<Rightarrow> (nat \<times> branch) list" where
  "ready st =
     (max (now_ms st) (idle_at st), Idle) #
     (case read_a st of None \<Rightarrow> [] | Some (t, _) \<Rightarrow> [(t, FromA)]) @
     (case read_b st of None \<Rightarrow> [] | Some (t, _) \<Rightarrow> [(t, FromB)])"

definition earliest :: "(nat \<times> branch) list \<Rightarrow> branch list" where
  "earliest rs = map snd (filter (\<lambda>r. list_all (\<lambda>r'. fst r \<le> fst r') rs) rs)"

definition select :: "relay_env \<Rightarrow> nat \<Rightarrow> relay \<Rightarrow> branch" where
  "select env n st =
     (let bs = earliest (ready st) in if pick env n bs \<in> set bs then pick env n bs else hd bs)"

section \<open>A turn\<close>

datatype turned = Continue relay | Return "(u64 \<times> u64) result" relay | Stuck relay

definition from_a :: "relay_env \<Rightarrow> nat \<Rightarrow> bytes result \<Rightarrow> relay \<Rightarrow> turned" where
  "from_a env t r st =
     (case with_context ''read inbound traffic'' r of
        Inl e \<Rightarrow> Return (Inl e) st
      | Inr bs \<Rightarrow>
          if bs = [] then
            (case shutdown_b env of
               None \<Rightarrow> Stuck (st\<lparr>a_done := True\<rparr>)
             | Some r' \<Rightarrow>
                 (case with_context ''shutdown upstream write side'' r' of
                    Inl e \<Rightarrow> Return (Inl e) (st\<lparr>a_done := True\<rparr>)
                  | Inr _ \<Rightarrow> Continue (st\<lparr>a_done := True, b_shut := True\<rparr>)))
          else
            (case tunnel_write (write_all bs) (upstream st) of
               None \<Rightarrow> Stuck st
             | Some (r', b') \<Rightarrow>
                 (case with_context ''write upstream traffic'' r' of
                    Inl e \<Rightarrow> Return (Inl e) (st\<lparr>upstream := b'\<rparr>)
                  | Inr _ \<Rightarrow>
                      Continue (st\<lparr>upstream := b', a_to_b := a_to_b st + of_nat (length bs), idle_at := t + idle_timeout env\<rparr>))))"

definition from_b :: "relay_env \<Rightarrow> nat \<Rightarrow> bytes result \<Rightarrow> relay \<Rightarrow> turned" where
  "from_b env t r st =
     (case with_context ''read upstream traffic'' r of
        Inl e \<Rightarrow> Return (Inl e) st
      | Inr bs \<Rightarrow>
          if bs = [] then
            (case shutdown_a env of
               None \<Rightarrow> Stuck (st\<lparr>b_done := True\<rparr>)
             | Some r' \<Rightarrow>
                 (case with_context ''shutdown inbound write side'' r' of
                    Inl e \<Rightarrow> Return (Inl e) (st\<lparr>b_done := True\<rparr>)
                  | Inr _ \<Rightarrow> Continue (st\<lparr>b_done := True, a_shut := True\<rparr>)))
          else
            (case write_all bs (inbound st) of
               None \<Rightarrow> Stuck st
             | Some (r', a') \<Rightarrow>
                 (case with_context ''write inbound traffic'' r' of
                    Inl e \<Rightarrow> Return (Inl e) (st\<lparr>inbound := a'\<rparr>)
                  | Inr _ \<Rightarrow>
                      Continue (st\<lparr>inbound := a', b_to_a := b_to_a st + of_nat (length bs), idle_at := t + idle_timeout env\<rparr>))))"

definition relay_turn :: "relay_env \<Rightarrow> nat \<Rightarrow> relay \<Rightarrow> turned" where
  "relay_turn env n st =
     (case (select env n st, read_a st, read_b st) of
        (FromA, Some (t, r, c), _) \<Rightarrow> from_a env t r (st\<lparr>now_ms := t, inbound := c\<rparr>)
      | (FromB, _, Some (t, r, u)) \<Rightarrow> from_b env t r (st\<lparr>now_ms := t, upstream := u\<rparr>)
      | _ \<Rightarrow> Return (bail ''relay idle timeout'') (st\<lparr>now_ms := max (now_ms st) (idle_at st)\<rparr>))"

section \<open>Every turn makes progress\<close>

fun prefix_left :: "proxy_stream \<Rightarrow> nat" where
  "prefix_left (Plain s) = length (prefix s) - prefix_offset s"
| "prefix_left (Tls s) = length (prefix s) - prefix_offset s"

definition work_left :: "relay \<Rightarrow> nat" where
  "work_left st = weight (incoming (inbound st)) + weight (incoming (tunnel_conn (upstream st))) + prefix_left (upstream st) +
     of_bool (\<not> a_done st) + of_bool (\<not> b_done st)"

lemma RELAY_BUFFER_pos: "0 < RELAY_BUFFER"
  by (simp add: RELAY_BUFFER_def)

lemma conn_poll_weight: "conn_poll_read n c = (Ready (Inr bs), c') \<Longrightarrow> bs \<noteq> [] \<Longrightarrow> weight (incoming c') < weight (incoming c)"
  using read_weight by (auto simp: conn_poll_read_def split: option.splits)

lemma conn_poll_end_weight: "conn_poll_read n c = (Ready (Inr []), c') \<Longrightarrow> weight (incoming c') \<le> weight (incoming c)"
proof -
  have "read_events n t es = Some (Inr [], t', es') \<Longrightarrow> weight es' \<le> weight es" for t es t' es'
    by (induction n t es rule: read_events.induct) (auto split: if_splits)
  then show "conn_poll_read n c = (Ready (Inr []), c') \<Longrightarrow> weight (incoming c') \<le> weight (incoming c)"
    by (fastforce simp: conn_poll_read_def read_def split: option.splits)
qed

lemma conn_poll_sent: "conn_poll_read n c = (r, c') \<Longrightarrow> sent c' = sent c \<and> mode c' = mode c"
  by (auto simp: conn_poll_read_def read_def split: option.splits)

lemma write_all_incoming: "write_all bs c = Some (r, c') \<Longrightarrow> incoming c' = incoming c \<and> clock c' = clock c"
  by (auto simp: write_all_def split: write_mode.splits if_splits)

text \<open>A read of the tunnel: either a part of the prefix, or a read of the connection once it is used up.\<close>

lemma tunnel_poll_cases:
  assumes "tunnel_poll_read n t = Some (r, t')" "0 < n"
  obtains (prefix) bs where "r = Ready (Inr bs)" "bs \<noteq> []" "tunnel_conn t' = tunnel_conn t" "prefix_left t' < prefix_left t"
  | (conn) "conn_poll_read n (tunnel_conn t) = (r, tunnel_conn t')" "prefix_left t' = prefix_left t" "prefix_left t = 0"
proof -
  have "(\<exists>bs. r = Ready (Inr bs) \<and> bs \<noteq> [] \<and> stream s' = stream s \<and> length (prefix s') - prefix_offset s' < length (prefix s) - prefix_offset s) \<or>
      (conn_poll_read n (stream s) = (r, stream s') \<and> length (prefix s') - prefix_offset s' = length (prefix s) - prefix_offset s \<and>
       length (prefix s) - prefix_offset s = 0)"
    if p: "poll_read conn_poll_read n s = Some (r, s')" for s s'
  proof (cases "prefix_offset s < length (prefix s)")
    case True
    from poll_read_prefix [OF this assms(2), of conn_poll_read] p obtain chunk where c: "r = Ready (Inr chunk)" "chunk \<noteq> []"
      "stream s' = stream s" "chunk @ drop (prefix_offset s') (prefix s') = drop (prefix_offset s) (prefix s)" by auto
    from arg_cong [OF c(4), of length] c(2) have "length (prefix s') - prefix_offset s' < length (prefix s) - prefix_offset s"
      by (cases chunk) auto
    with c show ?thesis by blast
  next
    case False
    with p poll_read_stream [of s n conn_poll_read] show ?thesis by (auto simp: prod_eq_iff)
  qed
  with assms(1) show thesis
    by (cases t) (use prefix conn in \<open>fastforce simp: tunnel_poll_Plain tunnel_poll_Tls\<close>)+
qed

lemma tunnel_write_conn:
  "tunnel_write call t = Some (r, t') \<Longrightarrow>
     call (tunnel_conn t) = Some (r, tunnel_conn t') \<and> prefix_left t' = prefix_left t \<and>
     (pending (tunnel_conn t') = pending (tunnel_conn t) \<longrightarrow> tunnel_bytes t' = tunnel_bytes t)"
  by (cases t) (auto simp: tunnel_write_def prefixed_write_def tunnel_bytes.simps prefixed_bytes_def)


lemma from_a_less:
  assumes "read_a st = Some (t, r, c)" "from_a env t r (st\<lparr>now_ms := t, inbound := c\<rparr>) = Continue st'"
  shows "work_left st' < work_left st"
proof -
  from assms(1) have p: "conn_poll_read RELAY_BUFFER (inbound st) = (Ready r, c)" "\<not> a_done st"
    by (auto simp: read_a_def split: if_splits read_poll.splits prod.splits)
  from assms(2) obtain bs where r: "r = Inr bs" by (auto simp: from_a_def split: sum.splits)
  show ?thesis
  proof (cases "bs = []")
    case True
    with assms(2) r p conn_poll_end_weight [of RELAY_BUFFER "inbound st" c] show ?thesis
      by (auto simp: from_a_def work_left_def split: option.splits sum.splits)
  next
    case False
    with assms(2) r obtain u u' where w: "tunnel_write (write_all bs) (upstream st) = Some (Inr u, u')"
      "st' = st\<lparr>now_ms := t, inbound := c, upstream := u', a_to_b := a_to_b st + of_nat (length bs), idle_at := t + idle_timeout env\<rparr>"
      by (auto simp: from_a_def split: option.splits sum.splits)
    from tunnel_write_conn [OF w(1)] have "weight (incoming (tunnel_conn u')) = weight (incoming (tunnel_conn (upstream st)))"
      "prefix_left u' = prefix_left (upstream st)" using write_all_incoming by metis+
    with w(2) p conn_poll_weight [of RELAY_BUFFER "inbound st" bs c] False r show ?thesis by (simp add: work_left_def)
  qed
qed

lemma from_b_less:
  assumes "read_b st = Some (t, r, u)" "from_b env t r (st\<lparr>now_ms := t, upstream := u\<rparr>) = Continue st'"
  shows "work_left st' < work_left st"
proof -
  from assms(1) have p: "tunnel_poll_read RELAY_BUFFER (upstream st) = Some (Ready r, u)" "\<not> b_done st"
    by (auto simp: read_b_def split: if_splits option.splits read_poll.splits prod.splits)
  from assms(2) obtain bs where r: "r = Inr bs" by (auto simp: from_b_def split: sum.splits)
  have less: "weight (incoming (tunnel_conn u)) + prefix_left u + of_bool (bs \<noteq> []) \<le>
      weight (incoming (tunnel_conn (upstream st))) + prefix_left (upstream st)"
  proof (cases rule: tunnel_poll_cases [OF p(1) RELAY_BUFFER_pos])
    case (1 bs')
    then show ?thesis by (auto simp: Suc_le_eq)
  next
    case 2
    with r conn_poll_weight [of RELAY_BUFFER "tunnel_conn (upstream st)" bs "tunnel_conn u"]
      conn_poll_end_weight [of RELAY_BUFFER "tunnel_conn (upstream st)" "tunnel_conn u"]
    show ?thesis by (cases "bs = []") (auto simp: Suc_le_eq)
  qed
  show ?thesis
  proof (cases "bs = []")
    case True
    with assms(2) r p less show ?thesis by (auto simp: from_b_def work_left_def split: option.splits sum.splits)
  next
    case False
    with assms(2) r obtain x c' where w: "write_all bs (inbound st) = Some (Inr x, c')"
      "st' = st\<lparr>now_ms := t, upstream := u, inbound := c', b_to_a := b_to_a st + of_nat (length bs), idle_at := t + idle_timeout env\<rparr>"
      by (auto simp: from_b_def split: option.splits sum.splits)
    with write_all_incoming [OF w(1)] less False show ?thesis by (simp add: work_left_def)
  qed
qed

lemma select_in: "select env n st \<in> set (earliest (ready st))"
proof -
  have "earliest (ready st) \<noteq> []"
  proof -
    have "\<exists>r \<in> set rs. \<forall>r' \<in> set rs. fst r \<le> (fst r' :: nat)" if "rs \<noteq> []" for rs :: "(nat \<times> branch) list"
      using that arg_min_if_finite(1) [of "set rs" fst] arg_min_least [of "set rs" _ fst] by (metis List.finite_set set_empty)
    moreover have "ready st \<noteq> []" by (simp add: ready_def)
    ultimately show ?thesis by (auto simp: earliest_def filter_empty_conv list_all_iff)
  qed
  then show ?thesis by (auto simp: select_def Let_def)
qed

lemma relay_turn_cases:
  obtains (a) t r c where "read_a st = Some (t, r, c)" "select env n st = FromA"
      "relay_turn env n st = from_a env t r (st\<lparr>now_ms := t, inbound := c\<rparr>)"
  | (b) t r u where "read_b st = Some (t, r, u)" "select env n st = FromB"
      "relay_turn env n st = from_b env t r (st\<lparr>now_ms := t, upstream := u\<rparr>)"
  | (idle) "select env n st = Idle"
      "relay_turn env n st = Return (bail ''relay idle timeout'') (st\<lparr>now_ms := max (now_ms st) (idle_at st)\<rparr>)"
proof -
  have m: "select env n st \<in> set (map snd (ready st))" using select_in [of env n st] by (auto simp: earliest_def)
  show thesis
  proof (cases "select env n st")
    case Idle
    with idle show thesis by (simp add: relay_turn_def)
  next
    case FromA
    then obtain t r c where "read_a st = Some (t, r, c)"
      using m by (cases "read_a st"; cases "read_b st") (auto simp: ready_def)
    with FromA a [of t r c] show thesis by (simp add: relay_turn_def)
  next
    case FromB
    then obtain t r u where "read_b st = Some (t, r, u)"
      using m by (cases "read_a st"; cases "read_b st") (auto simp: ready_def)
    with FromB b [of t r u] show thesis by (cases "read_a st") (simp_all add: relay_turn_def)
  qed
qed

lemma relay_turn_less: "relay_turn env n st = Continue st' \<Longrightarrow> work_left st' < work_left st"
  by (cases rule: relay_turn_cases [of st env n]) (auto dest: from_a_less from_b_less)

section \<open>The loop\<close>

text \<open>The result, \<open>None\<close> if a turn waits for ever, and the state at the end.\<close>

function relay_loop :: "relay_env \<Rightarrow> nat \<Rightarrow> relay \<Rightarrow> (u64 \<times> u64) result option \<times> relay" where
  "relay_loop env n st =
     (if a_done st \<and> b_done st then (Some (Inr (a_to_b st, b_to_a st)), st)
      else (case relay_turn env n st of
              Continue st' \<Rightarrow> relay_loop env (Suc n) st'
            | Return r st' \<Rightarrow> (Some r, st')
            | Stuck st' \<Rightarrow> (None, st')))"
  by pat_completeness auto
termination
  by (relation "measure (\<lambda>(env, n, st). work_left st)") (auto dest: relay_turn_less)

declare relay_loop.simps [simp del]

definition copy_bidirectional_with_idle_timeout ::
  "relay_env \<Rightarrow> conn \<Rightarrow> proxy_stream \<Rightarrow> nat \<Rightarrow> (u64 \<times> u64) result option \<times> relay" where
  "copy_bidirectional_with_idle_timeout env c u t =
     relay_loop env 0 \<lparr>inbound = c, upstream = u, a_to_b = 0, b_to_a = 0, a_done = False, b_done = False,
                       a_shut = False, b_shut = False, now_ms = t, idle_at = t + idle_timeout env\<rparr>"

end
