(* ===== verification/Relay_Spec.thy ===== *)
theory Relay_Spec
  imports Relay
begin

text \<open>
  What the relay does: it forwards exactly the bytes it reads, in order and in both directions, and
  counts them; it ends after both sides have ended, or when nothing comes for the idle timeout; and
  a write that blocks suspends it for ever.
\<close>

section \<open>What a turn carries\<close>

text \<open>From \<open>st0\<close> to \<open>st\<close>, \<open>x\<close> has been carried from the client to the tunnel and \<open>y\<close> back.\<close>

definition wrote :: "relay \<Rightarrow> relay \<Rightarrow> bytes \<Rightarrow> bytes \<Rightarrow> bool" where
  "wrote st0 st x y \<longleftrightarrow>
     sent (tunnel_conn (upstream st)) = sent (tunnel_conn (upstream st0)) @ x \<and> sent (inbound st) = sent (inbound st0) @ y"

definition carried :: "relay \<Rightarrow> relay \<Rightarrow> bytes \<Rightarrow> bytes \<Rightarrow> bool" where
  "carried st0 st x y \<longleftrightarrow>
     wrote st0 st x y \<and>
     pending (inbound st0) = x @ pending (inbound st) \<and> tunnel_bytes (upstream st0) = y @ tunnel_bytes (upstream st) \<and>
     a_to_b st = a_to_b st0 + of_nat (length x) \<and> b_to_a st = b_to_a st0 + of_nat (length y)"

text \<open>When it stops in the middle of a turn, what has been written is the beginning of what there was to read.\<close>

definition stopped :: "relay \<Rightarrow> relay \<Rightarrow> bool" where
  "stopped st0 st \<longleftrightarrow>
     (\<exists>x y p q. wrote st0 st x y \<and> pending (inbound st0) = x @ p \<and> tunnel_bytes (upstream st0) = y @ q)"

text \<open>A side that is done has nothing left, and its end has been passed on.\<close>

definition ends_ok :: "relay \<Rightarrow> bool" where
  "ends_ok st \<longleftrightarrow>
     (a_done st \<longrightarrow> pending (inbound st) = []) \<and> (b_done st \<longrightarrow> tunnel_bytes (upstream st) = []) \<and>
     b_shut st = a_done st \<and> a_shut st = b_done st"

lemma wrote_trans: "wrote st0 st x y \<Longrightarrow> wrote st st' x' y' \<Longrightarrow> wrote st0 st' (x @ x') (y @ y')"
  by (simp add: wrote_def)

lemma carried_trans: "carried st0 st x y \<Longrightarrow> carried st st' x' y' \<Longrightarrow> carried st0 st' (x @ x') (y @ y')"
  using wrote_trans [of st0 st x y st' x' y'] by (simp add: carried_def)

lemma carried_stopped:
  assumes "carried st0 st x y" "stopped st st'"
  shows "stopped st0 st'"
proof -
  obtain x' y' p q where s: "wrote st st' x' y'" "pending (inbound st) = x' @ p" "tunnel_bytes (upstream st) = y' @ q"
    using assms(2) by (auto simp: stopped_def)
  have "wrote st0 st' (x @ x') (y @ y')" using assms(1) s(1) wrote_trans by (auto simp: carried_def)
  with assms(1) s(2,3) show ?thesis unfolding stopped_def carried_def by (metis append_assoc)
qed

lemma carried_refl [simp]: "carried st st [] []"
  by (simp add: carried_def wrote_def)

lemma stopped_refl [simp]: "stopped st st"
  using carried_refl [of st] unfolding stopped_def carried_def by blast

lemma write_all_sent:
  assumes "write_all bs c = Some (r, c')"
  obtains k where "sent c' = sent c @ take k bs" "r = Inr () \<Longrightarrow> take k bs = bs" "pending c' = pending c"
proof -
  have "\<exists>k. sent c' = sent c @ take k bs \<and> (r = Inr () \<longrightarrow> take k bs = bs)"
  proof (cases "mode c")
    case (FailsAfter k)
    with assms show ?thesis
      by (cases "length bs \<le> k") (auto simp: write_all_def intro: exI [of _ "length bs"] exI [of _ k])
  qed (use assms in \<open>auto simp: write_all_def intro: exI [of _ "length bs"] split: if_splits\<close>)
  moreover have "pending c' = pending c" using write_all_incoming [OF assms] by (simp add: pending_def)
  ultimately show thesis using that by blast
qed

lemma read_a_data:
  assumes "read_a st = Some (t, r, c)"
  shows "sent c = sent (inbound st)" "mode c = mode (inbound st)"
    "r = Inr bs \<Longrightarrow> pending (inbound st) = bs @ pending c" "r = Inr [] \<Longrightarrow> pending (inbound st) = []"
proof -
  have p: "conn_poll_read RELAY_BUFFER (inbound st) = (Ready r, c)"
    using assms by (auto simp: read_a_def split: if_splits read_poll.splits prod.splits)
  show "sent c = sent (inbound st)" "mode c = mode (inbound st)" using conn_poll_sent [OF p] by simp_all
  show "r = Inr bs \<Longrightarrow> pending (inbound st) = bs @ pending c" using conn_poll_data [of RELAY_BUFFER "inbound st" bs c] p by simp
  show "r = Inr [] \<Longrightarrow> pending (inbound st) = []"
    using conn_poll_end [of RELAY_BUFFER "inbound st" c] p RELAY_BUFFER_pos by simp
qed

lemma read_b_poll: "read_b st = Some (t, r, u) \<Longrightarrow> tunnel_poll_read RELAY_BUFFER (upstream st) = Some (Ready r, u)"
  by (auto simp: read_b_def split: if_splits option.splits read_poll.splits prod.splits)

lemma read_b_data:
  assumes "read_b st = Some (t, r, u)"
  shows "sent (tunnel_conn u) = sent (tunnel_conn (upstream st))" "mode (tunnel_conn u) = mode (tunnel_conn (upstream st))"
    "r = Inr bs \<Longrightarrow> tunnel_bytes (upstream st) = bs @ tunnel_bytes u" "r = Inr [] \<Longrightarrow> tunnel_bytes (upstream st) = []"
proof -
  note p = read_b_poll [OF assms]
  have "sent (tunnel_conn u) = sent (tunnel_conn (upstream st)) \<and> mode (tunnel_conn u) = mode (tunnel_conn (upstream st))"
    by (cases rule: tunnel_poll_cases [OF p RELAY_BUFFER_pos]) (auto dest: conn_poll_sent)
  then show "sent (tunnel_conn u) = sent (tunnel_conn (upstream st))" "mode (tunnel_conn u) = mode (tunnel_conn (upstream st))"
    by simp_all
  show "r = Inr bs \<Longrightarrow> tunnel_bytes (upstream st) = bs @ tunnel_bytes u"
    using tunnel.data [of RELAY_BUFFER "upstream st" bs u] p by simp
  show "r = Inr [] \<Longrightarrow> tunnel_bytes (upstream st) = []"
    using tunnel.at_end [of RELAY_BUFFER "upstream st" u] p RELAY_BUFFER_pos by simp
qed

text \<open>What the two halves of a turn do, over the state before the read.\<close>

fun turn_ok :: "relay \<Rightarrow> turned \<Rightarrow> bool" where
  "turn_ok st (Continue st') = (\<exists>x y. carried st st' x y \<and> (ends_ok st \<longrightarrow> ends_ok st'))"
| "turn_ok st (Return r st') = (stopped st st' \<and> isl r)"
| "turn_ok st (Stuck st') = stopped st st'"

lemma from_a_writes:
  assumes "read_a st = Some (t, Inr bs, c)" "bs \<noteq> []"
  shows "turn_ok st (from_a env t (Inr bs) (st\<lparr>now_ms := t, inbound := c\<rparr>))"
proof (cases "tunnel_write (write_all bs) (upstream st)")
  case None
  with assms(2) read_a_data(1) [OF assms(1)] show ?thesis
    by (auto simp: from_a_def stopped_def wrote_def intro: exI [of _ "[]"])
next
  case (Some w)
  obtain r' u where w: "w = (r', u)" by fastforce
  note tw = tunnel_write_conn [OF Some [unfolded w]]
  obtain k where k: "sent (tunnel_conn u) = sent (tunnel_conn (upstream st)) @ take k bs" "r' = Inr () \<Longrightarrow> take k bs = bs"
    "pending (tunnel_conn u) = pending (tunnel_conn (upstream st))"
    using write_all_sent tw by blast
  with tw have tb: "tunnel_bytes u = tunnel_bytes (upstream st)" by blast
  show ?thesis
  proof (cases r')
    case (Inl e)
    have "wrote st (st\<lparr>now_ms := t, inbound := c, upstream := u\<rparr>) (take k bs) []"
      using k(1) read_a_data(1) [OF assms(1)] by (simp add: wrote_def)
    moreover have "pending (inbound st) = take k bs @ (drop k bs @ pending c)"
      using read_a_data(3) [OF assms(1)] by (metis append_assoc append_take_drop_id)
    ultimately have "stopped st (st\<lparr>now_ms := t, inbound := c, upstream := u\<rparr>)" unfolding stopped_def by blast
    with assms(2) Some w Inl show ?thesis by (auto simp: from_a_def with_context_def)
  next
    case ok: (Inr x)
    with assms(2) Some w k tb read_a_data [OF assms(1)] show ?thesis
      by (auto simp: from_a_def carried_def wrote_def ends_ok_def intro!: exI [of _ bs] exI [of _ "[]"])
  qed
qed

lemma from_a_ok:
  assumes "read_a st = Some (t, r, c)"
  shows "turn_ok st (from_a env t r (st\<lparr>now_ms := t, inbound := c\<rparr>))"
proof (cases r)
  case (Inl e)
  then have "\<exists>e'. with_context ''read inbound traffic'' r = Inl e'" by (simp add: with_context_def)
  with read_a_data(1) [OF assms] show ?thesis
    by (auto simp: from_a_def stopped_def wrote_def intro: exI [of _ "[]"])
next
  case (Inr bs)
  show ?thesis
  proof (cases "bs = []")
    case True
    with Inr read_a_data(4) [OF assms] read_a_data(3) [OF assms, of bs] have "pending (inbound st) = []" "pending c = []" by simp_all
    with Inr True read_a_data(1) [OF assms] show ?thesis
      by (auto simp: from_a_def stopped_def wrote_def carried_def ends_ok_def with_context_def
          split: option.splits sum.splits intro: exI [of _ "[]"])
  next
    case False
    with from_a_writes assms Inr show ?thesis by blast
  qed
qed

lemma from_b_writes:
  assumes "read_b st = Some (t, Inr bs, u)" "bs \<noteq> []"
  shows "turn_ok st (from_b env t (Inr bs) (st\<lparr>now_ms := t, upstream := u\<rparr>))"
proof (cases "write_all bs (inbound st)")
  case None
  with assms(2) read_b_data(1) [OF assms(1)] show ?thesis
    by (auto simp: from_b_def stopped_def wrote_def intro: exI [of _ "[]"])
next
  case (Some w)
  obtain r' c where w: "w = (r', c)" by fastforce
  obtain k where k: "sent c = sent (inbound st) @ take k bs" "r' = Inr () \<Longrightarrow> take k bs = bs" "pending c = pending (inbound st)"
    using write_all_sent Some w by blast
  show ?thesis
  proof (cases r')
    case (Inl e)
    have "wrote st (st\<lparr>now_ms := t, upstream := u, inbound := c\<rparr>) [] (take k bs)"
      using k(1) read_b_data(1) [OF assms(1)] by (simp add: wrote_def)
    moreover have "tunnel_bytes (upstream st) = take k bs @ (drop k bs @ tunnel_bytes u)"
      using read_b_data(3) [OF assms(1)] by (metis append_assoc append_take_drop_id)
    ultimately have "stopped st (st\<lparr>now_ms := t, upstream := u, inbound := c\<rparr>)" unfolding stopped_def by blast
    with assms(2) Some w Inl show ?thesis by (auto simp: from_b_def with_context_def)
  next
    case ok: (Inr x)
    with assms(2) Some w k read_b_data [OF assms(1)] show ?thesis
      by (auto simp: from_b_def carried_def wrote_def ends_ok_def intro!: exI [of _ bs] exI [of _ "[]"])
  qed
qed

lemma from_b_ok:
  assumes "read_b st = Some (t, r, u)"
  shows "turn_ok st (from_b env t r (st\<lparr>now_ms := t, upstream := u\<rparr>))"
proof (cases r)
  case (Inl e)
  then have "\<exists>e'. with_context ''read upstream traffic'' r = Inl e'" by (simp add: with_context_def)
  with read_b_data(1) [OF assms] show ?thesis
    by (auto simp: from_b_def stopped_def wrote_def intro: exI [of _ "[]"])
next
  case (Inr bs)
  show ?thesis
  proof (cases "bs = []")
    case True
    with Inr read_b_data(4) [OF assms] read_b_data(3) [OF assms, of bs] have "tunnel_bytes (upstream st) = []" "tunnel_bytes u = []"
      by simp_all
    with Inr True read_b_data(1) [OF assms] show ?thesis
      by (auto simp: from_b_def stopped_def wrote_def carried_def ends_ok_def with_context_def
          split: option.splits sum.splits intro: exI [of _ "[]"])
  next
    case False
    with from_b_writes assms Inr show ?thesis by blast
  qed
qed

lemma relay_turn_ok: "turn_ok st (relay_turn env n st)"
proof (cases rule: relay_turn_cases [of st env n])
  case idle
  then show ?thesis by (auto simp: stopped_def wrote_def intro: exI [of _ "[]"])
qed (simp_all add: from_a_ok from_b_ok)

section \<open>What the relay forwards\<close>

lemma relay_loop_ok:
  assumes "relay_loop env n st = (r, st')" "ends_ok st"
  shows "stopped st st' \<and>
    (case r of Some (Inr (m, k)) \<Rightarrow> a_done st' \<and> b_done st' \<and> m = a_to_b st' \<and> k = b_to_a st' \<and> ends_ok st' \<and> (\<exists>x y. carried st st' x y)
     | _ \<Rightarrow> True)"
  using assms
proof (induction env n st rule: relay_loop.induct)
  case (1 env n st)
  show ?case
  proof (cases "a_done st \<and> b_done st")
    case True
    with "1.prems" have "r = Some (Inr (a_to_b st, b_to_a st))" "st' = st" by (auto simp: relay_loop.simps)
    moreover have "\<exists>x y. carried st st x y" using carried_refl by blast
    ultimately show ?thesis using True "1.prems"(2) by simp
  next
    case False
    show ?thesis
    proof (cases "relay_turn env n st")
      case (Continue s1)
      with relay_turn_ok [of st env n] obtain x y where c: "carried st s1 x y" "ends_ok s1" using "1.prems"(2) by auto
      from "1.prems"(1) False Continue have "relay_loop env (Suc n) s1 = (r, st')" by (simp add: relay_loop.simps [of env n st])
      note IH = "1.IH" [OF False Continue this c(2)]
      show ?thesis using IH carried_stopped [OF c(1)] carried_trans [OF c(1)]
        by (auto split: option.splits sum.splits) blast+
    next
      case (Return r1 s1)
      with relay_turn_ok [of st env n] "1.prems" False show ?thesis
        by (auto simp: relay_loop.simps [of env n st] split: sum.splits)
    next
      case (Stuck s1)
      with relay_turn_ok [of st env n] "1.prems" False show ?thesis by (auto simp: relay_loop.simps [of env n st])
    qed
  qed
qed

lemma relay_forwards:
  "case copy_bidirectional_with_idle_timeout env c u t of (r, st) \<Rightarrow>
     \<exists>x y p q. sent (tunnel_conn (upstream st)) = sent (tunnel_conn u) @ x \<and> pending c = x @ p \<and>
       sent (inbound st) = sent c @ y \<and> tunnel_bytes u = y @ q \<and>
       (case r of
          Some (Inr (m, n)) \<Rightarrow> p = [] \<and> q = [] \<and> m = of_nat (length x) \<and> n = of_nat (length y) \<and> a_shut st \<and> b_shut st
        | _ \<Rightarrow> True)"
proof -
  let ?st0 = "\<lparr>inbound = c, upstream = u, a_to_b = 0, b_to_a = 0, a_done = False, b_done = False,
               a_shut = False, b_shut = False, now_ms = t, idle_at = t + idle_timeout env\<rparr>"
  obtain r st where l: "relay_loop env 0 ?st0 = (r, st)" by fastforce
  have "ends_ok ?st0" by (simp add: ends_ok_def)
  note ok = relay_loop_ok [OF l this]
  have cp: "copy_bidirectional_with_idle_timeout env c u t = (r, st)"
    using l by (simp add: copy_bidirectional_with_idle_timeout_def)
  show ?thesis
  proof (cases "\<exists>m n. r = Some (Inr (m, n))")
    case True
    then obtain m n where r: "r = Some (Inr (m, n))" by blast
    with ok obtain x y where "carried ?st0 st x y" "ends_ok st" "a_done st" "b_done st" "m = a_to_b st" "n = b_to_a st" by auto
    then show ?thesis unfolding cp r
      by (auto simp: carried_def wrote_def ends_ok_def)
  next
    case False
    with ok cp show ?thesis by (auto simp: stopped_def wrote_def split: option.splits sum.splits)
  qed
qed

text \<open>
  C11: Whatever the two peers do and however reads and the idle deadline are interleaved, the relay
  writes to the tunnel a prefix of what the client sends, and to the client a prefix of what comes
  out of the tunnel: nothing is lost, doubled, reordered or made up. If it returns normally, both
  sides have ended, everything they sent was forwarded, both ends were passed on as half-closes,
  and the two counters are the numbers of bytes, modulo \<open>2 ^ 64\<close>.
\<close>

theorem relay_forwards_exactly:
  "case copy_bidirectional_with_idle_timeout env c u t of (r, st) \<Rightarrow>
     \<exists>x y p q. sent (tunnel_conn (upstream st)) = sent (tunnel_conn u) @ x \<and> pending c = x @ p \<and>
       sent (inbound st) = sent c @ y \<and> tunnel_bytes u = y @ q \<and>
       (case r of
          Some (Inr (m, n)) \<Rightarrow> p = [] \<and> q = [] \<and> m = of_nat (length x) \<and> n = of_nat (length y) \<and> a_shut st \<and> b_shut st
        | _ \<Rightarrow> True)"
  by (rule relay_forwards)

lemma relay_forwardsE:
  assumes "copy_bidirectional_with_idle_timeout env c u t = (r, st)"
  obtains x y l m where "sent (tunnel_conn (upstream st)) = sent (tunnel_conn u) @ x" "pending c = x @ l"
    "sent (inbound st) = sent c @ y" "tunnel_bytes u = y @ m" "\<And>v. r = Some (Inr v) \<Longrightarrow> l = [] \<and> m = []"
proof -
  from relay_forwards [where env = env and c = c and u = u and t = t] assms obtain x y l m where
    f: "sent (tunnel_conn (upstream st)) = sent (tunnel_conn u) @ x" "pending c = x @ l"
      "sent (inbound st) = sent c @ y" "tunnel_bytes u = y @ m"
      "case r of Some (Inr (i, j)) \<Rightarrow> l = [] \<and> m = [] \<and> i = of_nat (length x) \<and> j = of_nat (length y) \<and> a_shut st \<and> b_shut st | _ \<Rightarrow> True"
    by auto
  have "l = [] \<and> m = []" if "r = Some (Inr v)" for v using f(5) that by (cases v) simp
  with f(1-4) show thesis by (rule that)
qed

section \<open>When the relay ends\<close>

text \<open>The peer ends, and never pauses for \<open>d\<close> milliseconds before.\<close>

fun prompt :: "nat \<Rightarrow> (nat \<times> recv) list \<Rightarrow> bool" where
  "prompt d [] = False"
| "prompt d ((k, Eof) # es) = (k < d)"
| "prompt d ((k, RecvErr) # es) = False"
| "prompt d ((k, Data bs) # es) = (k < d \<and> bs \<noteq> [] \<and> prompt d es)"

lemma prompt_read:
  "prompt d es \<Longrightarrow> 0 < n \<Longrightarrow>
     \<exists>bs t' es'. read_events n t es = Some (Inr bs, t', es') \<and> t' < t + d \<and> (bs = [] \<or> prompt d es')"
  by (cases "(d, es)" rule: prompt.cases) auto

lemma prompt_poll:
  assumes "prompt d (incoming c)" "0 < n"
  obtains bs c' where "conn_poll_read n c = (Ready (Inr bs), c')" "clock c' < clock c + d" "bs = [] \<or> prompt d (incoming c')"
    "mode c' = mode c"
proof -
  obtain bs t' es' where "read_events n (clock c) (incoming c) = Some (Inr bs, t', es')" "t' < clock c + d" "bs = [] \<or> prompt d es'"
    using prompt_read [OF assms] by blast
  then show thesis by (intro that [of bs "c\<lparr>clock := t', incoming := es'\<rparr>"]) (simp_all add: conn_poll_read_def read_def)
qed

lemma tunnel_poll_prompt:
  assumes "prompt d (incoming (tunnel_conn u))" "0 < n"
  obtains bs u' where "tunnel_poll_read n u = Some (Ready (Inr bs), u')" "clock (tunnel_conn u') < clock (tunnel_conn u) + d"
    "bs = [] \<or> prompt d (incoming (tunnel_conn u'))" "mode (tunnel_conn u') = mode (tunnel_conn u)"
proof -
  obtain r u' where u': "tunnel_poll_read n u = Some (r, u')" using tunnel.no_panic [of n u] by fastforce
  have "0 < d" using assms(1) by (cases "(d, incoming (tunnel_conn u))" rule: prompt.cases) auto
  from u' show thesis
  proof (cases rule: tunnel_poll_cases [OF u' assms(2)])
    case (1 bs)
    with u' assms(1) \<open>0 < d\<close> show thesis by (intro that [of bs u']) auto
  next
    case 2
    from prompt_poll [OF assms] obtain bs c' where c': "conn_poll_read n (tunnel_conn u) = (Ready (Inr bs), c')"
      "clock c' < clock (tunnel_conn u) + d" "bs = [] \<or> prompt d (incoming c')" "mode c' = mode (tunnel_conn u)" by blast
    with 2 u' show thesis by (intro that [of bs u']) auto
  qed
qed

text \<open>The side will still send, without a pause, and its last bytes have set the deadline.\<close>

definition lively :: "nat \<Rightarrow> bool \<Rightarrow> conn \<Rightarrow> nat \<Rightarrow> bool" where
  "lively T done c deadline \<longleftrightarrow> (done \<or> prompt T (incoming c) \<and> clock c + T \<le> deadline)"

definition flowing :: "relay_env \<Rightarrow> relay \<Rightarrow> bool" where
  "flowing env st \<longleftrightarrow>
     shutdown_a env = Some (Inr ()) \<and> shutdown_b env = Some (Inr ()) \<and>
     mode (inbound st) = Accepts \<and> mode (tunnel_conn (upstream st)) = Accepts \<and>
     now_ms st < idle_at st \<and> idle_at st \<le> now_ms st + idle_timeout env \<and>
     lively (idle_timeout env) (a_done st) (inbound st) (idle_at st) \<and>
     lively (idle_timeout env) (b_done st) (tunnel_conn (upstream st)) (idle_at st)"

lemma select_Idle: "select env n st = Idle \<Longrightarrow> (t, r) \<in> set (ready st) \<Longrightarrow> max (now_ms st) (idle_at st) \<le> t"
proof -
  assume s: "select env n st = Idle" and r: "(t, r) \<in> set (ready st)"
  from select_in [of env n st] s obtain t0 where t0: "(t0, Idle) \<in> set (ready st)" "\<forall>r' \<in> set (ready st). t0 \<le> fst r'"
    by (auto simp: earliest_def list_all_iff)
  from t0(1) have "t0 = max (now_ms st) (idle_at st)" by (auto simp: ready_def split: option.splits)
  with t0(2) r show ?thesis by fastforce
qed

lemma select_before:
  "select env n st = br \<Longrightarrow> (t, r) \<in> set (ready st) \<Longrightarrow> \<exists>t0. (t0, br) \<in> set (ready st) \<and> t0 \<le> t"
  using select_in [of env n st] by (fastforce simp: earliest_def list_all_iff)

lemma read_a_lively:
  assumes "lively T (a_done st) (inbound st) (idle_at st)" "now_ms st < idle_at st" "\<not> a_done st"
  obtains t bs c where "read_a st = Some (t, Inr bs, c)" "t < idle_at st" "now_ms st \<le> t" "clock c \<le> t"
    "bs = [] \<or> prompt T (incoming c)" "mode c = mode (inbound st)"
proof -
  from assms have "prompt T (incoming (inbound st))" "clock (inbound st) + T \<le> idle_at st" by (auto simp: lively_def)
  with prompt_poll [OF this(1) RELAY_BUFFER_pos] obtain bs c where
    "conn_poll_read RELAY_BUFFER (inbound st) = (Ready (Inr bs), c)" "clock c < idle_at st" "bs = [] \<or> prompt T (incoming c)"
    "mode c = mode (inbound st)" by (metis order_less_le_trans)
  with assms(2,3) show thesis by (intro that [of "max (now_ms st) (clock c)" bs c]) (auto simp: read_a_def)
qed

lemma read_b_lively:
  assumes "lively T (b_done st) (tunnel_conn (upstream st)) (idle_at st)" "now_ms st < idle_at st" "\<not> b_done st"
  obtains t bs u where "read_b st = Some (t, Inr bs, u)" "t < idle_at st" "now_ms st \<le> t" "clock (tunnel_conn u) \<le> t"
    "bs = [] \<or> prompt T (incoming (tunnel_conn u))" "mode (tunnel_conn u) = mode (tunnel_conn (upstream st))"
proof -
  from assms have "prompt T (incoming (tunnel_conn (upstream st)))" "clock (tunnel_conn (upstream st)) + T \<le> idle_at st"
    by (auto simp: lively_def)
  with tunnel_poll_prompt [OF this(1) RELAY_BUFFER_pos] obtain bs u where
    "tunnel_poll_read RELAY_BUFFER (upstream st) = Some (Ready (Inr bs), u)" "clock (tunnel_conn u) < idle_at st"
    "bs = [] \<or> prompt T (incoming (tunnel_conn u))" "mode (tunnel_conn u) = mode (tunnel_conn (upstream st))"
    by (metis order_less_le_trans)
  with assms(2,3) show thesis by (intro that [of "max (now_ms st) (clock (tunnel_conn u))" bs u]) (auto simp: read_b_def)
qed

lemma tunnel_write_accepts:
  assumes "mode (tunnel_conn u) = Accepts"
  obtains u' where "tunnel_write (write_all bs) u = Some (Inr (), u')" "mode (tunnel_conn u') = Accepts"
    "incoming (tunnel_conn u') = incoming (tunnel_conn u)" "clock (tunnel_conn u') = clock (tunnel_conn u)"
proof -
  have "\<exists>u'. tunnel_write (write_all bs) u = Some (Inr (), u') \<and> mode (tunnel_conn u') = Accepts \<and>
      incoming (tunnel_conn u') = incoming (tunnel_conn u) \<and> clock (tunnel_conn u') = clock (tunnel_conn u)"
    using assms by (cases u) (auto simp: tunnel_write_def prefixed_write_def)
  with that show thesis by blast
qed

lemma flowing_parts:
  assumes "flowing env st"
  shows "now_ms st < idle_at st" "idle_at st \<le> now_ms st + idle_timeout env"
    "lively (idle_timeout env) (a_done st) (inbound st) (idle_at st)"
    "lively (idle_timeout env) (b_done st) (tunnel_conn (upstream st)) (idle_at st)"
    "shutdown_a env = Some (Inr ())" "shutdown_b env = Some (Inr ())"
    "mode (inbound st) = Accepts" "mode (tunnel_conn (upstream st)) = Accepts"
  using assms by (simp_all add: flowing_def)

lemma flowing_from_a:
  assumes "flowing env st" "read_a st = Some (t, r, c)"
  shows "\<exists>st'. from_a env t r (st\<lparr>now_ms := t, inbound := c\<rparr>) = Continue st' \<and> flowing env st'"
proof -
  note f = flowing_parts [OF assms(1)]
  have "\<not> a_done st" using assms(2) by (auto simp: read_a_def split: if_splits)
  then obtain bs where r: "r = Inr bs" "t < idle_at st" "now_ms st \<le> t" "clock c \<le> t"
    "bs = [] \<or> prompt (idle_timeout env) (incoming c)" "mode c = Accepts"
    using read_a_lively [OF f(3,1)] assms(2) f(7) by (metis Pair_inject option.inject)
  show ?thesis
  proof (cases "bs = []")
    case True
    with r f show ?thesis by (auto simp: from_a_def flowing_def lively_def)
  next
    case False
    obtain u where u: "tunnel_write (write_all bs) (upstream st) = Some (Inr (), u)" "mode (tunnel_conn u) = Accepts"
      "incoming (tunnel_conn u) = incoming (tunnel_conn (upstream st))" "clock (tunnel_conn u) = clock (tunnel_conn (upstream st))"
      using tunnel_write_accepts [OF f(8)] by blast
    with False r f show ?thesis by (auto simp: from_a_def flowing_def lively_def)
  qed
qed

lemma flowing_from_b:
  assumes "flowing env st" "read_b st = Some (t, r, u)"
  shows "\<exists>st'. from_b env t r (st\<lparr>now_ms := t, upstream := u\<rparr>) = Continue st' \<and> flowing env st'"
proof -
  note f = flowing_parts [OF assms(1)]
  have "\<not> b_done st" using assms(2) by (auto simp: read_b_def split: if_splits)
  then obtain bs where r: "r = Inr bs" "t < idle_at st" "now_ms st \<le> t" "clock (tunnel_conn u) \<le> t"
    "bs = [] \<or> prompt (idle_timeout env) (incoming (tunnel_conn u))" "mode (tunnel_conn u) = Accepts"
    using read_b_lively [OF f(4,1)] assms(2) f(8) by (metis Pair_inject option.inject)
  show ?thesis
  proof (cases "bs = []")
    case True
    with r f show ?thesis by (auto simp: from_b_def flowing_def lively_def)
  next
    case False
    with r f show ?thesis by (auto simp: from_b_def flowing_def lively_def)
  qed
qed

text \<open>Something is ready before the deadline, so the deadline is not reached.\<close>

lemma flowing_ready:
  assumes "flowing env st" "\<not> (a_done st \<and> b_done st)"
  shows "\<exists>t br. (t, br) \<in> set (ready st) \<and> t < idle_at st"
proof (cases "a_done st")
  case True
  with assms(2) read_b_lively [OF flowing_parts(4,1) [OF assms(1)]]
  obtain t bs u where "read_b st = Some (t, Inr bs, u)" "t < idle_at st" by metis
  then show ?thesis by (intro exI [of _ t] exI [of _ FromB]) (simp add: ready_def)
next
  case False
  with read_a_lively [OF flowing_parts(3,1) [OF assms(1)]]
  obtain t bs c where "read_a st = Some (t, Inr bs, c)" "t < idle_at st" by metis
  then show ?thesis by (intro exI [of _ t] exI [of _ FromA]) (simp add: ready_def)
qed

lemma flowing_turn:
  assumes "flowing env st" "\<not> (a_done st \<and> b_done st)"
  shows "\<exists>st'. relay_turn env n st = Continue st' \<and> flowing env st'"
proof (cases rule: relay_turn_cases [of st env n])
  case (a t r c)
  with flowing_from_a [OF assms(1)] show ?thesis by simp
next
  case (b t r u)
  with flowing_from_b [OF assms(1)] show ?thesis by simp
next
  case idle
  with select_Idle [OF idle(1)] flowing_ready [OF assms] show ?thesis by fastforce
qed

lemma flowing_loop: "flowing env st \<Longrightarrow> \<exists>m n' st'. relay_loop env n st = (Some (Inr (m, n')), st')"
proof (induction env n st rule: relay_loop.induct)
  case (1 env n st)
  show ?case
  proof (cases "a_done st \<and> b_done st")
    case True
    then show ?thesis by (simp add: relay_loop.simps)
  next
    case False
    with flowing_turn [OF "1.prems"] obtain st' where "relay_turn env n st = Continue st'" "flowing env st'" by blast
    with "1.IH" [OF False this(1) this(2)] False show ?thesis by (auto simp: relay_loop.simps [of env n st])
  qed
qed

text \<open>
  If both peers take what is written and end, and neither pauses for the idle timeout before, the
  relay returns, having forwarded everything: it never gives up on a connection that is in use.
\<close>

lemma relay_finishes:
  assumes "prompt (idle_timeout env) (incoming c)" "prompt (idle_timeout env) (incoming (tunnel_conn u))"
    and "mode c = Accepts" "mode (tunnel_conn u) = Accepts" "clock c \<le> t" "clock (tunnel_conn u) \<le> t"
    and "shutdown_a env = Some (Inr ())" "shutdown_b env = Some (Inr ())"
  shows "\<exists>st. copy_bidirectional_with_idle_timeout env c u t =
             (Some (Inr (of_nat (length (pending c)), of_nat (length (tunnel_bytes u)))), st) \<and>
           sent (tunnel_conn (upstream st)) = sent (tunnel_conn u) @ pending c \<and> sent (inbound st) = sent c @ tunnel_bytes u \<and>
           a_shut st \<and> b_shut st"
proof -
  have "0 < idle_timeout env" using assms(1) by (cases "(idle_timeout env, incoming c)" rule: prompt.cases) auto
  with assms have "flowing env \<lparr>inbound = c, upstream = u, a_to_b = 0, b_to_a = 0, a_done = False, b_done = False,
      a_shut = False, b_shut = False, now_ms = t, idle_at = t + idle_timeout env\<rparr>"
    by (simp add: flowing_def lively_def)
  from flowing_loop [OF this, of 0] obtain m n st where
    "copy_bidirectional_with_idle_timeout env c u t = (Some (Inr (m, n)), st)"
    unfolding copy_bidirectional_with_idle_timeout_def by blast
  with relay_forwards [where env = env and c = c and u = u and t = t] show ?thesis by auto
qed

definition sample_relay_env :: relay_env where
  "sample_relay_env = \<lparr>idle_timeout = 300000, shutdown_a = Some (Inr ()), shutdown_b = Some (Inr ()), pick = (\<lambda>_. last)\<rparr>"

definition sample_client :: conn where
  "sample_client = \<lparr>clock = 5, incoming = [(20, Data (lit ''GET'')), (9000, Eof)], sent = [], mode = Accepts\<rparr>"

section \<open>The idle deadline\<close>

text \<open>
  The times at which the relay forwards: the turns after which one of the two peers has been sent more
  than before. They are read off what the peers receive, not off the deadline the relay keeps.
\<close>

definition delivered :: "relay \<Rightarrow> bytes \<times> bytes" where
  "delivered st = (sent (inbound st), sent (tunnel_conn (upstream st)))"

function forwards :: "relay_env \<Rightarrow> nat \<Rightarrow> relay \<Rightarrow> nat list" where
  "forwards env n st =
     (if a_done st \<and> b_done st then []
      else (case relay_turn env n st of
              Continue st' \<Rightarrow> (if delivered st' = delivered st then [] else [now_ms st']) @ forwards env (Suc n) st'
            | _ \<Rightarrow> []))"
  by pat_completeness auto
termination
  by (relation "measure (\<lambda>(env, n, st). work_left st)") (auto dest: relay_turn_less)

declare forwards.simps [simp del]

definition relay_start :: "relay_env \<Rightarrow> conn \<Rightarrow> proxy_stream \<Rightarrow> nat \<Rightarrow> relay" where
  "relay_start env c u t =
     \<lparr>inbound = c, upstream = u, a_to_b = 0, b_to_a = 0, a_done = False, b_done = False, a_shut = False, b_shut = False,
      now_ms = t, idle_at = t + idle_timeout env\<rparr>"

text \<open>A turn ends by the deadline and moves it exactly if it forwards; it fails with the deadline only when it is reached.\<close>

fun turn_deadline :: "relay_env \<Rightarrow> relay \<Rightarrow> turned \<Rightarrow> bool" where
  "turn_deadline env st (Continue st') =
     (now_ms st \<le> now_ms st' \<and> now_ms st' \<le> idle_at st \<and>
      idle_at st' = (if delivered st' = delivered st then idle_at st else now_ms st' + idle_timeout env))"
| "turn_deadline env st (Stuck st') = (now_ms st \<le> now_ms st' \<and> now_ms st' \<le> idle_at st)"
| "turn_deadline env st (Return r st') =
     (now_ms st \<le> now_ms st' \<and> now_ms st' \<le> idle_at st \<and>
      (case r of Inl (Msg m) \<Rightarrow> m = lit ''relay idle timeout'' \<and> now_ms st' = idle_at st | _ \<Rightarrow> True))"

lemma with_context_Inl: "with_context m r = Inl e \<Longrightarrow> (\<exists>e'. e = Context (lit m) e') \<or> e = Panicked"
  by (auto simp: with_context_def split: sum.splits if_splits)

lemma write_all_delivers: "write_all bs c = Some (Inr u, c') \<Longrightarrow> sent c' = sent c @ bs"
  by (rule write_all_sent [of bs c "Inr u" c']) auto

lemma from_a_deadline:
  assumes "read_a st = Some (t, r, c)" "now_ms st \<le> t" "t \<le> idle_at st"
  shows "turn_deadline env st (from_a env t r (st\<lparr>now_ms := t, inbound := c\<rparr>))"
proof -
  have "sent (tunnel_conn u) = sent (tunnel_conn (upstream st)) @ bs"
    if "tunnel_write (write_all bs) (upstream st) = Some (Inr x, u)" for bs x u
    using tunnel_write_conn [OF that] write_all_delivers by blast
  with assms(2,3) read_a_data(1) [OF assms(1)] show ?thesis unfolding from_a_def
    by (auto simp: delivered_def dest!: with_context_Inl split: sum.splits option.splits error.splits)
qed

lemma from_b_deadline:
  assumes "read_b st = Some (t, r, u)" "now_ms st \<le> t" "t \<le> idle_at st"
  shows "turn_deadline env st (from_b env t r (st\<lparr>now_ms := t, upstream := u\<rparr>))"
  using assms(2,3) read_b_data(1) [OF assms(1)] write_all_delivers unfolding from_b_def
  by (auto simp: delivered_def dest!: with_context_Inl split: sum.splits option.splits error.splits)

lemma relay_turn_deadline:
  assumes le: "now_ms st \<le> idle_at st"
  shows "turn_deadline env st (relay_turn env n st)"
proof -
  have soon: "t \<le> idle_at st" if "select env n st = br" "\<And>t0. (t0, br) \<in> set (ready st) \<Longrightarrow> t0 = t" for br t
  proof -
    have "(max (now_ms st) (idle_at st), Idle) \<in> set (ready st)" by (simp add: ready_def)
    from select_before [OF that(1) this] that(2) le show ?thesis by auto
  qed
  show ?thesis
  proof (cases rule: relay_turn_cases [of st env n])
    case (a t r c)
    have "now_ms st \<le> t" "t \<le> idle_at st"
      using a(1) soon [OF a(2), of t] by (auto simp: read_a_def ready_def split: if_splits read_poll.splits prod.splits option.splits)
    from from_a_deadline [OF a(1) this] show ?thesis unfolding a(3) .
  next
    case (b t r u)
    have "now_ms st \<le> t" "t \<le> idle_at st"
      using b(1) soon [OF b(2), of t]
      by (auto simp: read_b_def ready_def split: if_splits read_poll.splits prod.splits option.splits)
    from from_b_deadline [OF b(1) this] show ?thesis unfolding b(3) .
  next
    case idle
    with le show ?thesis by (auto simp: bail_def)
  qed
qed

text \<open>From a state whose deadline was set at \<open>u\<close>, the last of \<open>u\<close> and the times of forwarding set the last deadline.\<close>

definition deadline_kept :: "nat \<Rightarrow> nat list \<Rightarrow> (u64 \<times> u64) result option \<Rightarrow> relay \<Rightarrow> bool" where
  "deadline_kept T ts r st \<longleftrightarrow>
     successively (\<lambda>x y. x \<le> y \<and> y \<le> x + T) ts \<and> last ts \<le> now_ms st \<and> now_ms st \<le> last ts + T \<and>
     (\<forall>m. r = Some (Inl (Msg m)) \<longrightarrow> m = lit ''relay idle timeout'' \<and> now_ms st = last ts + T)"

lemma deadline_kept_Cons: "u \<le> v \<Longrightarrow> v \<le> u + T \<Longrightarrow> deadline_kept T (v # ts) r st \<Longrightarrow> deadline_kept T (u # v # ts) r st"
  by (simp add: deadline_kept_def)

lemma relay_loop_deadline:
  assumes "idle_at st = u + idle_timeout env" "u \<le> now_ms st" "now_ms st \<le> idle_at st" "relay_loop env n st = (r, st2)"
  shows "deadline_kept (idle_timeout env) (u # forwards env n st) r st2"
  using assms
proof (induction env n st arbitrary: u rule: relay_loop.induct)
  case (1 env n st)
  show ?case
  proof (cases "a_done st \<and> b_done st")
    case True
    with "1.prems" show ?thesis by (auto simp: relay_loop.simps forwards.simps deadline_kept_def)
  next
    case False
    note d = relay_turn_deadline [OF "1.prems"(3), of env n]
    show ?thesis
    proof (cases "relay_turn env n st")
      case (Continue st')
      let ?u = "if delivered st' = delivered st then u else now_ms st'"
      have u: "idle_at st' = ?u + idle_timeout env" "?u \<le> now_ms st'" "now_ms st' \<le> idle_at st'"
        "u \<le> now_ms st'" "now_ms st' \<le> u + idle_timeout env" using d Continue "1.prems" by auto
      have eq: "relay_loop env (Suc n) st' = (r, st2)"
        "forwards env n st = (if delivered st' = delivered st then [] else [now_ms st']) @ forwards env (Suc n) st'"
        using False Continue "1.prems"(4) by (auto simp: relay_loop.simps [of env n st] forwards.simps [of env n st])
      from "1.IH" [OF False Continue u(1-3) eq(1)] u(4,5) show ?thesis
        unfolding eq(2) by (simp add: deadline_kept_Cons split: if_splits)
    next
      case (Return r' st')
      then have "forwards env n st = []" "r = Some r'" "st2 = st'"
        using False "1.prems"(4) by (auto simp: relay_loop.simps [of env n st] forwards.simps [of env n st])
      with d Return "1.prems"(1,2) show ?thesis by (auto simp: deadline_kept_def)
    next
      case (Stuck st')
      with d "1.prems" False show ?thesis
        by (auto simp: relay_loop.simps [of env n st] forwards.simps [of env n st] deadline_kept_def)
    qed
  qed
qed

text \<open>
  C22: The idle timeout runs from the start or the last time bytes were forwarded, in either direction:
  the relay never waits longer than that, traffic whose pauses are shorter keeps it alive however
  long it lasts, and it fails with the idle timeout exactly when that has passed since the last bytes it
  delivered to a peer.
\<close>

theorem relay_idle_deadline:
  "case copy_bidirectional_with_idle_timeout env c u t of (r, st) \<Rightarrow>
     let beats = t # forwards env 0 (relay_start env c u t)
     in successively (\<lambda>x y. x \<le> y \<and> y \<le> x + idle_timeout env) beats \<and>
        last beats \<le> now_ms st \<and> now_ms st \<le> last beats + idle_timeout env \<and>
        (case r of Some (Inl (Msg m)) \<Rightarrow> m = lit ''relay idle timeout'' \<and> now_ms st = last beats + idle_timeout env | _ \<Rightarrow> True)"
proof -
  let ?s = "relay_start env c u t"
  obtain r st where r: "relay_loop env 0 ?s = (r, st)" by fastforce
  from relay_loop_deadline [OF _ _ _ this, of t] have "deadline_kept (idle_timeout env) (t # forwards env 0 ?s) r st"
    by (simp add: relay_start_def)
  with r show ?thesis
    unfolding copy_bidirectional_with_idle_timeout_def Let_def relay_start_def [symmetric] deadline_kept_def
    by (simp split: option.splits sum.splits error.splits)
qed

section \<open>A write that blocks\<close>

text \<open>
  C23: The idle timeout does not cover writes: if the client's bytes arrive while the tunnel is silent
  and the proxy has stopped reading, the relay waits in the write for ever, whatever its idle
  timeout is.
\<close>

theorem relay_blocked_by_write:
  assumes "incoming c = (d, Data bs) # es" "bs \<noteq> []" "max t (clock c + d) < t + idle_timeout env"
    and "incoming u = []" "mode u = BlocksAfter k" "k < min (length bs) RELAY_BUFFER"
  shows "fst (copy_bidirectional_with_idle_timeout env c (Plain (new_prefixed u [])) t) = None"
proof -
  let ?st = "\<lparr>inbound = c, upstream = Plain (new_prefixed u []), a_to_b = 0, b_to_a = 0, a_done = False, b_done = False,
      a_shut = False, b_shut = False, now_ms = t, idle_at = t + idle_timeout env\<rparr>"
  obtain c' where a: "read_a ?st = Some (max t (clock c + d), Inr (take RELAY_BUFFER bs), c')"
    using assms(1,2) by (auto simp: read_a_def conn_poll_read_def read_def)
  have b: "read_b ?st = None"
    using assms(4) RELAY_BUFFER_pos
    by (simp add: read_b_def tunnel_poll_read_def poll_read_def new_prefixed_def conn_poll_read_def read_def)
  have "ready ?st = [(max t (t + idle_timeout env), Idle), (max t (clock c + d), FromA)]" using a b by (simp add: ready_def)
  with assms(3) have "earliest (ready ?st) = [FromA]" by (auto simp: earliest_def)
  then have "select env 0 ?st = FromA" by (simp add: select_def Let_def)
  moreover have "take RELAY_BUFFER bs \<noteq> []" using assms(2) RELAY_BUFFER_pos by auto
  moreover have "write_all (take RELAY_BUFFER bs) u = None" using assms(5,6) by (auto simp: write_all_def min_def split: if_splits)
  ultimately have "\<exists>st'. relay_turn env 0 ?st = Stuck st'"
    using a by (simp add: relay_turn_def from_a_def tunnel_write_def prefixed_write_def new_prefixed_def)
  then show ?thesis
    unfolding copy_bidirectional_with_idle_timeout_def by (auto simp: relay_loop.simps [of env 0 ?st])
qed

theorem relay_blocked_by_write_witness:
  "fst (copy_bidirectional_with_idle_timeout sample_relay_env sample_client
     (Plain (new_prefixed \<lparr>clock = 0, incoming = [], sent = [], mode = BlocksAfter 0\<rparr> [])) 7) = None"
  by (rule relay_blocked_by_write [where d = 20 and bs = "lit ''GET''" and es = "[(9000, Eof)]" and k = 0])
    (simp_all add: sample_client_def sample_relay_env_def lit_def RELAY_BUFFER_def)

end
