(* ===== verification/In_Flight.thy ===== *)
theory In_Flight
  imports Nya_Prelude
begin

text \<open>
  \<open>InFlightFetches\<close> of \<open>src/reload.rs\<close>: the counter of configuration fetches in flight. Threads
  acquire a slot with a load and a compare-exchange, and release it when their guard is dropped;
  the threads are interleaved at these atomic operations. \<open>slot_pool\<close> is the contract the callers
  rely on.
\<close>

record in_flight =
  current :: u64
  slots_max :: u64

definition new_in_flight :: "u64 \<Rightarrow> in_flight" where
  "new_in_flight m = \<lparr>current = 0, slots_max = m\<rparr>"

text \<open>A call of \<open>try_acquire\<close> that no other thread interferes with, and the drop of a guard.\<close>

definition try_acquire :: "in_flight \<Rightarrow> in_flight option" where
  "try_acquire s = (if current s \<ge> slots_max s then None else Some (s\<lparr>current := current s + 1\<rparr>))"

definition release :: "in_flight \<Rightarrow> in_flight" where
  "release s = s\<lparr>current := current s - 1\<rparr>"

section \<open>Interleaved threads\<close>

text \<open>
  Where a thread is: outside, at the head of the loop of \<open>try_acquire\<close>, with the loaded value before
  the compare-exchange, or holding a guard.
\<close>

datatype thread = Outside | Trying | Loaded u64 | Holding

text \<open>The next atomic operation of a thread.\<close>

fun thread_step :: "in_flight \<Rightarrow> thread \<Rightarrow> in_flight \<times> thread" where
  "thread_step s Outside = (s, Trying)"
| "thread_step s Trying = (if current s \<ge> slots_max s then (s, Outside) else (s, Loaded (current s)))"
| "thread_step s (Loaded cur) =
     (if current s = cur then (s\<lparr>current := cur + 1\<rparr>, Holding) else (s, Trying))"
| "thread_step s Holding = (s\<lparr>current := current s - 1\<rparr>, Outside)"

inductive interleaving :: "u64 \<Rightarrow> nat \<Rightarrow> in_flight \<Rightarrow> thread list \<Rightarrow> bool" for m n where
  start: "interleaving m n (new_in_flight m) (replicate n Outside)"
| step: "interleaving m n s ts \<Longrightarrow> i < length ts \<Longrightarrow> thread_step s (ts ! i) = (s', t) \<Longrightarrow>
    interleaving m n s' (ts[i := t])"

inductive_cases interleaving_stepE: "interleaving m n s ts"

definition holders :: "thread list \<Rightarrow> nat" where
  "holders ts = length (filter (\<lambda>t. t = Holding) ts)"

lemma holders_update:
  "i < length ts \<Longrightarrow>
     holders (ts[i := t]) + (if ts ! i = Holding then 1 else 0) = holders ts + (if t = Holding then 1 else 0)"
proof (induction ts arbitrary: i)
  case (Cons x ts)
  show ?case
  proof (cases i)
    case 0
    then show ?thesis by (simp add: holders_def)
  next
    case (Suc j)
    with Cons.IH [of j] Cons.prems show ?thesis by (simp add: holders_def split: if_splits)
  qed
qed simp

lemma holders_pos: "i < length ts \<Longrightarrow> ts ! i = Holding \<Longrightarrow> 0 < holders ts"
proof -
  assume i: "i < length ts" "ts ! i = Holding"
  then have "Holding \<in> set ts" using nth_mem by metis
  then show ?thesis by (auto simp: holders_def filter_empty_conv)
qed

lemma unat_Suc_less: "(c :: u64) < m \<Longrightarrow> unat (c + 1) = Suc (unat c)"
proof -
  assume "c < m"
  then have "unat c < unat m" by (simp add: word_less_nat_alt)
  moreover have "unat m < 2 ^ LENGTH(64)" by (rule unsigned_less)
  ultimately show ?thesis by (simp add: unat_word_ariths)
qed

lemma unat_pred: "0 < unat (c :: u64) \<Longrightarrow> unat (c - 1) = unat c - 1"
proof -
  assume "0 < unat c"
  then have "1 \<le> c" by (simp add: word_le_nat_alt)
  then show ?thesis by (simp add: unat_sub)
qed

fun_cases thread_stepE: "thread_step s th = (s', t)"

text \<open>The counter is the number of guards held, and a value that was loaded left room for one more.\<close>

definition slots_inv :: "u64 \<Rightarrow> in_flight \<Rightarrow> thread list \<Rightarrow> bool" where
  "slots_inv m s ts \<longleftrightarrow>
     unat (current s) = holders ts \<and> current s \<le> m \<and> slots_max s = m \<and> (\<forall>c. Loaded c \<in> set ts \<longrightarrow> c < m)"

lemma slots_inv_update:
  assumes "slots_inv m s ts" "i < length ts" "slots_max s' = m" "current s' \<le> m" "\<And>c. t = Loaded c \<Longrightarrow> c < m"
    and "unat (current s') = holders (ts[i := t])"
  shows "slots_inv m s' (ts[i := t])"
proof -
  have "Loaded c \<in> set (ts[i := t]) \<Longrightarrow> Loaded c \<in> set ts \<or> t = Loaded c" for c
    using set_update_subset_insert [of ts i t] by auto
  with assms show ?thesis by (auto simp: slots_inv_def)
qed

lemma thread_step_inv:
  assumes inv: "slots_inv m s ts" and i: "i < length ts" and step: "thread_step s (ts ! i) = (s', t)"
  shows "slots_inv m s' (ts[i := t])"
proof -
  note h = holders_update [OF i, of t] and u = slots_inv_update [OF inv i]
  have s: "unat (current s) = holders ts" "current s \<le> m" "slots_max s = m" using inv by (simp_all add: slots_inv_def)
  from step show ?thesis
  proof (cases rule: thread_stepE [consumes 1])
    case 1
    with h s show ?thesis by (intro u) auto
  next
    case 2
    with h s show ?thesis by (intro u) (auto split: if_splits)
  next
    case (3 c)
    have c: "c < m" using inv 3(1) nth_mem [OF i] by (auto simp: slots_inv_def)
    then have "unat (c + 1) = Suc (unat c)" by (rule unat_Suc_less)
    moreover from this have "c + 1 \<le> m" using c by (simp add: word_le_nat_alt word_less_nat_alt)
    ultimately show ?thesis using 3 h s by (intro u) (auto split: if_splits)
  next
    case 4
    have p: "0 < unat (current s)" using holders_pos [OF i 4(1)] s(1) by simp
    have "unat (current s - 1) = unat (current s) - 1" by (rule unat_pred [OF p])
    moreover from this have "current s - 1 \<le> m" using s(2) by (auto simp: word_le_nat_alt)
    ultimately show ?thesis using 4 h s p by (intro u) auto
  qed
qed

lemma interleaving_invariant: "interleaving m n s ts \<Longrightarrow> slots_inv m s ts"
proof (induction rule: interleaving.induct)
  case start
  show ?case by (auto simp: slots_inv_def new_in_flight_def holders_def)
next
  case (step s ts i s' t)
  show ?case by (rule thread_step_inv [OF step.IH step.hyps(2,3)])
qed

text \<open>
  C16: However threads interleave at their atomic operations, and whatever values a failed
  compare-exchange had seen, the counter is the number of threads that hold a guard and never
  exceeds the limit; so at most that many configuration fetches run at a time.
\<close>

theorem in_flight_limit:
  assumes "interleaving m n s ts"
  shows "unat (current s) = length (filter (\<lambda>t. t = Holding) ts) \<and> length (filter (\<lambda>t. t = Holding) ts) \<le> unat m"
  using interleaving_invariant [OF assms] by (auto simp: slots_inv_def holders_def word_le_nat_alt)

theorem in_flight_limit_witness:
  "unat (current \<lparr>current = 1, slots_max = 1\<rparr>) = length (filter (\<lambda>t. t = Holding) [Holding, Loaded 0])"
proof -
  have "interleaving 1 2 \<lparr>current = 0, slots_max = 1\<rparr> [Outside, Outside]"
    using interleaving.start [of 1 2] by (simp add: new_in_flight_def numeral_2_eq_2)
  from interleaving.step [OF this, of 0] have "interleaving 1 2 \<lparr>current = 0, slots_max = 1\<rparr> [Trying, Outside]" by simp
  from interleaving.step [OF this, of 1] have "interleaving 1 2 \<lparr>current = 0, slots_max = 1\<rparr> [Trying, Trying]" by simp
  from interleaving.step [OF this, of 0] have "interleaving 1 2 \<lparr>current = 0, slots_max = 1\<rparr> [Loaded 0, Trying]" by simp
  from interleaving.step [OF this, of 1] have "interleaving 1 2 \<lparr>current = 0, slots_max = 1\<rparr> [Loaded 0, Loaded 0]" by simp
  from interleaving.step [OF this, of 0] have "interleaving 1 2 \<lparr>current = 1, slots_max = 1\<rparr> [Holding, Loaded 0]" by simp
  from in_flight_limit [OF this] show ?thesis by blast
qed

text \<open>Alone, a thread is through \<open>try_acquire\<close> after at most two operations, with its result.\<close>

lemma try_acquire_alone:
  "try_acquire s = None \<longleftrightarrow> thread_step s Trying = (s, Outside)"
  "try_acquire s = Some s' \<longleftrightarrow> (\<exists>c. thread_step s Trying = (s, Loaded c) \<and> thread_step s (Loaded c) = (s', Holding))"
  by (auto simp: try_acquire_def)

section \<open>The contract\<close>

text \<open>
  A pool of slots: \<open>held\<close> counts those taken; acquiring fails exactly when all are taken; what
  \<open>acquire\<close> and \<open>release\<close> rely on is the invariant \<open>wf\<close>.
\<close>

locale slot_pool =
  fixes wf :: "'s \<Rightarrow> bool" and acquire :: "'s \<Rightarrow> 's option" and give_back :: "'s \<Rightarrow> 's"
    and held :: "'s \<Rightarrow> nat" and limit :: "'s \<Rightarrow> nat"
  assumes acquire_none: "wf s \<Longrightarrow> acquire s = None \<longleftrightarrow> limit s \<le> held s"
    and acquire_some: "wf s \<Longrightarrow> acquire s = Some s' \<Longrightarrow> wf s' \<and> held s' = Suc (held s) \<and> limit s' = limit s"
    and give_back: "wf s \<Longrightarrow> 0 < held s \<Longrightarrow> wf (give_back s) \<and> held (give_back s) = held s - 1 \<and> limit (give_back s) = limit s"
    and bounded: "wf s \<Longrightarrow> held s \<le> limit s"
begin

lemma acquire_free: "wf s \<Longrightarrow> held s < limit s \<Longrightarrow> \<exists>s'. acquire s = Some s' \<and> wf s' \<and> held s' = Suc (held s)"
  using acquire_none acquire_some by (cases "acquire s") fastforce+

lemma acquire_give_back: "wf s \<Longrightarrow> acquire s = Some s' \<Longrightarrow> held (give_back s') = held s \<and> wf (give_back s')"
  using acquire_some give_back by fastforce

lemma give_back_then_acquire: "wf s \<Longrightarrow> 0 < held s \<Longrightarrow> \<exists>s'. acquire (give_back s) = Some s' \<and> held s' = held s"
  using give_back [of s] bounded [of s] acquire_free [of "give_back s"] by fastforce

lemma give_back_all: "wf s \<Longrightarrow> k \<le> held s \<Longrightarrow> wf ((give_back ^^ k) s) \<and> held ((give_back ^^ k) s) = held s - k"
proof (induction k)
  case (Suc k)
  then show ?case using give_back [of "(give_back ^^ k) s"] by simp
qed simp

end

interpretation fetches: slot_pool "\<lambda>s. current s \<le> slots_max s" try_acquire release "\<lambda>s. unat (current s)" "\<lambda>s. unat (slots_max s)"
proof
  fix s s' :: in_flight
  assume wf: "current s \<le> slots_max s"
  show "try_acquire s = None \<longleftrightarrow> unat (slots_max s) \<le> unat (current s)" by (simp add: try_acquire_def word_le_nat_alt)
  show "unat (current s) \<le> unat (slots_max s)" using wf by (simp add: word_le_nat_alt)
  show "current s' \<le> slots_max s' \<and> unat (current s') = Suc (unat (current s)) \<and> unat (slots_max s') = unat (slots_max s)"
    if "try_acquire s = Some s'"
  proof -
    have "current s < slots_max s" "s' = s\<lparr>current := current s + 1\<rparr>" using that by (auto simp: try_acquire_def split: if_splits)
    then show ?thesis using unat_Suc_less [of "current s" "slots_max s"] by (simp add: word_le_nat_alt word_less_nat_alt)
  qed
  show "current (release s) \<le> slots_max (release s) \<and> unat (current (release s)) = unat (current s) - 1 \<and>
      unat (slots_max (release s)) = unat (slots_max s)" if "0 < unat (current s)"
    using unat_pred [OF that] wf by (simp add: release_def word_le_nat_alt)
qed

end
