(* ===== verification/Clients.thy ===== *)
theory Clients
  imports Nya_Prelude
begin

text \<open>
  What the program does itself when it sets up the HTTP client that fetches the configuration and the
  TLS configuration for HTTPS proxies: the cryptography provider is installed once, before either is
  built, and the client has timeouts. The builders of \<open>reqwest\<close> and \<open>rustls\<close> are parameters. Times
  are milliseconds.
\<close>

text \<open>The \<open>Once\<close>, and how often the provider has been installed.\<close>

record crypto =
  once_done :: bool
  installs :: nat

definition ensure_crypto_provider :: "crypto \<Rightarrow> crypto" where
  "ensure_crypto_provider s = (if once_done s then s else s\<lparr>once_done := True, installs := Suc (installs s)\<rparr>)"

definition http_client :: "(nat \<Rightarrow> nat \<Rightarrow> 'client result) \<Rightarrow> (error \<Rightarrow> str) \<Rightarrow> crypto \<Rightarrow> 'client result \<times> crypto" where
  "http_client build show_err s =
     (let s1 = ensure_crypto_provider s
      in (case build 10000 5000 of
            Inl e \<Rightarrow> Inl (Msg (lit ''build HTTP client: '' @ show_err e))
          | Inr c \<Rightarrow> Inr c, s1))"

definition tls_client_config :: "('cert list \<Rightarrow> 'tls) \<Rightarrow> 'cert list \<Rightarrow> crypto \<Rightarrow> 'tls \<times> crypto" where
  "tls_client_config build roots s = (let s1 = ensure_crypto_provider s in (build roots, s1))"

text \<open>Whatever is set up, and however often: the provider is installed exactly once.\<close>

datatype 'cert set_up = HttpClient | TlsConfig "'cert list"

fun prepare :: "(nat \<Rightarrow> nat \<Rightarrow> 'client result) \<Rightarrow> (error \<Rightarrow> str) \<Rightarrow> ('cert list \<Rightarrow> 'tls) \<Rightarrow> 'cert set_up \<Rightarrow> crypto \<Rightarrow> crypto" where
  "prepare hb se tb HttpClient s = snd (http_client hb se s)"
| "prepare hb se tb (TlsConfig roots) s = snd (tls_client_config tb roots s)"

lemma prepare_ensures: "prepare hb se tb u = ensure_crypto_provider"
  by (cases u) (auto simp: http_client_def tls_client_config_def Let_def fun_eq_iff)

lemma provider_installed_once:
  "us \<noteq> [] \<Longrightarrow> installs (fold (prepare hb se tb) us \<lparr>once_done = False, installs = 0\<rparr>) = 1"
proof -
  have idle: "fold (\<lambda>_. ensure_crypto_provider) vs s = s" if "once_done s" for vs :: "'a set_up list" and s
    using that by (induction vs) (simp_all add: ensure_crypto_provider_def)
  assume "us \<noteq> []"
  then obtain u vs where "us = u # vs" by (cases us) auto
  with idle [of "ensure_crypto_provider \<lparr>once_done = False, installs = 0\<rparr>"] show ?thesis
    by (simp add: prepare_ensures [abs_def] ensure_crypto_provider_def)
qed

end
