(* ===== verification/Reload.thy ===== *)
theory Reload
  imports In_Flight Router Hosts Clients
begin

text \<open>
  \<open>src/reload.rs\<close>: fetching the configuration on a thread with a hard timeout, one reload, and the
  loops that watch the file or poll the source. Time is in milliseconds. What becomes of a fetch
  thread, the events of the file watcher and the crates of the other components are parameters.
\<close>

definition CONFIG_FETCH_HARD_TIMEOUT :: nat where
  "CONFIG_FETCH_HARD_TIMEOUT = 15000"

definition MAX_IN_FLIGHT_FETCHES :: u64 where
  "MAX_IN_FLIGHT_FETCHES = 2"

section \<open>Fetching with a hard timeout\<close>

text \<open>\<open>DefaultFetcher::fetch\<close>: building the runtime and the client may fail.\<close>

definition default_fetch ::
  "unit result \<Rightarrow> (nat \<Rightarrow> nat \<Rightarrow> 'client result) \<Rightarrow> (error \<Rightarrow> str) \<Rightarrow> ('client \<Rightarrow> 'url \<Rightarrow> response result) \<Rightarrow>
     'url config_source \<Rightarrow> crypto \<Rightarrow> fs \<Rightarrow> str result \<times> crypto \<times> fs" where
  "default_fetch build_runtime build_client show_err http_get source k s =
     (case with_context ''build config-fetch runtime'' build_runtime of
        Inl e \<Rightarrow> (Inl e, k, s)
      | Inr _ \<Rightarrow>
          (case http_client build_client show_err k of
             (Inl e, k1) \<Rightarrow> (Inl e, k1, s)
           | (Inr client, k1) \<Rightarrow> (case fetch_config (http_get client) source s of (r, s1) \<Rightarrow> (r, k1, s1))))"

text \<open>
  The timeout of the client ends a request that it times before the hard timeout of the fetch.
\<close>

lemma client_timeout_below_hard_timeout:
  assumes "fst (http_client build show_err s) = Inr c"
  obtains total connect where "build total connect = Inr c" "connect \<le> total" "total < CONFIG_FETCH_HARD_TIMEOUT"
  using assms by (intro that [of 10000 5000]) (auto simp: http_client_def CONFIG_FETCH_HARD_TIMEOUT_def Let_def split: sum.splits)

datatype fetch_error = TimedOut nat | InFlight u64 | ThreadSpawn error | ThreadDropped | Failed error

text \<open>
  Its \<open>Display\<close> and \<open>source\<close>: \<open>duration\<close>, \<open>message\<close> and \<open>chain\<close> are the standard forms \<open>{:?}\<close> of a
  duration, and \<open>{}\<close> and \<open>{:#}\<close> of an error.
\<close>

definition fetch_error_fmt :: "(nat \<Rightarrow> str) \<Rightarrow> (error \<Rightarrow> str) \<Rightarrow> (error \<Rightarrow> str) \<Rightarrow> fetch_error \<Rightarrow> str" where
  "fetch_error_fmt duration message chain e =
     (case e of
        TimedOut d \<Rightarrow> lit ''config fetch timed out after '' @ duration d
      | InFlight n \<Rightarrow> lit ''previous config fetch still in flight ('' @ show_nat (unat n) @ lit '')''
      | ThreadSpawn err \<Rightarrow> lit ''spawn config fetch thread: '' @ message err
      | ThreadDropped \<Rightarrow> lit ''config fetch thread panicked or dropped''
      | Failed err \<Rightarrow> chain err)"

definition fetch_error_source :: "fetch_error \<Rightarrow> error option" where
  "fetch_error_source e = (case e of Failed err \<Rightarrow> Some err | ThreadSpawn err \<Rightarrow> Some err | _ \<Rightarrow> None)"

text \<open>What becomes of a fetch: no thread, a result after some time, a panic after some time, or nothing.\<close>

datatype fetch_run = SpawnFails error | Finishes nat "str result" | Dies nat | Hangs

text \<open>
  The clock, the slots, and for each fetch thread still running, which holds a guard, the time its
  guard will be dropped (\<open>None\<close>: never).
\<close>

record fetch_world =
  now :: nat
  slots :: in_flight
  running :: "nat option list"

definition over :: "nat \<Rightarrow> nat option \<Rightarrow> bool" where
  "over t r = (case r of None \<Rightarrow> False | Some u \<Rightarrow> u \<le> t)"

text \<open>Time passes: the threads that are over by then have dropped their guards.\<close>

definition wait_until :: "nat \<Rightarrow> fetch_world \<Rightarrow> fetch_world" where
  "wait_until t w =
     (let ended = filter (over t) (running w)
      in \<lparr>now = t, slots = (release ^^ length ended) (slots w), running = filter (\<lambda>r. \<not> over t r) (running w)\<rparr>)"

definition fetch_with_hard_timeout :: "fetch_run \<Rightarrow> nat \<Rightarrow> fetch_world \<Rightarrow> (fetch_error + str) \<times> fetch_world" where
  "fetch_with_hard_timeout run hard_timeout w =
     (case try_acquire (slots w) of
        None \<Rightarrow> (Inl (InFlight (current (slots w))), w)
      | Some acquired \<Rightarrow>
          (let spawned = (\<lambda>fin. w\<lparr>slots := acquired, running := fin # running w\<rparr>)
           in case run of
                SpawnFails e \<Rightarrow> (Inl (ThreadSpawn e), w\<lparr>slots := release acquired\<rparr>)
              | Finishes t r \<Rightarrow>
                  if t \<le> hard_timeout
                  then (case r of Inr txt \<Rightarrow> Inr txt | Inl e \<Rightarrow> Inl (Failed e),
                        wait_until (now w + t) (spawned (Some (now w + t))))
                  else (Inl (TimedOut hard_timeout), wait_until (now w + hard_timeout) (spawned (Some (now w + t))))
              | Dies t \<Rightarrow>
                  if t \<le> hard_timeout
                  then (Inl ThreadDropped, wait_until (now w + t) (spawned (Some (now w + t))))
                  else (Inl (TimedOut hard_timeout), wait_until (now w + hard_timeout) (spawned (Some (now w + t))))
              | Hangs \<Rightarrow> (Inl (TimedOut hard_timeout), wait_until (now w + hard_timeout) (spawned None))))"

section \<open>One reload\<close>

datatype log =
  PollSkipped u64 | PollFailed | ReceiverDropped | PollCompleted bool | Ignoring str
| HostsUpdated | HostsUnchanged | HostsFailed error | WatchEventFailed

record 'tls reload_state =
  world :: fetch_world
  routes :: "'tls runtime"
  receivers :: bool
  last_yaml :: file_config
  filesys :: fs
  journal :: "log list"

text \<open>
  What a reload depends on: the crates, the settings, what a fetch started at a given time will do,
  and how long a synchronisation of the hosts file takes.
\<close>

record 'tls reload_env =
  serde_yaml :: "str \<Rightarrow> yaml_doc result"
  url_parse :: "str \<Rightarrow> url_parts result"
  tls_client :: 'tls
  siphash :: "bytes \<Rightarrow> u64"
  settings :: static_settings
  fetch_at :: "nat \<Rightarrow> fetch_run"
  sync_ms :: nat

definition logged :: "log list \<Rightarrow> 'tls reload_state \<Rightarrow> 'tls reload_state" where
  "logged ls s = s\<lparr>journal := journal s @ ls\<rparr>"

definition apply_hosts :: "'tls reload_env \<Rightarrow> 'tls runtime \<Rightarrow> 'tls reload_state \<Rightarrow> 'tls reload_state" where
  "apply_hosts env rt s =
     (case hosts_path (settings env) of
        None \<Rightarrow> s
      | Some p \<Rightarrow>
          (case sync_hosts p (listen (settings env)) (hostnames rt) (filesys s) of
             (r, f) \<Rightarrow>
               logged [case r of Inr True \<Rightarrow> HostsUpdated | Inr False \<Rightarrow> HostsUnchanged | Inl e \<Rightarrow> HostsFailed e]
                 (s\<lparr>filesys := f, world := wait_until (now (world s) + sync_ms env) (world s)\<rparr>)))"

definition install :: "'tls reload_env \<Rightarrow> file_config \<Rightarrow> 'tls runtime \<Rightarrow> 'tls reload_state \<Rightarrow> 'tls reload_state" where
  "install env yaml rt s =
     (let routing_changed = (fingerprint (routes s) \<noteq> fingerprint rt);
          s1 = apply_hosts env rt s
      in if routing_changed \<and> \<not> receivers s1 then logged [PollFailed, ReceiverDropped] s1
         else (let s2 = (if routing_changed then s1\<lparr>routes := rt\<rparr> else s1)
               in (logged [PollCompleted routing_changed] s2)\<lparr>last_yaml := yaml\<rparr>))"

definition reload_once :: "'tls reload_env \<Rightarrow> 'tls reload_state \<Rightarrow> 'tls reload_state" where
  "reload_once env s =
     (case fetch_with_hard_timeout (fetch_at env (now (world s))) CONFIG_FETCH_HARD_TIMEOUT (world s) of
        (Inl (InFlight n), w) \<Rightarrow> logged [PollSkipped n] (s\<lparr>world := w\<rparr>)
      | (Inl _, w) \<Rightarrow> logged [PollFailed] (s\<lparr>world := w\<rparr>)
      | (Inr txt, w) \<Rightarrow>
          (let s1 = s\<lparr>world := w\<rparr>
           in case parse_yaml (serde_yaml env) txt of
                Inl _ \<Rightarrow> logged [PollFailed] s1
              | Inr yaml \<Rightarrow>
                  (let s2 = logged (map Ignoring (warn_ignored_runtime_changes (last_yaml s1) yaml)) s1
                   in case from_yaml (url_parse env) (tls_client env) (siphash env) yaml of
                        Inl _ \<Rightarrow> logged [PollFailed] s2
                      | Inr rt \<Rightarrow> install env yaml rt s2)))"

section \<open>Watching and polling\<close>

text \<open>The events of the file watcher, with the kinds its crate has.\<close>

datatype event_kind = EvAny | EvAccess | EvCreate | EvModify | EvRemove | EvOther

record event =
  ev_kind :: event_kind
  ev_paths :: "path list"

definition event_applies :: "event \<Rightarrow> str option \<Rightarrow> bool" where
  "event_applies ev fname =
     (if ev_kind ev \<notin> {EvCreate, EvModify, EvRemove, EvAny} then False
      else (case fname of
              None \<Rightarrow> True
            | Some f \<Rightarrow> list_ex (\<lambda>p. file_name p = Some f) (ev_paths ev)))"

definition sleep_until :: "nat \<Rightarrow> 'tls reload_state \<Rightarrow> 'tls reload_state" where
  "sleep_until t s = s\<lparr>world := wait_until (max t (now (world s))) (world s)\<rparr>"

text \<open>
  The loop over the watcher's events, each with the time it is put into the channel: the state
  afterwards, and the times a reload was started. An event that applies starts one 200 ms later,
  after the events that have arrived by then are drained; those that arrive during it are kept.
\<close>

function watch_loop ::
  "'tls reload_env \<Rightarrow> str option \<Rightarrow> (nat \<times> event result) list \<Rightarrow> 'tls reload_state \<Rightarrow> 'tls reload_state \<times> nat list" where
  "watch_loop env fname [] s = (s, [])"
| "watch_loop env fname ((t, ev) # es) s =
     (let s1 = sleep_until t s
      in case ev of
           Inl _ \<Rightarrow> watch_loop env fname es (logged [WatchEventFailed] s1)
         | Inr e \<Rightarrow>
             if event_applies e fname then
               (let s2 = sleep_until (now (world s1) + 200) s1;
                    rest = dropWhile (\<lambda>(t', _). t' \<le> now (world s2)) es
                in case watch_loop env fname rest (reload_once env s2) of
                     (s3, starts) \<Rightarrow> (s3, now (world s2) # starts))
             else watch_loop env fname es s1)"
  by pat_completeness auto
termination
  by (relation "measure (\<lambda>(_, _, es, _). length es)") (auto simp: le_imp_less_Suc length_dropWhile_le)

text \<open>
  The loop that polls, for a number of rounds: \<open>interval\<close> with missed ticks delayed. The next tick
  is due a period after the last one was taken.
\<close>

fun poll_loop :: "'tls reload_env \<Rightarrow> nat \<Rightarrow> nat \<Rightarrow> 'tls reload_state \<Rightarrow> 'tls reload_state \<times> nat list" where
  "poll_loop env due 0 s = (s, [])"
| "poll_loop env due (Suc rounds) s =
     (let s1 = sleep_until due s;
          t = now (world s1)
      in case poll_loop env (t + 1000 * unat (refresh (settings env))) rounds (reload_once env s1) of
           (s2, starts) \<Rightarrow> (s2, t # starts))"

definition poll_source :: "'tls reload_env \<Rightarrow> nat \<Rightarrow> 'tls reload_state \<Rightarrow> 'tls reload_state \<times> nat list" where
  "poll_source env rounds s = poll_loop env (now (world s) + 1000 * unat (refresh (settings env))) rounds s"

text \<open>
  \<open>watch_file\<close>: the directory of the file is watched. Without a watcher, or if it cannot watch the
  directory, the file is polled.
\<close>

definition watch_dir :: "path \<Rightarrow> path" where
  "watch_dir p = (case parent p of Some d \<Rightarrow> if d = [] then [CurDir] else d | None \<Rightarrow> [CurDir])"

definition watch_file ::
  "'tls reload_env \<Rightarrow> path \<Rightarrow> unit result \<Rightarrow> (path \<Rightarrow> unit result) \<Rightarrow> (nat \<times> event result) list \<Rightarrow> nat \<Rightarrow>
     'tls reload_state \<Rightarrow> 'tls reload_state \<times> nat list" where
  "watch_file env p recommended_watcher watch es rounds s =
     (case recommended_watcher of
        Inl _ \<Rightarrow> poll_source env rounds s
      | Inr _ \<Rightarrow>
          (case watch (watch_dir p) of
             Inl _ \<Rightarrow> poll_source env rounds s
           | Inr _ \<Rightarrow> watch_loop env (config_filename p) es s))"

definition run_reload_loop ::
  "'tls reload_env \<Rightarrow> 'url config_source \<Rightarrow> unit result \<Rightarrow> (path \<Rightarrow> unit result) \<Rightarrow> (nat \<times> event result) list \<Rightarrow> nat \<Rightarrow>
     'tls reload_state \<Rightarrow> 'tls reload_state \<times> nat list" where
  "run_reload_loop env source recommended_watcher watch es rounds s =
     (case source of
        File p \<Rightarrow> watch_file env p recommended_watcher watch es rounds s
      | Url _ \<Rightarrow> poll_source env rounds s)"

definition prepare_source :: "(path \<Rightarrow> path result) \<Rightarrow> 'url config_source \<Rightarrow> 'url config_source" where
  "prepare_source canonicalize source =
     (case canonicalize_source canonicalize source of Inr s \<Rightarrow> s | Inl _ \<Rightarrow> source)"

end
