(* ===== verification/Router_Spec.thy ===== *)
theory Router_Spec
  imports Router
begin

text \<open>
  What the routing table promises: which proxies a host is sent to, that the table does not depend
  on the order a hash map is iterated in, which host names are published, that two configurations
  with the same bytes under the hash route alike, and that fallback takes the first proxy that works.
\<close>

section \<open>The table that is built\<close>

lemma parse_proxies_map:
  "parse_proxies parse m ps = Inr m' \<Longrightarrow>
     map_of m' k = (case map_of (rev ps) k of None \<Rightarrow> map_of m k
                    | Some u \<Rightarrow> (case parse u of Inl _ \<Rightarrow> None | Inr p \<Rightarrow> Some p))"
proof (induction parse m ps rule: parse_proxies.induct)
  case (2 parse m name url ps)
  then obtain p where p: "parse url = Inr p" "parse_proxies parse (hm_insert name p m) ps = Inr m'"
    by (auto simp: try_res_eq_Inr)
  from "2.IH" [OF p(2)] p(1) show ?case
    by (auto simp: map_of_hm_insert map_add_def split: option.splits)
qed simp

lemma parse_proxies_Inr: "parse_proxies parse m ps = Inr m' \<Longrightarrow> e \<in> set ps \<Longrightarrow> \<exists>p. parse (snd e) = Inr p"
  by (induction parse m ps rule: parse_proxies.induct) (auto simp: try_res_eq_Inr)

lemma parse_proxies_total: "\<forall>e \<in> set ps. \<exists>p. parse (snd e) = Inr p \<Longrightarrow> \<exists>m'. parse_proxies parse m ps = Inr m'"
  by (induction parse m ps rule: parse_proxies.induct) auto

lemma resolve_Inr:
  "resolve px names = Inr hops \<longleftrightarrow> map hop_name hops = names \<and> (\<forall>h \<in> set hops. map_of px (hop_name h) = Some (hop_proxy h))"
proof (induction names arbitrary: hops)
  case (Cons n names)
  show ?case
  proof (cases hops)
    case (Cons h hs)
    then show ?thesis using Cons.IH [of hs] by (cases h) (auto simp: try_res_eq_Inr)
  qed (auto simp: try_res_eq_Inr)
qed auto

lemma resolve_cong: "map_of px = map_of px' \<Longrightarrow> resolve px names = resolve px' names"
  by (induction names) simp_all

definition entries :: "(str \<times> proxy_ref) list \<Rightarrow> (str \<times> str list) list" where
  "entries rs = map (\<lambda>(k, r). (to_ascii_lowercase k, case r of ProxyRef ns \<Rightarrow> ns)) (filter (\<lambda>(k, _). \<not> is_default k) rs)"

definition defaults :: "(str \<times> proxy_ref) list \<Rightarrow> str list list" where
  "defaults rs = map (\<lambda>(k, r). case r of ProxyRef ns \<Rightarrow> ns) (filter (\<lambda>(k, _). is_default k) rs)"

lemma entries_Cons:
  "entries ((k, ProxyRef ns) # rs) = (if is_default k then entries rs else (to_ascii_lowercase k, ns) # entries rs)"
  "defaults ((k, ProxyRef ns) # rs) = (if is_default k then ns # defaults rs else defaults rs)"
  "entries [] = []" "defaults [] = []"
  by (simp_all add: entries_def defaults_def)

lemma add_rule_simps [simp]:
  "b_default (add_rule key hops b) = b_default b"
  "b_rules (add_rule key hops b) = hm_insert (to_ascii_lowercase key) hops (b_rules b)"
  "b_seen (add_rule key hops b) = insert (to_ascii_lowercase key) (b_seen b)"
  "b_hostnames (add_rule key hops b) = b_hostnames b @ (if to_ascii_lowercase key \<in> b_seen b then [] else [key])"
  by (auto simp: add_rule_def Let_def)

lemma build_rules_table:
  "build_rules px b rs = Inr b' \<Longrightarrow>
     (\<forall>(k, r) \<in> set rs. (is_default k \<or> is_valid_hostname k) \<and> (\<exists>hops. resolve px (case r of ProxyRef ns \<Rightarrow> ns) = Inr hops)) \<and>
     map_option Inr (b_default b') =
       (if defaults rs = [] then map_option Inr (b_default b) else Some (resolve px (last (defaults rs)))) \<and>
     map_option Inr (map_of (b_rules b') h) =
       (case map_of (rev (entries rs)) h of None \<Rightarrow> map_option Inr (map_of (b_rules b) h) | Some ns \<Rightarrow> Some (resolve px ns))"
proof (induction px b rs rule: build_rules.induct)
  case (1 px b)
  then show ?case by (simp add: entries_Cons)
next
  case (2 px b key names rs)
  show ?case
  proof (cases "is_default key")
    case True
    with "2.prems" obtain hops where h: "resolve px names = Inr hops" "build_rules px (b\<lparr>b_default := Some hops\<rparr>) rs = Inr b'"
      by (auto simp: try_res_eq_Inr)
    from "2.IH"(1) [OF True h(2)] h(1) True show ?thesis
      by (auto simp: entries_Cons split: option.splits)
  next
    case False
    with "2.prems" obtain hops where h: "is_valid_hostname key" "resolve px names = Inr hops"
      "build_rules px (add_rule key hops b) rs = Inr b'"
      by (auto simp: try_res_eq_Inr split: if_splits)
    from h(1) have "\<not> \<not> is_valid_hostname key" by simp
    from "2.IH"(2) [OF False this h(3)] h(1,2) False show ?thesis
      by (auto simp: entries_Cons map_of_hm_insert map_add_def split: option.splits)
  qed
qed

lemma build_rules_same:
  assumes "build_rules px b0 rs = Inr b" "build_rules px' b0 rs' = Inr b'" "map_of px' = map_of px"
    and "map_of (rev (entries rs')) = map_of (rev (entries rs))" "defaults rs' = defaults rs"
  shows "b_default b' = b_default b" "map_of (b_rules b') h = map_of (b_rules b) h"
proof -
  note res = resolve_cong [OF assms(3)]
  note t = build_rules_table [OF assms(1)] and t' = build_rules_table [OF assms(2)]
  have "map_option (Inr :: _ \<Rightarrow> _ result) (b_default b') = map_option Inr (b_default b)"
    using t [of "[]", THEN conjunct2, THEN conjunct1] t' [of "[]", THEN conjunct2, THEN conjunct1]
    unfolding assms(5) res by metis
  then show "b_default b' = b_default b" by (cases "b_default b"; cases "b_default b'") auto
  have "map_option (Inr :: _ \<Rightarrow> _ result) (map_of (b_rules b') h) = map_option Inr (map_of (b_rules b) h)"
    using t [of h] t' [of h] assms(4) res by (auto split: option.splits)
  then show "map_of (b_rules b') h = map_of (b_rules b) h"
    by (metis (mono_tags) option.inj_map_strong sum.inject(2))
qed

lemma build_rules_hostnames:
  "build_rules px b rs = Inr b' \<Longrightarrow> b_seen b = to_ascii_lowercase ` set (b_hostnames b) \<Longrightarrow>
     distinct (map to_ascii_lowercase (b_hostnames b)) \<Longrightarrow>
     distinct (map to_ascii_lowercase (b_hostnames b')) \<and>
     to_ascii_lowercase ` set (b_hostnames b') = to_ascii_lowercase ` set (b_hostnames b) \<union> fst ` set (entries rs) \<and>
     set (b_hostnames b') \<subseteq> set (b_hostnames b) \<union> {k \<in> fst ` set rs. \<not> is_default k \<and> is_valid_hostname k}"
proof (induction px b rs rule: build_rules.induct)
  case (1 px b)
  then show ?case by (simp add: entries_Cons)
next
  case (2 px b key names rs)
  show ?case
  proof (cases "is_default key")
    case True
    with "2.prems" obtain hops where h: "resolve px names = Inr hops" "build_rules px (b\<lparr>b_default := Some hops\<rparr>) rs = Inr b'"
      by (auto simp: try_res_eq_Inr)
    from "2.IH"(1) [OF True h(2)] "2.prems" True show ?thesis by (auto simp: entries_Cons)
  next
    case False
    with "2.prems" obtain hops where h: "is_valid_hostname key" "build_rules px (add_rule key hops b) rs = Inr b'"
      by (auto simp: try_res_eq_Inr split: if_splits)
    from h(1) have "\<not> \<not> is_valid_hostname key" by simp
    note IH = "2.IH"(2) [OF False this h(2)]
    show ?thesis
    proof (cases "to_ascii_lowercase key \<in> b_seen b")
      case True
      with IH "2.prems"(2,3) show ?thesis using False by (auto simp: entries_Cons insert_absorb)
    next
      case new: False
      with IH "2.prems"(2,3) show ?thesis using False h(1) by (simp add: entries_Cons) blast
    qed
  qed
qed

lemma build_rules_total:
  "\<forall>(k, r) \<in> set rs. (is_default k \<or> is_valid_hostname k) \<and> (\<exists>hops. resolve px (case r of ProxyRef ns \<Rightarrow> ns) = Inr hops) \<Longrightarrow>
     \<exists>b'. build_rules px b rs = Inr b'"
  by (induction px b rs rule: build_rules.induct) auto

section \<open>Lookups\<close>

text \<open>The proxy a name stands for, and the hops a list of names stands for.\<close>

definition proxy_of :: "(str \<Rightarrow> url_parts result) \<Rightarrow> 'tls \<Rightarrow> file_config \<Rightarrow> str \<Rightarrow> 'tls proxy_config option" where
  "proxy_of url_parse tls yaml name =
     (case map_of (proxies yaml) name of
        None \<Rightarrow> None
      | Some u \<Rightarrow> (case parse_proxy url_parse tls u of Inl _ \<Rightarrow> None | Inr p \<Rightarrow> Some p))"

definition hops_for :: "(str \<Rightarrow> url_parts result) \<Rightarrow> 'tls \<Rightarrow> file_config \<Rightarrow> str list \<Rightarrow> 'tls hop list \<Rightarrow> bool" where
  "hops_for url_parse tls yaml names hops \<longleftrightarrow>
     map hop_name hops = names \<and> (\<forall>h \<in> set hops. proxy_of url_parse tls yaml (hop_name h) = Some (hop_proxy h))"

lemma map_of_rev_distinct: "distinct (map fst xs) \<Longrightarrow> map_of (rev xs) = map_of xs"
  by (subst map_of_inject_set) (auto simp: rev_map [symmetric])

lemma parse_proxies_proxy_of:
  assumes "parse_proxies (parse_proxy url_parse tls) [] (proxies yaml) = Inr px" "distinct (map fst (proxies yaml))"
  shows "map_of px = proxy_of url_parse tls yaml"
  using parse_proxies_map [OF assms(1)] map_of_rev_distinct [OF assms(2)]
  by (auto simp: proxy_of_def fun_eq_iff split: option.splits sum.splits)

lemma resolve_hops_for:
  "map_of px = proxy_of url_parse tls yaml \<Longrightarrow> resolve px names = Inr hops \<longleftrightarrow> hops_for url_parse tls yaml names hops"
  by (simp add: resolve_Inr hops_for_def)

lemma from_yaml_Inr:
  assumes "from_yaml url_parse tls siphash yaml = Inr rt"
  obtains px b where "parse_proxies (parse_proxy url_parse tls) [] (proxies yaml) = Inr px"
    "build_rules px \<lparr>b_rules = [], b_default = None, b_hostnames = [], b_seen = {}\<rparr> (rules yaml) = Inr b"
    "b_default b = Some (fallback (routing rt))" "fallback (routing rt) \<noteq> []" "table (routing rt) = b_rules b"
    "hostnames rt = sort_key to_ascii_lowercase (b_hostnames b)" "fingerprint rt = routing_fingerprint siphash yaml"
proof -
  from assms obtain px b def where x: "parse_proxies (parse_proxy url_parse tls) [] (proxies yaml) = Inr px"
    "build_rules px \<lparr>b_rules = [], b_default = None, b_hostnames = [], b_seen = {}\<rparr> (rules yaml) = Inr b"
    "b_default b = Some def" "def \<noteq> []"
    "rt = \<lparr>routing = \<lparr>table = b_rules b, fallback = def\<rparr>,
                 hostnames = sort_key to_ascii_lowercase (b_hostnames b),
                 fingerprint = routing_fingerprint siphash yaml\<rparr>"
    by (auto simp: from_yaml_def try_res_eq_Inr split: if_splits)
  show thesis by (rule that [of px b]) (use x in simp_all)
qed

lemma entriesD: "map_of (rev (entries rs)) h = Some ns \<Longrightarrow> \<exists>k. (k, ProxyRef ns) \<in> set rs \<and> \<not> is_default k \<and> to_ascii_lowercase k = h"
proof -
  assume "map_of (rev (entries rs)) h = Some ns"
  then have "(h, ns) \<in> set (entries rs)" using map_of_SomeD by fastforce
  then show ?thesis by (auto simp: entries_def split: proxy_ref.splits)
qed

lemma entries_None: "map_of (rev (entries rs)) h = None \<Longrightarrow> (k, r) \<in> set rs \<Longrightarrow> \<not> is_default k \<Longrightarrow> to_ascii_lowercase k \<noteq> h"
  by (force simp: entries_def map_of_eq_None_iff)

lemma defaultsD: "ns \<in> set (defaults rs) \<Longrightarrow> \<exists>k. (k, ProxyRef ns) \<in> set rs \<and> is_default k"
  by (auto simp: defaults_def split: proxy_ref.splits)

lemma lookup_names:
  assumes "from_yaml url_parse tls siphash yaml = Inr rt" "wf_config yaml"
  shows "lookup (routing rt) h \<noteq> [] \<and>
    (\<exists>key names. (key, ProxyRef names) \<in> set (rules yaml) \<and> hops_for url_parse tls yaml names (lookup (routing rt) h) \<and>
      (if \<exists>(k, _) \<in> set (rules yaml). \<not> is_default k \<and> eq_ignore_ascii_case k (trim_end_matches 46 h)
       then \<not> is_default key \<and> eq_ignore_ascii_case key (trim_end_matches 46 h)
       else is_default key))"
proof -
  obtain px b where x: "parse_proxies (parse_proxy url_parse tls) [] (proxies yaml) = Inr px"
    "build_rules px \<lparr>b_rules = [], b_default = None, b_hostnames = [], b_seen = {}\<rparr> (rules yaml) = Inr b"
    "b_default b = Some (fallback (routing rt))" "table (routing rt) = b_rules b"
    using from_yaml_Inr [OF assms(1)] by metis
  let ?h = "to_ascii_lowercase (trim_end_matches 46 h)"
  note t = build_rules_table [OF x(2), of ?h]
  have w: "distinct (map fst (proxies yaml))" "\<forall>(k, r) \<in> set (rules yaml). wf_ref r" using assms(2) by (auto simp: wf_config_def)
  note r = resolve_hops_for [OF parse_proxies_proxy_of [OF x(1) w(1)]]
  have ne: "lookup (routing rt) h \<noteq> []"
    if "(key, ProxyRef names) \<in> set (rules yaml)" "hops_for url_parse tls yaml names (lookup (routing rt) h)" for key names
    using w(2) that by (fastforce simp: wf_ref_def hops_for_def)
  show ?thesis
  proof (cases "map_of (rev (entries (rules yaml))) ?h")
    case None
    with t x(4) have l: "lookup (routing rt) h = fallback (routing rt)" by (simp add: lookup_def Let_def)
    have d: "defaults (rules yaml) \<noteq> []" "resolve px (last (defaults (rules yaml))) = Inr (fallback (routing rt))"
      using t x(3) by (auto split: if_splits)
    obtain key where k: "(key, ProxyRef (last (defaults (rules yaml)))) \<in> set (rules yaml)" "is_default key"
      using defaultsD [OF last_in_set [OF d(1)]] by blast
    have "\<not> (\<exists>(k, _) \<in> set (rules yaml). \<not> is_default k \<and> eq_ignore_ascii_case k (trim_end_matches 46 h))"
      using entries_None [OF None] by (auto simp: eq_ignore_ascii_case_iff)
    with k d(2) l r ne show ?thesis by auto
  next
    case (Some names)
    with t have res: "map_option Inr (map_of (b_rules b) ?h) = Some (resolve px names)" by simp
    then obtain hops where hops: "map_of (b_rules b) ?h = Some hops" "resolve px names = Inr hops" by auto
    with x(4) have l: "lookup (routing rt) h = hops" by (simp add: lookup_def Let_def)
    obtain key where k: "(key, ProxyRef names) \<in> set (rules yaml)" "\<not> is_default key" "to_ascii_lowercase key = ?h"
      using entriesD [OF Some] by blast
    have m: "\<exists>(k, _) \<in> set (rules yaml). \<not> is_default k \<and> eq_ignore_ascii_case k (trim_end_matches 46 h)"
      using k by (auto simp: eq_ignore_ascii_case_iff)
    have "hops_for url_parse tls yaml names (lookup (routing rt) h)" using hops(2) l r by simp
    with k m ne show ?thesis by (auto simp: eq_ignore_ascii_case_iff)
  qed
qed

text \<open>
  C7: A host is sent to the proxies of a rule for it, compared without case and without trailing
  dots, in the order the rule names them; a host without a rule is sent to those of the default
  rule; and there is always at least one.
\<close>

theorem lookup_rule:
  assumes "from_yaml url_parse tls siphash yaml = Inr rt" "wf_config yaml"
  shows "lookup (routing rt) h \<noteq> [] \<and>
    (\<exists>key names. (key, ProxyRef names) \<in> set (rules yaml) \<and> hops_for url_parse tls yaml names (lookup (routing rt) h) \<and>
      (if \<exists>(k, _) \<in> set (rules yaml). \<not> is_default k \<and> eq_ignore_ascii_case k (trim_end_matches 46 h)
       then \<not> is_default key \<and> eq_ignore_ascii_case key (trim_end_matches 46 h)
       else is_default key))"
  by (rule lookup_names [OF assms])

definition sample_url_parse :: "str \<Rightarrow> url_parts result" where
  "sample_url_parse u = Inr \<lparr>url_scheme = lit ''http'', url_host_str = Some u, url_port_or_known_default = Some 80,
     url_username = [], url_password = None\<rparr>"

definition sample_runtime :: "unit runtime" where
  "sample_runtime = projr (from_yaml sample_url_parse () (\<lambda>_. 0) sample_config)"

lemma sample_runtime: "from_yaml sample_url_parse () (\<lambda>_. 0) sample_config = Inr sample_runtime" "wf_config sample_config"
proof -
  have "\<not> isl (from_yaml sample_url_parse () (\<lambda>_. 0) sample_config)" by code_simp
  then show "from_yaml sample_url_parse () (\<lambda>_. 0) sample_config = Inr sample_runtime"
    unfolding sample_runtime_def by (cases "from_yaml sample_url_parse () (\<lambda>_. 0) sample_config") simp_all
  show "wf_config sample_config" by code_simp
qed

theorem lookup_rule_witness:
  "lookup (routing sample_runtime) (lit ''WWW.example.com.'') \<noteq> [] \<and>
    (\<exists>key names. (key, ProxyRef names) \<in> set (rules sample_config) \<and>
      hops_for sample_url_parse () sample_config names (lookup (routing sample_runtime) (lit ''WWW.example.com.'')) \<and>
      \<not> is_default key \<and> eq_ignore_ascii_case key (trim_end_matches 46 (lit ''WWW.example.com.'')))"
proof -
  have "\<exists>(k, _) \<in> set (rules sample_config). \<not> is_default k \<and> eq_ignore_ascii_case k (trim_end_matches 46 (lit ''WWW.example.com.''))"
    by code_simp
  with lookup_rule [OF sample_runtime, of "lit ''WWW.example.com.''"] show ?thesis by (simp only: if_True simp_thms)
qed

text \<open>
  Lookups do not see the difference between a host and the same host in other letters, or with
  dots behind it.
\<close>

lemma lookup_normalises:
  assumes "eq_ignore_ascii_case (trim_end_matches 46 a) (trim_end_matches 46 b)"
  shows "lookup r a = lookup r b"
  using assms by (simp add: lookup_def eq_ignore_ascii_case_iff)

lemma default_lower: "to_ascii_lowercase (lit ''default'') = lit ''default''"
  by code_simp

lemma from_yaml_hostnames:
  assumes "from_yaml url_parse tls siphash yaml = Inr rt"
  shows "sorted (map to_ascii_lowercase (hostnames rt))" "distinct (map to_ascii_lowercase (hostnames rt))"
    "\<forall>n \<in> set (hostnames rt). is_valid_hostname n \<and> \<not> is_default n \<and> n \<in> fst ` set (rules yaml)"
    "to_ascii_lowercase ` set (hostnames rt) = fst ` set (entries (rules yaml))"
proof -
  obtain px b where px: "parse_proxies (parse_proxy url_parse tls) [] (proxies yaml) = Inr px"
    and x: "build_rules px \<lparr>b_rules = [], b_default = None, b_hostnames = [], b_seen = {}\<rparr> (rules yaml) = Inr b"
    "hostnames rt = sort_key to_ascii_lowercase (b_hostnames b)"
    by (rule from_yaml_Inr [OF assms]) blast
  note h = build_rules_hostnames [OF x(1), simplified]
  have m: "mset (map to_ascii_lowercase (hostnames rt)) = mset (map to_ascii_lowercase (b_hostnames b))" using x(2) by simp
  then show "distinct (map to_ascii_lowercase (hostnames rt))" using h mset_eq_imp_distinct_iff by blast
  show "sorted (map to_ascii_lowercase (hostnames rt))" using x(2) by simp
  show "\<forall>n \<in> set (hostnames rt). is_valid_hostname n \<and> \<not> is_default n \<and> n \<in> fst ` set (rules yaml)" using h x(2) by auto
  show "to_ascii_lowercase ` set (hostnames rt) = fst ` set (entries (rules yaml))" using h x(2) by simp
qed

text \<open>
  C29: The host names published are those of the rules: sorted, one for each rule host without
  regard to case, each spelt as in a rule, never the default, and every one a valid host name, as
  the hosts file needs them.
\<close>

theorem hostnames_published:
  assumes "from_yaml url_parse tls siphash yaml = Inr rt"
  shows "sorted (map to_ascii_lowercase (hostnames rt)) \<and> distinct (map to_ascii_lowercase (hostnames rt)) \<and>
     (\<forall>n \<in> set (hostnames rt). is_valid_hostname n \<and> \<not> is_default n \<and> n \<in> fst ` set (rules yaml)) \<and>
     to_ascii_lowercase ` set (hostnames rt) = {to_ascii_lowercase k | k r. (k, r) \<in> set (rules yaml) \<and> \<not> is_default k}"
proof -
  have "fst ` set (entries (rules yaml)) = {to_ascii_lowercase k | k r. (k, r) \<in> set (rules yaml) \<and> \<not> is_default k}"
    by (force simp: entries_def)
  with from_yaml_hostnames [OF assms] show ?thesis by simp
qed

theorem hostnames_published_witness:
  "sorted (map to_ascii_lowercase (hostnames sample_runtime)) \<and> list_all is_valid_hostname (hostnames sample_runtime)"
  using hostnames_published [OF sample_runtime(1)] by (simp add: list_all_iff)

section \<open>The order of iteration\<close>

text \<open>Without two keys that differ only in case, the rules of a table are those of the set of entries.\<close>

lemma entries_keys: "fst ` set (entries rs) \<subseteq> (\<lambda>e. to_ascii_lowercase (fst e)) ` set rs"
  by (force simp: entries_def)

lemma entries_distinct: "distinct (map (\<lambda>e. to_ascii_lowercase (fst e)) rs) \<Longrightarrow> distinct (map fst (entries rs))"
proof (induction rs)
  case (Cons e rs)
  obtain k ns where e: "e = (k, ProxyRef ns)" by (metis proxy_ref.exhaust surj_pair)
  with Cons entries_keys [of rs] show ?case by (auto simp: entries_Cons)
qed (simp add: entries_def)

lemma defaults_single:
  assumes "distinct (map (\<lambda>e. to_ascii_lowercase (fst e)) rs)"
  shows "length (defaults rs) \<le> 1"
  using assms
proof (induction rs)
  case (Cons e rs)
  have "defaults rs = []" if "is_default (fst e)"
  proof -
    have "to_ascii_lowercase (fst e') \<noteq> to_ascii_lowercase (fst e)" if "e' \<in> set rs" for e'
      using Cons.prems that by (auto simp: image_iff)
    then show ?thesis using that
      by (auto simp: defaults_def filter_empty_conv is_default_def eq_ignore_ascii_case_iff)
  qed
  with Cons show ?case by (cases e) (auto simp: defaults_def split: if_splits)
qed (simp add: defaults_def)

lemma distinct_map_perm: "mset xs = mset ys \<Longrightarrow> distinct (map f ys) \<Longrightarrow> distinct (map f xs)"
  using mset_eq_imp_distinct_iff [of "map f xs" "map f ys"] by simp

lemma entries_perm:
  assumes "mset rs' = mset rs" "distinct (map (\<lambda>e. to_ascii_lowercase (fst e)) rs)"
  shows "map_of (rev (entries rs')) = map_of (rev (entries rs))" "defaults rs' = defaults rs"
proof -
  have m: "mset (entries rs') = mset (entries rs)" "mset (defaults rs') = mset (defaults rs)"
    using assms(1) by (simp_all add: entries_def defaults_def)
  have d: "distinct (map fst (entries rs))" by (rule entries_distinct [OF assms(2)])
  then have d': "distinct (map fst (entries rs'))" by (rule distinct_map_perm [OF m(1)])
  have "set (entries rs') = set (entries rs)" using m(1) by (rule mset_eq_setD)
  with d d' show "map_of (rev (entries rs')) = map_of (rev (entries rs))"
    by (simp add: map_of_rev_distinct map_of_inject_set)
  have "length (defaults rs) \<le> 1" by (rule defaults_single [OF assms(2)])
  then show "defaults rs' = defaults rs" using m(2)
    by (cases "defaults rs") (auto simp: Suc_le_eq)
qed

lemma build_rules_hostnames_distinct:
  "build_rules px b rs = Inr b' \<Longrightarrow> distinct (map (\<lambda>e. to_ascii_lowercase (fst e)) rs) \<Longrightarrow>
     \<forall>e \<in> set rs. to_ascii_lowercase (fst e) \<notin> b_seen b \<Longrightarrow>
     b_hostnames b' = b_hostnames b @ map fst (filter (\<lambda>(k, _). \<not> is_default k) rs)"
proof (induction px b rs rule: build_rules.induct)
  case (2 px b key names rs)
  show ?case
  proof (cases "is_default key")
    case True
    with "2.prems" obtain hops where h: "build_rules px (b\<lparr>b_default := Some hops\<rparr>) rs = Inr b'"
      by (auto simp: try_res_eq_Inr)
    from "2.IH"(1) [OF True h] "2.prems" True show ?thesis by simp
  next
    case False
    with "2.prems" obtain hops where h: "is_valid_hostname key" "build_rules px (add_rule key hops b) rs = Inr b'"
      by (auto simp: try_res_eq_Inr split: if_splits)
    from h(1) have "\<not> \<not> is_valid_hostname key" by simp
    from "2.IH"(2) [OF False this h(2)] "2.prems" False show ?thesis by force
  qed
qed simp

lemma sort_key_perm:
  "mset xs = mset ys \<Longrightarrow> distinct (map f xs) \<Longrightarrow> sort_key f xs = sort_key f ys"
  by (rule sort_key_inj_key_eq) (auto simp: distinct_map)

lemma parse_proxies_perm:
  assumes "parse_proxies parse [] ys = Inr px" "mset xs = mset ys" "distinct (map fst ys)"
  obtains px' where "parse_proxies parse [] xs = Inr px'" "map_of px' = map_of px"
proof -
  have d: "distinct (map fst xs)" by (rule distinct_map_perm [OF assms(2,3)])
  have s: "set xs = set ys" by (rule mset_eq_setD [OF assms(2)])
  have "\<forall>e \<in> set xs. \<exists>p. parse (snd e) = Inr p" unfolding s using parse_proxies_Inr [OF assms(1)] by simp
  from parse_proxies_total [OF this, of "[]"] obtain px' where px': "parse_proxies parse [] xs = Inr px'" by auto
  have "map_of px' = map_of px"
    using parse_proxies_map [OF px'] parse_proxies_map [OF assms(1)] map_of_rev_distinct [OF d] map_of_rev_distinct [OF assms(3)]
      d assms(3) s by (auto simp: fun_eq_iff map_of_inject_set [symmetric])
  with px' that show thesis by blast
qed

text \<open>
  C28: Where no two rules differ only in the case of their key, the routing built from a
  configuration does not depend on the order the hash maps of proxies and rules are iterated in:
  it fails in every order or in none, every lookup gives the same hops, and the published names
  and the fingerprint are the same.
\<close>

theorem from_yaml_any_order:
  assumes "wf_config yaml" "distinct (map (\<lambda>e. to_ascii_lowercase (fst e)) (rules yaml))"
    and "mset ps = mset (proxies yaml)" "mset rs = mset (rules yaml)"
    and "from_yaml url_parse tls siphash yaml = Inr rt"
  shows "\<exists>rt'. from_yaml url_parse tls siphash (yaml\<lparr>proxies := ps, rules := rs\<rparr>) = Inr rt' \<and>
           (\<forall>h. lookup (routing rt') h = lookup (routing rt) h) \<and> hostnames rt' = hostnames rt \<and>
           fingerprint rt' = fingerprint rt"
proof -
  let ?b0 = "\<lparr>b_rules = [], b_default = None, b_hostnames = [], b_seen = {}\<rparr>" and ?yaml = "yaml\<lparr>proxies := ps, rules := rs\<rparr>"
  obtain px b where x: "parse_proxies (parse_proxy url_parse tls) [] (proxies yaml) = Inr px"
    "build_rules px ?b0 (rules yaml) = Inr b" "b_default b = Some (fallback (routing rt))" "fallback (routing rt) \<noteq> []"
    "table (routing rt) = b_rules b" "hostnames rt = sort_key to_ascii_lowercase (b_hostnames b)"
    "fingerprint rt = routing_fingerprint siphash yaml"
    by (rule from_yaml_Inr [OF assms(5)]) blast
  have dp: "distinct (map fst (proxies yaml))" using assms(1) by (simp add: wf_config_def)
  then have dp': "distinct (map fst ps)" by (rule distinct_map_perm [OF assms(3)])
  have sets: "set ps = set (proxies yaml)" "set rs = set (rules yaml)" by (rule mset_eq_setD [OF assms(3)], rule mset_eq_setD [OF assms(4)])
  have dr: "distinct (map (\<lambda>e. to_ascii_lowercase (fst e)) rs)" by (rule distinct_map_perm [OF assms(4,2)])
  obtain px' where px': "parse_proxies (parse_proxy url_parse tls) [] ps = Inr px'" and mp: "map_of px' = map_of px"
    by (rule parse_proxies_perm [OF x(1) assms(3) dp])
  note res = resolve_cong [OF mp]
  note t = build_rules_table [OF x(2)]
  obtain b' where b': "build_rules px' ?b0 rs = Inr b'"
    using build_rules_total [of rs px' ?b0] t sets(2) res by auto
  note perm = entries_perm [OF assms(4,2)]
  note d = build_rules_same(1) [OF x(2) b' mp perm] and m = build_rules_same(2) [OF x(2) b' mp perm]
  have hn: "b_hostnames b' = map fst (filter (\<lambda>(k, _). \<not> is_default k) rs)"
    "b_hostnames b = map fst (filter (\<lambda>(k, _). \<not> is_default k) (rules yaml))"
    using build_rules_hostnames_distinct [OF b' dr] build_rules_hostnames_distinct [OF x(2) assms(2)] by simp_all
  have "mset (b_hostnames b') = mset (b_hostnames b)" unfolding hn using assms(4) by simp
  moreover have "distinct (map to_ascii_lowercase (b_hostnames b'))"
    using build_rules_hostnames [OF b'] by simp
  ultimately have s: "sort_key to_ascii_lowercase (b_hostnames b') = sort_key to_ascii_lowercase (b_hostnames b)"
    by (rule sort_key_perm)
  have f: "fingerprint_stream ?yaml = fingerprint_stream yaml"
    using sort_key_perm [OF assms(3) dp'] sort_key_perm [OF assms(4) dr] by (simp add: fingerprint_stream_def)
  have "from_yaml url_parse tls siphash ?yaml = Inr \<lparr>routing = \<lparr>table = b_rules b', fallback = fallback (routing rt)\<rparr>,
      hostnames = sort_key to_ascii_lowercase (b_hostnames b'), fingerprint = routing_fingerprint siphash ?yaml\<rparr>"
    using px' b' d x(3,4) by (simp add: from_yaml_def)
  then show ?thesis using m x(5-7) s f by (simp add: lookup_def routing_fingerprint_def split: option.splits)
qed

theorem from_yaml_any_order_witness:
  "\<exists>rt'. from_yaml sample_url_parse () (\<lambda>_. 0)
       (sample_config\<lparr>proxies := rev (proxies sample_config), rules := rev (rules sample_config)\<rparr>) = Inr rt' \<and>
     (\<forall>h. lookup (routing rt') h = lookup (routing sample_runtime) h) \<and> hostnames rt' = hostnames sample_runtime"
proof -
  have "distinct (map (\<lambda>e. to_ascii_lowercase (fst e)) (rules sample_config))" by code_simp
  from from_yaml_any_order [OF sample_runtime(2) this _ _ sample_runtime(1), of "rev (proxies sample_config)" "rev (rules sample_config)"]
  show ?thesis by auto
qed






section \<open>Fallback\<close>

lemma fallback_loop_result:
  "fallback_loop net b64 target hops last_err =
     (case find (\<lambda>h. \<not> isl (fst (connect net b64 (hop_proxy h) target))) hops of
        Some h \<Rightarrow> fst (connect net b64 (hop_proxy h) target)
      | None \<Rightarrow> (if hops = [] then Inl (case last_err of Some e \<Rightarrow> e | None \<Rightarrow> Msg (lit ''no proxy candidates''))
                else fst (connect net b64 (hop_proxy (last hops)) target)),
      sum_list (map (\<lambda>h. snd (connect net b64 (hop_proxy h) target))
        (let failed = takeWhile (\<lambda>h. isl (fst (connect net b64 (hop_proxy h) target))) hops
         in take (Suc (length failed)) hops)),
      map hop_name (takeWhile (\<lambda>h. isl (fst (connect net b64 (hop_proxy h) target))) hops))"
proof (induction hops arbitrary: last_err)
  case (Cons h hops)
  obtain r t where c: "connect net b64 (hop_proxy h) target = (r, t)" by (cases "connect net b64 (hop_proxy h) target")
  show ?case
  proof (cases r)
    case (Inl e)
    with c Cons [of "Some e"] show ?thesis by (auto simp: Let_def split: option.splits)
  next
    case (Inr s)
    with c show ?thesis by (simp add: Let_def)
  qed
qed simp

lemma fallback_time: "connect_with_fallback net b64 hops target = (r, t, warned) \<Longrightarrow> t \<le> 30000 * length hops"
proof -
  assume a: "connect_with_fallback net b64 hops target = (r, t, warned)"
  note eq = a [unfolded connect_with_fallback_def fallback_loop_result, symmetric]
  have c: "snd (connect net b64 (hop_proxy h) target) \<le> 30000" for h
    using connect_time [of net b64 "hop_proxy h" target] by (simp split: if_splits)
  have "sum_list (map (\<lambda>h. snd (connect net b64 (hop_proxy h) target)) hs) \<le> 30000 * length hs" for hs
    by (induction hs) (use c in \<open>auto intro: add_mono\<close>)
  from this [of "take (Suc (length (takeWhile (\<lambda>h. isl (fst (connect net b64 (hop_proxy h) target))) hops))) hops"]
  show "t \<le> 30000 * length hops" using eq by (auto simp: Let_def intro: order_trans)
qed

lemma fallback_outcome:
  assumes "connect_with_fallback net b64 hops target = (r, t, warned)"
  shows "(case r of
            Inr s \<Rightarrow> \<exists>before h behind. hops = before @ h # behind \<and> fst (connect net b64 (hop_proxy h) target) = Inr s \<and>
                 (\<forall>x \<in> set before. isl (fst (connect net b64 (hop_proxy x) target))) \<and> warned = map hop_name before
          | Inl e \<Rightarrow> (\<forall>x \<in> set hops. isl (fst (connect net b64 (hop_proxy x) target))) \<and> warned = map hop_name hops \<and>
                 (hops \<noteq> [] \<longrightarrow> fst (connect net b64 (hop_proxy (last hops)) target) = Inl e)) \<and>
         t \<le> 30000 * length hops"
proof -
  let ?P = "\<lambda>h. isl (fst (connect net b64 (hop_proxy h) target))"
  note eq = assms [unfolded connect_with_fallback_def fallback_loop_result, symmetric]
  note t = fallback_time [OF assms]
  show ?thesis
  proof (cases "find (\<lambda>h. \<not> ?P h) hops")
    case None
    then have all: "\<forall>x \<in> set hops. ?P x" by (auto simp: find_None_iff)
    then have tw: "takeWhile ?P hops = hops" by simp
    show ?thesis
    proof (cases "hops = []")
      case True
      with eq t show ?thesis by auto
    next
      case False
      then obtain e where "fst (connect net b64 (hop_proxy (last hops)) target) = Inl e"
        using all last_in_set [OF False] by (meson isl_def)
      with False all None eq t show ?thesis by (auto simp: tw)
    qed
  next
    case (Some h)
    then obtain i where i: "i < length hops" "\<not> ?P h" "h = hops ! i" "\<forall>j < i. ?P (hops ! j)"
      by (auto simp: find_Some_iff)
    then have tw: "takeWhile ?P hops = take i hops" by (intro takeWhile_eq_take_P_nth) auto
    have "hops = take i hops @ h # drop (Suc i) hops" using i by (simp add: id_take_nth_drop)
    moreover have "\<forall>x \<in> set (take i hops). ?P x" using i by (auto simp: in_set_conv_nth)
    moreover obtain s where "fst (connect net b64 (hop_proxy h) target) = Inr s"
      using i(2) by (cases "fst (connect net b64 (hop_proxy h) target)") auto
    ultimately show ?thesis using Some tw eq t by auto
  qed
qed

lemma fallback_Inr:
  assumes "fst (connect_with_fallback net b64 hops target) = Inr up"
  obtains before hop behind where "hops = before @ hop # behind" "fst (connect net b64 (hop_proxy hop) target) = Inr up"
    "\<forall>x \<in> set before. isl (fst (connect net b64 (hop_proxy x) target))"
proof -
  obtain t w where "connect_with_fallback net b64 hops target = (Inr up, t, w)" using assms by (metis surj_pair fst_conv)
  from fallback_outcome [OF this] that show thesis by auto
qed

text \<open>
  C26: Fallback uses the first proxy of the list that can be connected to, warns about exactly the
  ones before it, and fails only if all of them fail, with the error of the last. It ends within 30
  seconds for each proxy.
\<close>

theorem fallback_first_success:
  assumes "connect_with_fallback net b64 hops target = (r, t, warned)"
  shows "(case r of
            Inr s \<Rightarrow> \<exists>before h behind. hops = before @ h # behind \<and> fst (connect net b64 (hop_proxy h) target) = Inr s \<and>
                 (\<forall>x \<in> set before. isl (fst (connect net b64 (hop_proxy x) target))) \<and> warned = map hop_name before
          | Inl e \<Rightarrow> (\<forall>x \<in> set hops. isl (fst (connect net b64 (hop_proxy x) target))) \<and> warned = map hop_name hops \<and>
                 (hops \<noteq> [] \<longrightarrow> fst (connect net b64 (hop_proxy (last hops)) target) = Inl e)) \<and>
         t \<le> 30000 * length hops"
  by (rule fallback_outcome [OF assms])

theorem fallback_first_success_witness:
  "\<exists>t warned. connect_with_fallback sample_net id
       [\<lparr>hop_name = lit ''a'', hop_proxy = http_sample\<lparr>kind := HttpsProxy\<rparr>\<rparr>] \<lparr>t_host = lit ''a.b'', t_port = 443\<rparr> =
         (bail ''HTTPS proxy connector missing'', t, warned) \<and> warned = [lit ''a''] \<and> t \<le> 30000"
proof -
  let ?p = "http_sample\<lparr>kind := HttpsProxy\<rparr>"
  have "connect sample_net id ?p \<lparr>t_host = lit ''a.b'', t_port = 443\<rparr> = (bail ''HTTPS proxy connector missing'', 5)"
    by (simp add: connect_def http_sample_def sample_net_def timeout_dial_def then_timed_def bail_def
        UPSTREAM_CONNECT_TIMEOUT_def)
  then have r: "connect_with_fallback sample_net id [\<lparr>hop_name = lit ''a'', hop_proxy = ?p\<rparr>] \<lparr>t_host = lit ''a.b'', t_port = 443\<rparr> =
      (bail ''HTTPS proxy connector missing'', 5, [lit ''a''])"
    by (simp add: connect_with_fallback_def bail_def)
  from fallback_first_success [OF this] show ?thesis by (auto simp: r bail_def)
qed

end
