(* ===== verification/Fingerprint.thy ===== *)
theory Fingerprint
  imports Router_Spec
begin

text \<open>
  The bytes the fingerprint of a configuration is the hash of: they determine the routing, so a
  reload that is skipped because the fingerprint is the same loses nothing but a hash collision.
\<close>

lemma hash_str_inject:
  assumes "0xFF \<notin> set a" "0xFF \<notin> set b" "hash_str a @ x = hash_str b @ y"
  shows "a = b \<and> x = y"
proof -
  have "split_once 0xFF (a @ 0xFF # x) = Some (a, x)" "split_once 0xFF (b @ 0xFF # y) = Some (b, y)"
    by (rule split_once_append [OF assms(1)], rule split_once_append [OF assms(2)])
  moreover have "a @ 0xFF # x = b @ 0xFF # y" using assms(3) by (simp add: hash_str_def)
  ultimately have "Some (a, x) = Some (b, y)" by (simp only:)
  then show ?thesis by simp
qed

lemma hash_strs_inject:
  assumes "length a = length b" "\<forall>s \<in> set a \<union> set b. 0xFF \<notin> set s"
    "concat (map hash_str a) @ x = concat (map hash_str b) @ y"
  shows "a = b \<and> x = y"
  using assms
proof (induction a arbitrary: b)
  case (Cons s a)
  then obtain r b' where b: "b = r # b'" by (cases b) auto
  with Cons.prems have "hash_str s @ (concat (map hash_str a) @ x) = hash_str r @ (concat (map hash_str b') @ y)" by simp
  from hash_str_inject [OF _ _ this] Cons.prems b have "s = r" "concat (map hash_str a) @ x = concat (map hash_str b') @ y" by auto
  with Cons.IH [of b'] Cons.prems b show ?case by auto
qed simp

lemma hash_usize_small: "n < 256 \<Longrightarrow> hash_usize n = of_nat n # replicate 7 0"
proof -
  assume n: "n < 256"
  have d: "drop_bit (8 * i) (of_nat n :: u64) = 0" if "0 < i" "i < 8" for i
  proof -
    have u: "unat (of_nat n :: u64) = n" using n by (simp add: unat_of_nat)
    have "(256 :: nat) = 2 ^ 8" by simp
    also have "\<dots> \<le> 2 ^ (8 * i)" using that by (intro power_increasing) auto
    finally have "n < 2 ^ (8 * i)" using n by linarith
    then have "unat (drop_bit (8 * i) (of_nat n :: u64)) = 0" by (simp only: unat_drop_bit_eq u) (simp add: drop_bit_eq_div)
    then show ?thesis by (simp add: unat_eq_0)
  qed
  have l: "[0..<8] = 0 # [1, 2, 3, 4, 5, 6, 7 :: nat]" by code_simp
  have z: "ucast (of_nat n :: u64) = (of_nat n :: u8)"
    using n by (simp add: word_unat_eq_iff unsigned_ucast_eq take_bit_eq_mod unat_of_nat)
  show ?thesis unfolding hash_usize_def l
    using d [of 1] d [of 2] d [of 3] d [of 4] d [of 5] d [of 6] d [of 7] by (simp add: z numeral_eq_Suc)
qed

definition ok_proxy :: "str \<times> str \<Rightarrow> bool" where
  "ok_proxy e \<longleftrightarrow> 0xFF \<notin> set (fst e) \<and> 0xFF \<notin> set (snd e) \<and> 0 \<notin> set (snd e)"

definition ok_rule :: "str \<times> proxy_ref \<Rightarrow> bool" where
  "ok_rule e \<longleftrightarrow> 0xFF \<notin> set (fst e) \<and> (\<forall>s \<in> set (case snd e of ProxyRef ns \<Rightarrow> ns). 0xFF \<notin> set s) \<and>
     length (case snd e of ProxyRef ns \<Rightarrow> ns) < 255"

definition lower_key :: "str \<times> proxy_ref \<Rightarrow> str \<times> proxy_ref" where
  "lower_key e = (to_ascii_lowercase (fst e), snd e)"

lemma hash_rule_inject:
  assumes "ok_rule e1" "ok_rule e2" "hash_rule e1 @ x = hash_rule e2 @ y"
  shows "lower_key e1 = lower_key e2 \<and> x = y"
proof -
  obtain k1 n1 k2 n2 where e: "e1 = (k1, ProxyRef n1)" "e2 = (k2, ProxyRef n2)"
    by (metis proxy_ref.exhaust surj_pair)
  have ff: "0xFF \<notin> set (to_ascii_lowercase k)" if "0xFF \<notin> set k" for k
    using that by (auto simp: to_ascii_lowercase_def to_lower_def split: if_splits)
  have h: "hash_str (to_ascii_lowercase k1) @ (hash_strs n1 @ x) = hash_str (to_ascii_lowercase k2) @ (hash_strs n2 @ y)"
    using assms(3) e by simp
  have k: "to_ascii_lowercase k1 = to_ascii_lowercase k2" "hash_strs n1 @ x = hash_strs n2 @ y"
    using hash_str_inject [OF _ _ h] ff assms(1,2) e by (auto simp: ok_rule_def)
  have l: "length n1 < 255" "length n2 < 255" using assms(1,2) e by (auto simp: ok_rule_def)
  then have s: "of_nat (length n1) # replicate 7 0 @ concat (map hash_str n1) @ x =
      of_nat (length n2) # replicate 7 (0 :: u8) @ concat (map hash_str n2) @ y"
    using k(2) by (simp add: hash_strs_def hash_usize_small)
  then have "unat (of_nat (length n1) :: u8) = unat (of_nat (length n2) :: u8)" by simp
  then have "length n1 = length n2" using l by (simp add: unat_of_nat8)
  moreover have "concat (map hash_str n1) @ x = concat (map hash_str n2) @ y" using s by simp
  ultimately have "n1 = n2 \<and> x = y" using hash_strs_inject [of n1 n2 x y] assms(1,2) e by (auto simp: ok_rule_def)
  with k e show ?thesis by (simp add: lower_key_def)
qed

text \<open>
  The texts a fingerprint can tell apart: valid UTF-8, no NUL in a proxy URL, and fewer than 255
  proxies in a rule, so that the length written before them cannot be read as a URL.
\<close>

definition plain_texts :: "file_config \<Rightarrow> bool" where
  "plain_texts yaml \<longleftrightarrow>
     (\<forall>(n, u) \<in> set (proxies yaml). valid_utf8 n \<and> valid_utf8 u \<and> 0 \<notin> set u) \<and>
     (\<forall>(k, r) \<in> set (rules yaml). valid_utf8 k \<and> (\<forall>s \<in> set (case r of ProxyRef ns \<Rightarrow> ns). valid_utf8 s) \<and>
        length (case r of ProxyRef ns \<Rightarrow> ns) < 255)"

lemma valid_utf8_no_ff: "valid_utf8 s \<Longrightarrow> 0xFF \<notin> set s"
  by (induction s rule: valid_utf8.induct) (auto simp: is_cont_def split: if_splits list.splits)

lemma hash_rule_neq_Nil: "hash_rule e \<noteq> []"
  by (cases e rule: hash_rule.cases) (simp add: hash_str_def)

lemma rules_inject:
  "\<forall>e \<in> set r1 \<union> set r2. ok_rule e \<Longrightarrow> concat (map hash_rule r1) = concat (map hash_rule r2) \<Longrightarrow>
     map lower_key r1 = map lower_key r2"
proof (induction r1 arbitrary: r2)
  case Nil
  then show ?case using hash_rule_neq_Nil by (cases r2) auto
next
  case (Cons e r1)
  then obtain e' r2' where r2: "r2 = e' # r2'" using hash_rule_neq_Nil by (cases r2) auto
  with Cons.prems have "hash_rule e @ concat (map hash_rule r1) = hash_rule e' @ concat (map hash_rule r2')" by simp
  from hash_rule_inject [OF _ _ this] Cons.prems(1) r2
  have "lower_key e = lower_key e'" "concat (map hash_rule r1) = concat (map hash_rule r2')" by simp_all
  with Cons.IH [of r2'] Cons.prems(1) r2 show ?case by simp
qed

text \<open>A rule in the stream is not read as a proxy: the length of its list has NUL bytes.\<close>

lemma rule_not_proxy:
  assumes "ok_rule e" "ok_proxy p"
  shows "hash_rule e @ x \<noteq> hash_proxy p @ y"
proof
  assume eq: "hash_rule e @ x = hash_proxy p @ y"
  obtain k ns n u where e: "e = (k, ProxyRef ns)" "p = (n, u)" by (metis proxy_ref.exhaust surj_pair)
  have "0xFF \<notin> set (to_ascii_lowercase k)"
    using assms(1) e by (auto simp: ok_rule_def to_ascii_lowercase_def to_lower_def split: if_splits)
  with hash_str_inject [of "to_ascii_lowercase k" n "hash_strs ns @ x" "hash_str u @ y"] eq e assms(2)
  have "hash_strs ns @ x = hash_str u @ y" by (simp add: ok_proxy_def)
  moreover have l: "length ns < 255" using assms(1) e by (simp add: ok_rule_def)
  ultimately have s: "of_nat (length ns) # (0 :: u8) # replicate 6 0 @ concat (map hash_str ns) @ x = u @ 0xFF # y"
    by (simp add: hash_strs_def hash_usize_small hash_str_def numeral_eq_Suc)
  show False
  proof (cases u)
    case Nil
    with s have "unat (of_nat (length ns) :: u8) = unat (0xFF :: u8)" by simp
    with l show False by (simp add: unat_of_nat8)
  next
    case (Cons c u')
    with s have "0 # replicate 6 0 @ concat (map hash_str ns) @ x = u' @ 0xFF # y" by simp
    with Cons assms(2) e show False by (cases u') (auto simp: ok_proxy_def)
  qed
qed

lemma stream_inject:
  "\<forall>e \<in> set p1 \<union> set p2. ok_proxy e \<Longrightarrow> \<forall>e \<in> set r1 \<union> set r2. ok_rule e \<Longrightarrow> r1 \<noteq> [] \<Longrightarrow> r2 \<noteq> [] \<Longrightarrow>
     concat (map hash_proxy p1) @ concat (map hash_rule r1) = concat (map hash_proxy p2) @ concat (map hash_rule r2) \<Longrightarrow>
     p1 = p2 \<and> map lower_key r1 = map lower_key r2"
proof (induction p1 arbitrary: p2)
  case Nil
  show ?case
  proof (cases p2)
    case (Cons p ps)
    obtain e rs where "r1 = e # rs" using Nil.prems(3) by (cases r1) auto
    with Nil.prems Cons rule_not_proxy [of e p "concat (map hash_rule rs)"] show ?thesis by auto
  next
    case no: Nil
    with Nil.prems rules_inject [of r1 r2] show ?thesis by simp
  qed
next
  case (Cons p p1)
  show ?case
  proof (cases p2)
    case Nil
    obtain e rs where "r2 = e # rs" using Cons.prems(4) by (cases r2) auto
    with Cons.prems Nil rule_not_proxy [of e p "concat (map hash_rule rs)" "concat (map hash_proxy p1) @ concat (map hash_rule r1)"]
    show ?thesis by auto
  next
    case c: (Cons q q2)
    obtain n u n' u' where pq: "p = (n, u)" "q = (n', u')" by fastforce
    let ?x = "concat (map hash_proxy p1) @ concat (map hash_rule r1)" and ?y = "concat (map hash_proxy q2) @ concat (map hash_rule r2)"
    have "hash_str n @ (hash_str u @ ?x) = hash_str n' @ (hash_str u' @ ?y)" using Cons.prems(5) c pq by simp
    from hash_str_inject [OF _ _ this] Cons.prems(1) c pq have 1: "n = n'" "hash_str u @ ?x = hash_str u' @ ?y"
      by (auto simp: ok_proxy_def)
    from hash_str_inject [OF _ _ 1(2)] Cons.prems(1) c pq have "u = u'" "?x = ?y" by (auto simp: ok_proxy_def)
    with 1 Cons.IH [of q2] Cons.prems c pq show ?thesis by auto
  qed
qed

section \<open>Fingerprints and routing\<close>

lemma lower_key_entries:
  "lower_key ` set rs = lower_key ` set rs' \<Longrightarrow> set (entries rs) = set (entries rs') \<and> set (defaults rs) = set (defaults rs')"
proof -
  let ?names = "\<lambda>r. case r of ProxyRef ns \<Rightarrow> ns"
  have e: "set (entries rs) = (\<lambda>(l, r). (l, ?names r)) ` {e \<in> lower_key ` set rs. fst e \<noteq> lit ''default''}" for rs
    by (force simp: entries_def lower_key_def is_default_def eq_ignore_ascii_case_iff default_lower)
  have d: "set (defaults rs) = (\<lambda>(l, r). ?names r) ` {e \<in> lower_key ` set rs. fst e = lit ''default''}" for rs
    by (force simp: defaults_def lower_key_def is_default_def eq_ignore_ascii_case_iff default_lower)
  show "lower_key ` set rs = lower_key ` set rs' \<Longrightarrow> ?thesis" unfolding e d by simp
qed

lemma same_stream_entries:
  assumes "fingerprint_stream y1 = fingerprint_stream y2" "wf_config y1" "wf_config y2" "plain_texts y1" "plain_texts y2"
  shows "set (proxies y1) = set (proxies y2)" "lower_key ` set (rules y1) = lower_key ` set (rules y2)"
proof -
  have ok: "\<forall>e \<in> set (proxies y). ok_proxy e" "\<forall>e \<in> set (rules y). ok_rule e" if "plain_texts y" for y
    using that valid_utf8_no_ff by (fastforce simp: plain_texts_def ok_proxy_def ok_rule_def)+
  have ne: "rules y \<noteq> []" if "wf_config y" for y using that by (auto simp: wf_config_def)
  have s: "sort_key fst (proxies y1) = sort_key fst (proxies y2)"
    "map lower_key (sort_key (\<lambda>e. to_ascii_lowercase (fst e)) (rules y1)) = map lower_key (sort_key (\<lambda>e. to_ascii_lowercase (fst e)) (rules y2))"
    using stream_inject [OF _ _ _ _ assms(1) [unfolded fingerprint_stream_def]] ok [OF assms(4)] ok [OF assms(5)]
      ne [OF assms(2)] ne [OF assms(3)] by (simp_all add: ball_Un flip: set_empty)
  show "set (proxies y1) = set (proxies y2)" using s(1) by (metis set_sort)
  show "lower_key ` set (rules y1) = lower_key ` set (rules y2)" using arg_cong [OF s(2), of set] by simp
qed

lemma stream_routing:
  assumes "fingerprint_stream y1 = fingerprint_stream y2"
    and "from_yaml url_parse tls siphash y1 = Inr r1" "from_yaml url_parse tls siphash y2 = Inr r2"
    and "wf_config y1" "wf_config y2" "plain_texts y1" "plain_texts y2"
    and "distinct (map (\<lambda>e. to_ascii_lowercase (fst e)) (rules y1))" "distinct (map (\<lambda>e. to_ascii_lowercase (fst e)) (rules y2))"
  shows "lookup (routing r1) h = lookup (routing r2) h \<and>
         map to_ascii_lowercase (hostnames r1) = map to_ascii_lowercase (hostnames r2)"
proof -
  let ?b0 = "\<lparr>b_rules = [], b_default = None, b_hostnames = [], b_seen = {}\<rparr>"
  note sp = same_stream_entries(1) [OF assms(1,4-7)]
  note ed = lower_key_entries [OF same_stream_entries(2) [OF assms(1,4-7)]]
  obtain px1 b1 where x1: "parse_proxies (parse_proxy url_parse tls) [] (proxies y1) = Inr px1"
    "build_rules px1 ?b0 (rules y1) = Inr b1" "b_default b1 = Some (fallback (routing r1))" "table (routing r1) = b_rules b1"
    by (rule from_yaml_Inr [OF assms(2)]) blast
  obtain px2 b2 where x2: "parse_proxies (parse_proxy url_parse tls) [] (proxies y2) = Inr px2"
    "build_rules px2 ?b0 (rules y2) = Inr b2" "b_default b2 = Some (fallback (routing r2))" "table (routing r2) = b_rules b2"
    by (rule from_yaml_Inr [OF assms(3)]) blast
  have dp: "distinct (map fst (proxies y1))" "distinct (map fst (proxies y2))" using assms(4,5) by (simp_all add: wf_config_def)
  then have "map_of (proxies y1) = map_of (proxies y2)" using sp by (simp add: map_of_inject_set)
  then have px: "map_of px1 = map_of px2"
    using parse_proxies_proxy_of [OF x1(1) dp(1)] parse_proxies_proxy_of [OF x2(1) dp(2)]
    by (simp add: proxy_of_def fun_eq_iff)
  have es: "map_of (rev (entries (rules y1))) = map_of (rev (entries (rules y2)))"
    using ed entries_distinct [OF assms(8)] entries_distinct [OF assms(9)] by (simp add: map_of_rev_distinct map_of_inject_set)
  have ds: "defaults (rules y1) = defaults (rules y2)"
    using ed defaults_single [OF assms(8)] defaults_single [OF assms(9)]
    by (cases "defaults (rules y1)"; cases "defaults (rules y2)") auto
  note same = build_rules_same [OF x2(2) x1(2) px es ds]
  have l: "lookup (routing r1) h = lookup (routing r2) h"
    using same x1(3,4) x2(3,4) by (simp add: lookup_def split: option.splits)
  have "to_ascii_lowercase ` set (hostnames r1) = to_ascii_lowercase ` set (hostnames r2)"
    using from_yaml_hostnames [OF assms(2)] from_yaml_hostnames [OF assms(3)] ed by simp
  then have "map to_ascii_lowercase (hostnames r1) = map to_ascii_lowercase (hostnames r2)"
    using from_yaml_hostnames [OF assms(2)] from_yaml_hostnames [OF assms(3)]
    by (intro sorted_distinct_set_unique) simp_all
  with l show ?thesis ..
qed

text \<open>
  C27: Two configurations whose fingerprints are taken over the same bytes route alike: each host is
  sent to the same hops, and the same host names are published, up to case. So a reload with the
  fingerprint of the current configuration can be skipped unless the hash collides.
\<close>

theorem same_stream_same_routing:
  assumes "fingerprint_stream y1 = fingerprint_stream y2"
    and "from_yaml url_parse tls siphash y1 = Inr r1" "from_yaml url_parse tls siphash y2 = Inr r2"
    and "wf_config y1" "wf_config y2" "plain_texts y1" "plain_texts y2"
    and "distinct (map (\<lambda>e. to_ascii_lowercase (fst e)) (rules y1))" "distinct (map (\<lambda>e. to_ascii_lowercase (fst e)) (rules y2))"
  shows "lookup (routing r1) h = lookup (routing r2) h \<and>
         map to_ascii_lowercase (hostnames r1) = map to_ascii_lowercase (hostnames r2)"
  by (rule stream_routing [OF assms])

definition respelt_config :: file_config where
  "respelt_config = sample_config\<lparr>rules := [(lit ''DEFAULT'', ProxyRef [lit ''jp'']),
     (lit ''www.Example.com'', ProxyRef [lit ''us'', lit ''jp'']), (lit ''example.COM'', ProxyRef [lit ''us''])]\<rparr>"

theorem same_stream_same_routing_witness:
  "\<exists>r2. from_yaml sample_url_parse () (\<lambda>_. 0) respelt_config = Inr r2 \<and>
     lookup (routing sample_runtime) (lit ''EXAMPLE.com'') = lookup (routing r2) (lit ''EXAMPLE.com'') \<and>
     map to_ascii_lowercase (hostnames sample_runtime) = map to_ascii_lowercase (hostnames r2)"
proof -
  have "\<not> isl (from_yaml sample_url_parse () (\<lambda>_. 0) respelt_config)" by code_simp
  then obtain r2 where r2: "from_yaml sample_url_parse () (\<lambda>_. 0) respelt_config = Inr r2"
    by (cases "from_yaml sample_url_parse () (\<lambda>_. 0) respelt_config") auto
  have "fingerprint_stream sample_config = fingerprint_stream respelt_config" "wf_config respelt_config"
    "plain_texts sample_config" "plain_texts respelt_config"
    "distinct (map (\<lambda>e. to_ascii_lowercase (fst e)) (rules sample_config))"
    "distinct (map (\<lambda>e. to_ascii_lowercase (fst e)) (rules respelt_config))" by code_simp+
  with same_stream_same_routing [OF _ sample_runtime(1) r2 sample_runtime(2)] r2 show ?thesis by blast
qed

end
