(* ===== verification/Reload_Spec.thy ===== *)
theory Reload_Spec
  imports Reload Fingerprint
begin

text \<open>
  What a reload may change, from which configuration the routing in force was built, how many fetches
  are in flight, and when reloads are started.
\<close>

section \<open>The slots\<close>

definition slots_ok :: "fetch_world \<Rightarrow> bool" where
  "slots_ok w \<longleftrightarrow> unat (current (slots w)) = length (running w) \<and> current (slots w) \<le> slots_max (slots w)"

lemma release_max [simp]: "slots_max ((release ^^ k) s) = slots_max s"
  by (induction k) (simp_all add: release_def)

lemma wait_until_now [simp]: "now (wait_until t w) = t"
  by (simp add: wait_until_def Let_def)

lemma wait_until_max [simp]: "slots_max (slots (wait_until t w)) = slots_max (slots w)"
  by (simp add: wait_until_def Let_def)

lemma wait_until_ok: "slots_ok w \<Longrightarrow> slots_ok (wait_until t w)"
proof -
  assume ok: "slots_ok w"
  let ?k = "length (filter (over t) (running w))"
  have len: "length (filter (\<lambda>r. \<not> over t r) (running w)) = length (running w) - ?k"
    using sum_length_filter_compl [of "over t" "running w"] by simp
  have "?k \<le> unat (current (slots w))" using ok by (simp add: slots_ok_def)
  with ok fetches.give_back_all [of "slots w" ?k] show ?thesis
    by (simp add: slots_ok_def wait_until_def Let_def len)
qed

lemma acquire_ok:
  "slots_ok w \<Longrightarrow> try_acquire (slots w) = Some a \<Longrightarrow> slots_ok (w\<lparr>slots := a, running := r # running w\<rparr>)"
  using fetches.acquire_some [of "slots w" a] by (simp add: slots_ok_def)

lemma acquire_release: "slots_ok w \<Longrightarrow> try_acquire (slots w) = Some a \<Longrightarrow> slots_ok (w\<lparr>slots := release a\<rparr>)"
  using fetches.acquire_give_back [of "slots w" a] by (auto simp: slots_ok_def try_acquire_def split: if_splits)

lemma fetch_ok:
  "slots_ok w \<Longrightarrow> slots_ok (snd (fetch_with_hard_timeout run d w)) \<and>
     slots_max (slots (snd (fetch_with_hard_timeout run d w))) = slots_max (slots w)"
  using acquire_ok [of w] acquire_release [of w]
  by (auto simp: fetch_with_hard_timeout_def Let_def wait_until_ok release_def try_acquire_def
      split: option.splits fetch_run.splits sum.splits if_splits)

lemma fetch_time:
  "now w \<le> now (snd (fetch_with_hard_timeout run d w)) \<and> now (snd (fetch_with_hard_timeout run d w)) \<le> now w + d"
  by (auto simp: fetch_with_hard_timeout_def Let_def split: option.splits fetch_run.splits sum.splits)

section \<open>One reload\<close>

lemma logged_simps [simp]:
  "world (logged ls s) = world s" "routes (logged ls s) = routes s" "receivers (logged ls s) = receivers s"
  "last_yaml (logged ls s) = last_yaml s" "filesys (logged ls s) = filesys s" "journal (logged ls s) = journal s @ ls"
  by (simp_all add: logged_def)

lemma apply_hosts_keeps [simp]:
  "routes (apply_hosts env rt s) = routes s" "receivers (apply_hosts env rt s) = receivers s"
  "last_yaml (apply_hosts env rt s) = last_yaml s"
  by (simp_all add: apply_hosts_def split: option.splits prod.splits)

lemma apply_hosts_world:
  "slots_ok (world s) \<Longrightarrow> slots_ok (world (apply_hosts env rt s))"
  "slots_max (slots (world (apply_hosts env rt s))) = slots_max (slots (world s))"
  "now (world s) \<le> now (world (apply_hosts env rt s))" "now (world (apply_hosts env rt s)) \<le> now (world s) + sync_ms env"
  by (simp_all add: apply_hosts_def wait_until_ok split: option.splits prod.splits)

lemma install_world: "world (install env yaml rt s) = world (apply_hosts env rt s)"
  by (simp add: install_def Let_def)

text \<open>The four ways a reload goes: no text, a text without a routing, or a routing installed.\<close>

lemma reload_once_cases:
  obtains (no_text) r w where
      "fetch_with_hard_timeout (fetch_at env (now (world s))) CONFIG_FETCH_HARD_TIMEOUT (world s) = (Inl r, w)"
      "reload_once env s = logged [case r of InFlight n \<Rightarrow> PollSkipped n | _ \<Rightarrow> PollFailed] (s\<lparr>world := w\<rparr>)"
  | (no_config) t w e where
      "fetch_with_hard_timeout (fetch_at env (now (world s))) CONFIG_FETCH_HARD_TIMEOUT (world s) = (Inr t, w)"
      "parse_yaml (serde_yaml env) t = Inl e" "reload_once env s = logged [PollFailed] (s\<lparr>world := w\<rparr>)"
  | (no_routing) t w yaml e where
      "fetch_with_hard_timeout (fetch_at env (now (world s))) CONFIG_FETCH_HARD_TIMEOUT (world s) = (Inr t, w)"
      "parse_yaml (serde_yaml env) t = Inr yaml"
      "from_yaml (url_parse env) (tls_client env) (siphash env) yaml = Inl e"
      "reload_once env s = logged (map Ignoring (warn_ignored_runtime_changes (last_yaml s) yaml) @ [PollFailed]) (s\<lparr>world := w\<rparr>)"
  | (installed) t w yaml rt where
      "fetch_with_hard_timeout (fetch_at env (now (world s))) CONFIG_FETCH_HARD_TIMEOUT (world s) = (Inr t, w)"
      "parse_yaml (serde_yaml env) t = Inr yaml"
      "from_yaml (url_parse env) (tls_client env) (siphash env) yaml = Inr rt"
      "reload_once env s =
         install env yaml rt (logged (map Ignoring (warn_ignored_runtime_changes (last_yaml s) yaml)) (s\<lparr>world := w\<rparr>))"
proof -
  obtain r w where f: "fetch_with_hard_timeout (fetch_at env (now (world s))) CONFIG_FETCH_HARD_TIMEOUT (world s) = (r, w)"
    by fastforce
  show thesis
  proof (cases r)
    case (Inl e)
    with f show thesis by (intro no_text [of e w]) (auto simp: reload_once_def split: fetch_error.splits)
  next
    case t: (Inr t)
    show thesis
    proof (cases "parse_yaml (serde_yaml env) t")
      case (Inl e)
      with f t show thesis by (intro no_config [of t w e]) (auto simp: reload_once_def Let_def)
    next
      case y: (Inr yaml)
      show thesis
      proof (cases "from_yaml (url_parse env) (tls_client env) (siphash env) yaml")
        case (Inl e)
        with f t y show thesis by (intro no_routing [of t w yaml e]) (auto simp: reload_once_def Let_def logged_def)
      next
        case (Inr rt)
        with f t y show thesis by (intro installed [of t w yaml rt]) (auto simp: reload_once_def Let_def)
      qed
    qed
  qed
qed

lemma reload_once_slots:
  assumes "slots_ok (world s)"
  shows "slots_ok (world (reload_once env s)) \<and>
    slots_max (slots (world (reload_once env s))) = slots_max (slots (world s))"
proof (cases rule: reload_once_cases [of env s])
  case (installed t w yaml rt)
  let ?s = "logged (map Ignoring (warn_ignored_runtime_changes (last_yaml s) yaml)) (s\<lparr>world := w\<rparr>)"
  from fetch_ok [OF assms, of "fetch_at env (now (world s))" CONFIG_FETCH_HARD_TIMEOUT] installed(1)
    apply_hosts_world [where s = ?s and env = env and rt = rt] show ?thesis
    unfolding installed(4) install_world by auto
qed (use fetch_ok [OF assms, of "fetch_at env (now (world s))" CONFIG_FETCH_HARD_TIMEOUT] in auto)

lemma reload_once_time:
  "now (world s) \<le> now (world (reload_once env s)) \<and>
   now (world (reload_once env s)) \<le> now (world s) + CONFIG_FETCH_HARD_TIMEOUT + sync_ms env"
proof (cases rule: reload_once_cases [of env s])
  case (installed t w yaml rt)
  let ?s = "logged (map Ignoring (warn_ignored_runtime_changes (last_yaml s) yaml)) (s\<lparr>world := w\<rparr>)"
  have w: "now (world ?s) = now w" by simp
  from fetch_time [of "world s" "fetch_at env (now (world s))" CONFIG_FETCH_HARD_TIMEOUT] installed(1)
    apply_hosts_world(3,4) [where s = ?s and env = env and rt = rt] show ?thesis
    unfolding installed(4) install_world w by auto
qed (use fetch_time [of "world s" "fetch_at env (now (world s))" CONFIG_FETCH_HARD_TIMEOUT] in auto)

section \<open>What a reload changes\<close>

fun poll_outcome :: "log \<Rightarrow> bool" where
  "poll_outcome (PollSkipped n) = True"
| "poll_outcome PollFailed = True"
| "poll_outcome (PollCompleted b) = True"
| "poll_outcome _ = False"

text \<open>The hosts file after a configuration with these host names is accepted.\<close>

definition hosts_after :: "'tls reload_env \<Rightarrow> 'tls runtime \<Rightarrow> fs \<Rightarrow> fs" where
  "hosts_after env rt f =
     (case hosts_path (settings env) of
        None \<Rightarrow> f
      | Some p \<Rightarrow> snd (sync_hosts p (listen (settings env)) (hostnames rt) f))"

lemma apply_hosts_effect:
  "filesys (apply_hosts env rt s) = hosts_after env rt (filesys s)"
  "\<exists>ls. journal (apply_hosts env rt s) = journal s @ ls \<and> filter poll_outcome ls = [] \<and> ReceiverDropped \<notin> set ls"
proof -
  show "filesys (apply_hosts env rt s) = hosts_after env rt (filesys s)"
    by (simp add: apply_hosts_def hosts_after_def split: option.splits prod.splits)
  show "\<exists>ls. journal (apply_hosts env rt s) = journal s @ ls \<and> filter poll_outcome ls = [] \<and> ReceiverDropped \<notin> set ls"
    by (cases "hosts_path (settings env)") (auto simp: apply_hosts_def split: prod.splits sum.splits bool.splits)
qed

lemma no_outcome_Ignoring [simp]: "filter poll_outcome (map Ignoring ws) = []"
  by (induction ws) auto

lemma install_journal:
  "\<exists>ls. journal (install env yaml rt s) = journal s @ ls \<and>
     filter poll_outcome ls =
       [if fingerprint (routes s) \<noteq> fingerprint rt \<and> \<not> receivers s then PollFailed
        else PollCompleted (fingerprint (routes s) \<noteq> fingerprint rt)] \<and>
     (ReceiverDropped \<in> set ls \<longleftrightarrow> fingerprint (routes s) \<noteq> fingerprint rt \<and> \<not> receivers s)"
proof -
  obtain ls where "journal (apply_hosts env rt s) = journal s @ ls" "filter poll_outcome ls = []" "ReceiverDropped \<notin> set ls"
    using apply_hosts_effect(2) by blast
  then show ?thesis by (auto simp: install_def Let_def)
qed

lemma install_effect:
  "routes (install env yaml rt s) = (if fingerprint (routes s) \<noteq> fingerprint rt \<and> receivers s then rt else routes s)"
  "last_yaml (install env yaml rt s) = (if fingerprint (routes s) \<noteq> fingerprint rt \<and> \<not> receivers s then last_yaml s else yaml)"
  "filesys (install env yaml rt s) = hosts_after env rt (filesys s)"
  by (auto simp: install_def Let_def apply_hosts_effect)

text \<open>
  C10: A reload logs exactly one outcome. Unless that is its completion, the routing, the remembered
  configuration and, as long as there are receivers, the hosts file stay what they were: a skipped
  or timed-out fetch, a fetch that fails or a text that is not a configuration cost nothing. If it
  completes, the configuration fetched is remembered, its routing is installed if the fingerprints
  differ, and the hosts file is synchronised with its host names.
\<close>

theorem reload_outcome:
  "\<exists>ls out. journal (reload_once env s) = journal s @ ls \<and> filter poll_outcome ls = [out] \<and>
     (case out of
        PollCompleted changed \<Rightarrow>
          \<exists>t w yaml rt.
            fetch_with_hard_timeout (fetch_at env (now (world s))) CONFIG_FETCH_HARD_TIMEOUT (world s) = (Inr t, w) \<and>
            parse_yaml (serde_yaml env) t = Inr yaml \<and>
            from_yaml (url_parse env) (tls_client env) (siphash env) yaml = Inr rt \<and>
            changed = (fingerprint (routes s) \<noteq> fingerprint rt) \<and>
            routes (reload_once env s) = (if changed then rt else routes s) \<and>
            last_yaml (reload_once env s) = yaml \<and>
            filesys (reload_once env s) = hosts_after env rt (filesys s)
      | _ \<Rightarrow>
          routes (reload_once env s) = routes s \<and> last_yaml (reload_once env s) = last_yaml s \<and>
          (filesys (reload_once env s) = filesys s \<or> ReceiverDropped \<in> set ls))"
proof (cases rule: reload_once_cases [of env s])
  case (no_text r w)
  then show ?thesis by (cases r) auto
next
  case (no_config t w e)
  then show ?thesis by (intro exI [of _ "[PollFailed]"] exI [of _ PollFailed]) simp
next
  case (no_routing t w yaml e)
  show ?thesis unfolding no_routing(4)
    by (intro exI [of _ "map Ignoring (warn_ignored_runtime_changes (last_yaml s) yaml) @ [PollFailed]"] exI [of _ PollFailed]) simp
next
  case (installed t w yaml rt)
  let ?ws = "map Ignoring (warn_ignored_runtime_changes (last_yaml s) yaml)"
  let ?s = "logged ?ws (s\<lparr>world := w\<rparr>)"
  obtain ls where ls: "journal (install env yaml rt ?s) = journal ?s @ ls"
    "filter poll_outcome ls = [if fingerprint (routes ?s) \<noteq> fingerprint rt \<and> \<not> receivers ?s then PollFailed
        else PollCompleted (fingerprint (routes ?s) \<noteq> fingerprint rt)]"
    "ReceiverDropped \<in> set ls \<longleftrightarrow> fingerprint (routes ?s) \<noteq> fingerprint rt \<and> \<not> receivers ?s"
    using install_journal by blast
  have j: "journal (reload_once env s) = journal s @ (?ws @ ls)" "filter poll_outcome (?ws @ ls) = filter poll_outcome ls"
    using ls(1) installed(4) by simp_all
  show ?thesis
  proof (cases "fingerprint (routes s) \<noteq> fingerprint rt \<and> \<not> receivers s")
    case True
    with j ls(2,3) install_effect [of env yaml rt ?s] installed(4) show ?thesis
      by (intro exI [of _ "?ws @ ls"] exI [of _ PollFailed]) auto
  next
    case False
    with j ls(2) install_effect [of env yaml rt ?s] installed show ?thesis
      by (intro exI [of _ "?ws @ ls"] exI [of _ "PollCompleted (fingerprint (routes s) \<noteq> fingerprint rt)"])
        (auto simp del: filter_append)
  qed
qed

text \<open>A fetch gives a text exactly when there is a free slot and its thread delivers it in time.\<close>

lemma fetch_Inr:
  assumes "slots_ok w"
  shows "(\<exists>w'. fetch_with_hard_timeout run d w = (Inr t, w')) \<longleftrightarrow>
           length (running w) < unat (slots_max (slots w)) \<and> (\<exists>u \<le> d. run = Finishes u (Inr t))"
proof (cases "try_acquire (slots w)")
  case None
  with assms fetches.acquire_none [of "slots w"] show ?thesis by (simp add: fetch_with_hard_timeout_def slots_ok_def)
next
  case (Some a)
  with assms fetches.acquire_none [of "slots w"] have "length (running w) < unat (slots_max (slots w))"
    by (auto simp: slots_ok_def)
  with Some show ?thesis
    by (auto simp: fetch_with_hard_timeout_def Let_def split: fetch_run.splits sum.splits)
qed

text \<open>
  C17: A reload completes exactly when a slot is free, the fetch thread delivers within fifteen
  seconds a text that parses and whose routing can be built, and the routing has receivers or is
  the current one.
\<close>

theorem reload_completes_iff:
  assumes "slots_ok (world s)"
  shows "(\<exists>ls changed. journal (reload_once env s) = journal s @ ls \<and> filter poll_outcome ls = [PollCompleted changed]) \<longleftrightarrow>
     length (running (world s)) < unat (slots_max (slots (world s))) \<and>
     (\<exists>d t yaml rt. fetch_at env (now (world s)) = Finishes d (Inr t) \<and> d \<le> 15000 \<and>
        parse_yaml (serde_yaml env) t = Inr yaml \<and>
        from_yaml (url_parse env) (tls_client env) (siphash env) yaml = Inr rt \<and>
        (receivers s \<or> fingerprint (routes s) = fingerprint rt))"
    (is "?completes \<longleftrightarrow> ?good")
proof -
  note f = fetch_Inr [OF assms, of "fetch_at env (now (world s))" CONFIG_FETCH_HARD_TIMEOUT]
  note T = CONFIG_FETCH_HARD_TIMEOUT_def
  show ?thesis
  proof (cases rule: reload_once_cases [of env s])
    case (no_text r w)
    then have "\<not> ?completes" by (cases r) auto
    moreover have "\<not> ?good" using f no_text(1) by (auto simp: T)
    ultimately show ?thesis by blast
  next
    case (no_config t w e)
    then have "\<not> ?completes" by auto
    moreover have "\<not> ?good" using f [of t] no_config(1,2) by auto
    ultimately show ?thesis by blast
  next
    case (no_routing t w yaml e)
    then have "\<not> ?completes" by auto
    moreover have "\<not> ?good" using f [of t] no_routing(1-3) by auto
    ultimately show ?thesis by blast
  next
    case (installed t w yaml rt)
    let ?s = "logged (map Ignoring (warn_ignored_runtime_changes (last_yaml s) yaml)) (s\<lparr>world := w\<rparr>)"
    have "?completes \<longleftrightarrow> receivers s \<or> fingerprint (routes s) = fingerprint rt"
      using install_journal [of env yaml rt ?s] installed(4) by auto
    moreover have "?good \<longleftrightarrow> receivers s \<or> fingerprint (routes s) = fingerprint rt"
      using f [of t] installed(1-3) by (auto simp: T)
    ultimately show ?thesis by blast
  qed
qed

section \<open>The routing of a configuration\<close>

lemma from_yaml_fingerprint: "from_yaml up cert sh y = Inr r \<Longrightarrow> fingerprint r = routing_fingerprint sh y"
  by (auto simp: from_yaml_def try_res_eq_Inr split: if_splits)

text \<open>\<open>rt\<close> is the routing of \<open>y\<close>, a configuration that a parse can give.\<close>

definition built_from :: "'tls reload_env \<Rightarrow> file_config \<Rightarrow> 'tls runtime \<Rightarrow> bool" where
  "built_from env y rt \<longleftrightarrow> wf_config y \<and> from_yaml (url_parse env) (tls_client env) (siphash env) y = Inr rt"

lemma built_from_fingerprint: "built_from env y rt \<Longrightarrow> fingerprint rt = routing_fingerprint (siphash env) y"
  unfolding built_from_def by (elim conjE) (rule from_yaml_fingerprint)

text \<open>A configuration whose texts are UTF-8 and whose rules have no two spellings of a host.\<close>

definition one_spelling :: "file_config \<Rightarrow> bool" where
  "one_spelling y \<longleftrightarrow> plain_texts y \<and> distinct (map (\<lambda>e. to_ascii_lowercase (fst e)) (rules y))"

lemma built_from_stream:
  assumes "built_from env y rt" "built_from env y' rt'" "one_spelling y" "one_spelling y'"
    and "fingerprint_stream y = fingerprint_stream y'"
  shows "lookup (routing rt) h = lookup (routing rt') h"
  using stream_routing [OF assms(5), of "url_parse env" "tls_client env" "siphash env" rt rt' h] assms(1-4)
  by (simp add: built_from_def one_spelling_def)

section \<open>A sample environment\<close>

definition sample_env :: "unit reload_env" where
  "sample_env = \<lparr>serde_yaml = (\<lambda>_. Inr sample_doc), url_parse = sample_url_parse, tls_client = (), siphash = (\<lambda>_. 0),
     settings = \<lparr>listen = V4 127 0 0 1, http = True, hosts_path = None, refresh = 30\<rparr>,
     fetch_at = (\<lambda>t. if t < 60000 then Finishes 40 (Inr []) else Hangs), sync_ms = 3\<rparr>"

definition sample_state :: "fetch_world \<Rightarrow> unit reload_state" where
  "sample_state w = \<lparr>world = w, routes = sample_runtime, receivers = True, last_yaml = sample_config,
     filesys = \<lparr>files = (\<lambda>_. None), script = [], new_perms = 420\<rparr>, journal = []\<rparr>"

definition sample_world :: fetch_world where
  "sample_world = \<lparr>now = 0, slots = new_in_flight MAX_IN_FLIGHT_FETCHES, running = []\<rparr>"

lemma sample_state_simps [simp]:
  "world (sample_state w) = w" "routes (sample_state w) = sample_runtime" "last_yaml (sample_state w) = sample_config"
  "receivers (sample_state w) = True" "journal (sample_state w) = []"
  by (simp_all add: sample_state_def)

lemma sample_world_simps [simp]:
  "slots sample_world = new_in_flight MAX_IN_FLIGHT_FETCHES" "running sample_world = []" "now sample_world = 0"
  "slots_ok sample_world"
  by (simp_all add: sample_world_def slots_ok_def new_in_flight_def)

theorem reload_completes_iff_witness:
  "\<exists>ls changed. journal (reload_once sample_env (sample_state sample_world)) = ls \<and> filter poll_outcome ls = [PollCompleted changed]"
proof -
  have "from_yaml (url_parse sample_env) (tls_client sample_env) (siphash sample_env) sample_config = Inr sample_runtime"
    "fetch_at sample_env 0 = Finishes 40 (Inr [])" "parse_yaml (serde_yaml sample_env) [] = Inr sample_config"
    using sample_runtime(1) sample_parses by (simp_all add: sample_env_def)
  with reload_completes_iff [of "sample_state sample_world" sample_env] show ?thesis
    by (fastforce simp: new_in_flight_def MAX_IN_FLIGHT_FETCHES_def)
qed

section \<open>Invariants of the loops\<close>

text \<open>
  The states reloading can reach: it sleeps, warns about a failed event of the watcher, and reloads.
  Both loops are made of these steps.
\<close>

inductive reloading :: "'tls reload_env \<Rightarrow> 'tls reload_state \<Rightarrow> 'tls reload_state \<Rightarrow> bool" for env s0 where
  begun: "reloading env s0 s0"
| slept: "reloading env s0 s \<Longrightarrow> reloading env s0 (sleep_until t s)"
| warned: "reloading env s0 s \<Longrightarrow> reloading env s0 (logged [WatchEventFailed] s)"
| reloaded: "reloading env s0 s \<Longrightarrow> reloading env s0 (reload_once env s)"

lemma watch_loop_reloading: "reloading env s0 s \<Longrightarrow> reloading env s0 (fst (watch_loop env fname es s))"
proof (induction es arbitrary: s rule: length_induct)
  case (1 es)
  show ?case
  proof (cases es)
    case Nil
    with 1 show ?thesis by simp
  next
    case (Cons e es')
    have "length (dropWhile P es') < length es" for P
      using Cons length_dropWhile_le [of P es'] by simp
    with 1 Cons show ?thesis
      by (cases e, cases "snd e") (auto simp: Let_def split_beta reloading.slept reloading.warned reloading.reloaded)
  qed
qed

lemma poll_loop_reloading: "reloading env s0 s \<Longrightarrow> reloading env s0 (fst (poll_loop env due rounds s))"
  by (induction rounds arbitrary: due s) (simp_all add: Let_def split_beta reloading.intros)

lemma run_reloading:
  "reloading env s0 s \<Longrightarrow> reloading env s0 (fst (run_reload_loop env source recommended_watcher watch es rounds s))"
  by (auto simp: run_reload_loop_def watch_file_def poll_source_def watch_loop_reloading poll_loop_reloading
      split: config_source.splits sum.splits)

text \<open>What each of the steps keeps holds however long the loops run.\<close>

locale reload_invariant =
  fixes env :: "'tls reload_env" and I :: "'tls reload_state \<Rightarrow> bool"
  assumes sleeps: "I s \<Longrightarrow> I (sleep_until t s)"
    and warns: "I s \<Longrightarrow> I (logged [WatchEventFailed] s)"
    and reloads: "I s \<Longrightarrow> I (reload_once env s)"
begin

lemma reloading_keeps: "reloading env s0 s \<Longrightarrow> I s0 \<Longrightarrow> I s"
  by (induction rule: reloading.induct) (auto intro: sleeps warns reloads)

lemma run_keeps: "I s \<Longrightarrow> I (fst (run_reload_loop env source recommended_watcher watch es rounds s))"
  by (rule reloading_keeps [OF run_reloading [OF reloading.begun]])

end

lemma sleep_until_simps [simp]:
  "routes (sleep_until t s) = routes s" "last_yaml (sleep_until t s) = last_yaml s" "filesys (sleep_until t s) = filesys s"
  "receivers (sleep_until t s) = receivers s" "journal (sleep_until t s) = journal s"
  "now (world (sleep_until t s)) = max t (now (world s))"
  "slots_max (slots (world (sleep_until t s))) = slots_max (slots (world s))"
  by (simp_all add: sleep_until_def)

lemma sleep_until_ok: "slots_ok (world s) \<Longrightarrow> slots_ok (world (sleep_until t s))"
  by (simp add: sleep_until_def wait_until_ok)

interpretation slot_loop: reload_invariant env "\<lambda>s. slots_ok (world s) \<and> slots_max (slots (world s)) = m" for env m
  by unfold_locales (auto simp: sleep_until_ok reload_once_slots)

text \<open>
  The routing in force, in a state \<open>s\<close> of reloading, after those of \<open>past\<close>: it was built from the configuration
  remembered in one of them, and the configuration remembered in \<open>s\<close> is one that gives a routing, with the
  same fingerprint. No more can be said without knowing the hash, since a reload installs the new routing
  only if the fingerprints differ.
\<close>

definition in_force :: "'tls reload_env \<Rightarrow> 'tls reload_state set \<Rightarrow> 'tls reload_state \<Rightarrow> bool" where
  "in_force env past s \<longleftrightarrow>
     (\<exists>s1 \<in> past. reloading env s1 s \<and> built_from env (last_yaml s1) (routes s)) \<and>
     (\<exists>r. built_from env (last_yaml s) r \<and> fingerprint r = fingerprint (routes s))"

lemma in_force_start: "built_from env (last_yaml s) (routes s) \<Longrightarrow> s \<in> past \<Longrightarrow> in_force env past s"
  unfolding in_force_def using reloading.begun by blast

lemma in_force_kept:
  assumes "in_force env past s" "past \<subseteq> past'" "routes s' = routes s" "last_yaml s' = last_yaml s"
    "\<And>s1. reloading env s1 s \<Longrightarrow> reloading env s1 s'"
  shows "in_force env past' s'"
  using assms unfolding in_force_def by (metis subsetD)

lemma in_force_mono: "in_force env past s \<Longrightarrow> past \<subseteq> past' \<Longrightarrow> in_force env past' s"
  by (rule in_force_kept) simp_all

lemma reload_once_in_force:
  assumes "in_force env past s" "past \<subseteq> past'" "reload_once env s \<in> past'"
  shows "in_force env past' (reload_once env s)"
proof -
  note step = reloading.reloaded [where env = env and s = s]
  show ?thesis
  proof (cases rule: reload_once_cases [of env s])
    case (installed t w yaml rt)
    let ?s = "logged (map Ignoring (warn_ignored_runtime_changes (last_yaml s) yaml)) (s\<lparr>world := w\<rparr>)"
    have y: "built_from env yaml rt" using parse_yaml_config [OF installed(2)] installed(3) by (simp add: built_from_def)
    note e = install_effect [of env yaml rt ?s, folded installed(4)]
    consider (same) "fingerprint (routes s) = fingerprint rt" | (new) "fingerprint (routes s) \<noteq> fingerprint rt" "receivers s"
      | (lost) "fingerprint (routes s) \<noteq> fingerprint rt" "\<not> receivers s" by blast
    then show ?thesis
    proof cases
      case same
      with y e assms(1,2) step show ?thesis by (fastforce simp: in_force_def)
    next
      case new
      with y e assms(3) show ?thesis by (intro in_force_start) simp_all
    next
      case lost
      with e show ?thesis by (intro in_force_kept [OF assms(1,2) _ _ step]) simp_all
    qed
  qed (intro in_force_kept [OF assms(1,2) _ _ step]; simp)+
qed

text \<open>
  From the start on, whatever the fetches do and whatever the watcher reports, at most two
  configuration fetches are in flight, those that outlived their timeout included, and the counter
  of the slots is exactly their number.
\<close>

lemma fetches_in_flight:
  assumes "slots (world s) = new_in_flight MAX_IN_FLIGHT_FETCHES" "running (world s) = []"
  shows "let s' = fst (run_reload_loop env source recommended_watcher watch es rounds s)
         in length (running (world s')) \<le> 2 \<and> unat (current (slots (world s'))) = length (running (world s'))"
proof -
  have "slots_ok (world s) \<and> slots_max (slots (world s)) = MAX_IN_FLIGHT_FETCHES"
    using assms by (simp add: slots_ok_def new_in_flight_def)
  from slot_loop.run_keeps [OF this, of env source recommended_watcher watch es rounds] show ?thesis
    by (auto simp: slots_ok_def MAX_IN_FLIGHT_FETCHES_def Let_def word_le_nat_alt)
qed

section \<open>Hung fetches\<close>

definition stuck :: "fetch_world \<Rightarrow> bool" where
  "stuck w \<longleftrightarrow> slots_ok w \<and> current (slots w) = slots_max (slots w) \<and> set (running w) \<subseteq> {None}"

lemma stuck_waits: "stuck w \<Longrightarrow> wait_until t w = w\<lparr>now := t\<rparr>"
proof -
  assume "stuck w"
  then have "filter (over t) (running w) = []" "filter (\<lambda>r. \<not> over t r) (running w) = running w"
    by (auto simp: stuck_def over_def filter_empty_conv filter_id_conv)
  then show ?thesis by (simp add: wait_until_def)
qed

lemma stuck_reload: "stuck (world s) \<Longrightarrow> reload_once env s = logged [PollSkipped (current (slots (world s)))] s"
  by (simp add: reload_once_def fetch_with_hard_timeout_def try_acquire_def stuck_def logged_def)

interpretation stuck_loop: reload_invariant env
  "\<lambda>s. stuck (world s) \<and> routes s = r \<and> last_yaml s = y \<and> filesys s = f" for env r y f
  by unfold_locales (auto simp: stuck_reload stuck_waits sleep_until_def, auto simp: stuck_def slots_ok_def)

text \<open>
  C20: Once the fetches in flight have all hung, no reload ever happens again: whatever the watcher
  reports and whatever the source would give, the routing, the remembered configuration and the
  hosts file stay as they are for ever.
\<close>

theorem hung_fetches_end_reloading:
  assumes "slots_ok (world s)" "current (slots (world s)) = slots_max (slots (world s))" "set (running (world s)) \<subseteq> {None}"
  shows "let s' = fst (run_reload_loop env source recommended_watcher watch es rounds s)
         in routes s' = routes s \<and> last_yaml s' = last_yaml s \<and> filesys s' = filesys s"
  using stuck_loop.run_keeps [of s "routes s" "last_yaml s" "filesys s" env source recommended_watcher watch es rounds] assms
  by (simp add: stuck_def Let_def)

theorem hung_fetches_end_reloading_witness:
  "routes (fst (run_reload_loop sample_env (Url ()) (Inr ()) (\<lambda>_. Inr ()) [] 9
      (sample_state \<lparr>now = 0, slots = \<lparr>current = 2, slots_max = 2\<rparr>, running = [None, None]\<rparr>))) = sample_runtime"
  using hung_fetches_end_reloading [of "sample_state \<lparr>now = 0, slots = \<lparr>current = 2, slots_max = 2\<rparr>, running = [None, None]\<rparr>"
      sample_env "Url ()" "Inr ()" "\<lambda>_. Inr ()" "[]" 9]
  by (simp add: Let_def slots_ok_def)

section \<open>When reloads start\<close>

lemma in_dropWhile_sorted:
  "x \<in> set es \<Longrightarrow> x \<notin> set (dropWhile P es) \<Longrightarrow> P x"
  by (induction es) (auto split: if_splits)

lemma dropWhile_later:
  "sorted (map fst es) \<Longrightarrow> x \<in> set (dropWhile (\<lambda>(t, _). t \<le> u) es) \<Longrightarrow> u < fst x"
  by (induction es) (auto split: if_splits)

lemma sorted_dropWhile_fst: "sorted (map fst es) \<Longrightarrow> sorted (map fst (dropWhile P es))"
  by (induction es) auto

text \<open>An event that does not apply only costs the wait; one that does starts a reload and drops what came by then.\<close>

lemma watch_loop_skips:
  assumes "\<nexists>e. ev = Inr e \<and> event_applies e fname"
  obtains s' where "snd (watch_loop env fname ((t, ev) # es) s) = snd (watch_loop env fname es s')"
    "now (world s') = max t (now (world s))"
proof (cases ev)
  case (Inl x)
  with that [of "logged [WatchEventFailed] (sleep_until t s)"] show thesis by simp
next
  case (Inr x)
  with that [of "sleep_until t s"] assms show thesis by simp
qed

lemma watch_loop_starts:
  assumes "ev = Inr e" "event_applies e fname"
  obtains u s' where "u = max t (now (world s)) + 200" "now (world s') \<le> u + CONFIG_FETCH_HARD_TIMEOUT + sync_ms env"
    "set (snd (watch_loop env fname ((t, ev) # es) s)) =
       insert u (set (snd (watch_loop env fname (dropWhile (\<lambda>(t', _). t' \<le> u) es) s')))"
proof -
  let ?s1 = "sleep_until t s"
  let ?s2 = "sleep_until (now (world ?s1) + 200) ?s1"
  from assms reload_once_time [of ?s2 env] show thesis
    by (intro that [of "now (world ?s2)" "reload_once env ?s2"]) (simp_all add: Let_def split_beta)
qed

lemma watch_starts:
  "sorted (map fst es) \<Longrightarrow> (t, Inr e) \<in> set es \<Longrightarrow> event_applies e fname \<Longrightarrow>
     \<exists>u \<in> set (snd (watch_loop env fname es s)).
       t \<le> u \<and> u \<le> max (max t (now (world s)) + 200) (t + (CONFIG_FETCH_HARD_TIMEOUT + sync_ms env) + 200)"
proof (induction es arbitrary: s rule: length_induct)
  case (1 es)
  let ?B = "CONFIG_FETCH_HARD_TIMEOUT + sync_ms env"
  obtain t1 ev es' where es: "es = (t1, ev) # es'" using "1.prems"(2) by (cases es) auto
  have srt: "sorted (map fst es')" "\<forall>x \<in> set es'. t1 \<le> fst x" using "1.prems"(1) es by auto
  note IH = "1.IH" [rule_format, OF _ _ _ "1.prems"(3)]
  show ?case
  proof (cases "\<exists>e1. ev = Inr e1 \<and> event_applies e1 fname")
    case False
    then have i: "(t, Inr e) \<in> set es'" using "1.prems"(2,3) es by auto
    with srt(2) have "t1 \<le> t" by force
    obtain s' where s': "snd (watch_loop env fname es s) = snd (watch_loop env fname es' s')"
      "now (world s') = max t1 (now (world s))" using watch_loop_skips [OF False] es by metis
    have "max t (now (world s')) = max t (now (world s))" using \<open>t1 \<le> t\<close> s'(2) by simp
    with IH [OF _ srt(1) i, of s'] es s'(1) show ?thesis by simp
  next
    case True
    then obtain u s' where u: "u = max t1 (now (world s)) + 200" "now (world s') \<le> u + CONFIG_FETCH_HARD_TIMEOUT + sync_ms env"
      and starts: "set (snd (watch_loop env fname es s)) =
        insert u (set (snd (watch_loop env fname (dropWhile (\<lambda>(t', _). t' \<le> u) es') s')))"
      using watch_loop_starts [of ev _ fname t1 s env es'] es by metis
    let ?rest = "dropWhile (\<lambda>(t', _). t' \<le> u) es'"
    show ?thesis
    proof (cases "(t, Inr e) \<in> set ?rest")
      case True
      then have "u < t" using dropWhile_later [OF srt(1)] by fastforce
      with u(2) have "max t (now (world s')) + 200 \<le> t + ?B + 200" by simp
      moreover have "length ?rest < length es" using es length_dropWhile_le by (simp add: less_Suc_eq_le)
      from IH [OF this sorted_dropWhile_fst [OF srt(1)] True, of s'] obtain v where
        "v \<in> set (snd (watch_loop env fname ?rest s'))" "t \<le> v" "v \<le> max (max t (now (world s')) + 200) (t + ?B + 200)" by blast
      ultimately show ?thesis unfolding starts by (intro bexI [of _ v]) auto
    next
      case False
      then have "t \<le> u \<and> t1 \<le> t"
        using in_dropWhile_sorted [of "(t, Inr e)" es' "\<lambda>(t', _). t' \<le> u"] srt(2) "1.prems"(2) es u(1) by force
      then show ?thesis unfolding starts using u(1) by (intro bexI [of _ u]) auto
    qed
  qed
qed

text \<open>
  C18: While the file is watched, no change is missed: every event that applies is followed by a
  reload that starts after it, at the latest after the hard timeout of a fetch and the
  synchronisation of the hosts file, which a reload under way may still need, and 200 ms.
\<close>

theorem every_change_reloaded:
  assumes "sorted (map fst es)" "(t, Inr e) \<in> set es" "event_applies e fname" "now (world s) \<le> t"
  shows "\<exists>u. u \<in> set (snd (watch_loop env fname es s)) \<and> t \<le> u \<and> u \<le> t + 15200 + sync_ms env"
  using watch_starts [OF assms(1-3), of env s] assms(4)
  by (auto simp: CONFIG_FETCH_HARD_TIMEOUT_def max_def)

theorem every_change_reloaded_witness:
  "\<exists>u. u \<in> set (snd (watch_loop sample_env None
      [(500, Inr \<lparr>ev_kind = EvModify, ev_paths = []\<rparr>), (800, Inl (IoError []))] (sample_state sample_world))) \<and>
     500 \<le> u \<and> u \<le> 500 + 15200 + sync_ms sample_env"
  by (rule every_change_reloaded [where e = "\<lparr>ev_kind = EvModify, ev_paths = []\<rparr>"]) (simp_all add: event_applies_def)

lemma poll_starts:
  "let starts = snd (poll_loop env due rounds s); P = 1000 * unat (refresh (settings env));
       F = CONFIG_FETCH_HARD_TIMEOUT + sync_ms env
   in length starts = rounds \<and> (rounds \<noteq> 0 \<longrightarrow> hd starts = max due (now (world s))) \<and>
      successively (\<lambda>t t'. t + P \<le> t' \<and> t' \<le> t + max P F) starts"
proof (induction rounds arbitrary: due s)
  case (Suc rounds)
  let ?P = "1000 * unat (refresh (settings env))" and ?s1 = "sleep_until due s"
  let ?t = "max due (now (world s))"
  have t: "now (world ?s1) = ?t" by simp
  have st: "snd (poll_loop env due (Suc rounds) s) = ?t # snd (poll_loop env (?t + ?P) rounds (reload_once env ?s1))"
    by (simp add: Let_def split_beta)
  have "now (world (reload_once env ?s1)) \<le> ?t + (CONFIG_FETCH_HARD_TIMEOUT + sync_ms env)"
    using reload_once_time [of ?s1 env] by simp
  with Suc [of "?t + ?P" "reload_once env ?s1"] show ?case
    unfolding st by (cases "snd (poll_loop env (?t + ?P) rounds (reload_once env ?s1))") (auto simp: Let_def)
qed simp

text \<open>
  C19: While the source is polled, the loop never stops and never hurries: the rounds asked for all
  take place, the first a refresh period after the start, and two reloads are a period apart, or as
  much longer as a reload of at most fifteen seconds and the synchronisation of the hosts file needs.
\<close>

theorem polls_regular:
  "let starts = snd (poll_source env rounds s); P = 1000 * unat (refresh (settings env))
   in length starts = rounds \<and> list_all (\<lambda>t. now (world s) + P \<le> t) (take 1 starts) \<and>
      successively (\<lambda>t t'. t + P \<le> t' \<and> t' \<le> t + max P (15000 + sync_ms env)) starts"
  using poll_starts [of env "now (world s) + 1000 * unat (refresh (settings env))" rounds s]
  by (cases "snd (poll_source env rounds s)") (auto simp: Let_def poll_source_def CONFIG_FETCH_HARD_TIMEOUT_def)

end
