(* ===== verification/Watchdog.thy ===== *)
theory Watchdog
  imports Nya_Prelude
begin

text \<open>
  \<open>src/watchdog.rs\<close>: the heartbeat of the accept loops and the thread that ends the process when it
  stops. Times are nanoseconds since the heartbeat's origin; the heartbeat keeps milliseconds.
\<close>

definition ACCEPT_HEARTBEAT_INTERVAL :: nat where
  "ACCEPT_HEARTBEAT_INTERVAL = 1000000000"

definition WATCHDOG_STALL_TIMEOUT :: nat where
  "WATCHDOG_STALL_TIMEOUT = 30000000000"

definition WATCHDOG_POLL_INTERVAL :: nat where
  "WATCHDOG_POLL_INTERVAL = 1000000000"

abbreviation ns_per_ms :: nat where
  "ns_per_ms \<equiv> 1000000"

record heartbeat =
  last_ms :: u64

definition beat :: "nat \<Rightarrow> heartbeat \<Rightarrow> heartbeat" where
  "beat elapsed hb = hb\<lparr>last_ms := of_nat (min (elapsed div ns_per_ms) (2 ^ 64 - 1))\<rparr>"

definition new_heartbeat :: "nat \<Rightarrow> heartbeat" where
  "new_heartbeat elapsed = beat elapsed \<lparr>last_ms = 0\<rparr>"

definition stalled_for :: "nat \<Rightarrow> nat \<Rightarrow> heartbeat \<Rightarrow> bool" where
  "stalled_for limit elapsed hb = (elapsed - unat (last_ms hb) * ns_per_ms > limit)"

text \<open>
  The thread: \<open>hb t\<close> is what it finds in the heartbeat at time \<open>t\<close>, and a sleep lasts the poll
  interval and the lateness given for it. The result is the time \<open>on_stall\<close> is called, if it is
  within the sleeps given.
\<close>

fun watchdog_loop :: "(nat \<Rightarrow> heartbeat) \<Rightarrow> nat \<Rightarrow> nat \<Rightarrow> nat \<Rightarrow> nat list \<Rightarrow> nat option" where
  "watchdog_loop hb stall_timeout poll_interval t [] = None"
| "watchdog_loop hb stall_timeout poll_interval t (late # sleeps) =
     (let t' = t + poll_interval + late
      in if stalled_for stall_timeout t' (hb t') then Some t'
         else watchdog_loop hb stall_timeout poll_interval t' sleeps)"

text \<open>What \<open>watchdog_suicide\<close> does on Unix: the file descriptor and the message written, and the exit status.\<close>

definition watchdog_suicide :: "(nat \<times> bytes) \<times> nat" where
  "watchdog_suicide =
     ((2, lit ''nyasniproxy watchdog: accept loop stalled; exiting so launchd KeepAlive can restart'' @ [10]), 1)"

section \<open>Beats\<close>

lemma beat_ms: "elapsed div ns_per_ms < 2 ^ 64 \<Longrightarrow> unat (last_ms (beat elapsed hb)) = elapsed div ns_per_ms"
proof -
  assume t: "elapsed div ns_per_ms < 2 ^ 64"
  then have "min (elapsed div ns_per_ms) (2 ^ 64 - 1) = elapsed div ns_per_ms" by simp
  with t show ?thesis by (simp add: beat_def unat_of_nat take_bit_eq_mod)
qed

text \<open>The heartbeat loses less than a millisecond of the time of a beat.\<close>

lemma stalled_after_beat:
  assumes "b div ns_per_ms < 2 ^ 64"
  shows "stalled_for limit t (beat b hb) \<Longrightarrow> b + limit < t + ns_per_ms"
    and "b + limit < t \<Longrightarrow> stalled_for limit t (beat b hb)"
proof -
  have "b div ns_per_ms * ns_per_ms \<le> b" "b < b div ns_per_ms * ns_per_ms + ns_per_ms"
    using div_mult_mod_eq [of b ns_per_ms] mod_less_divisor [of ns_per_ms b] by linarith+
  then show "stalled_for limit t (beat b hb) \<Longrightarrow> b + limit < t + ns_per_ms"
    "b + limit < t \<Longrightarrow> stalled_for limit t (beat b hb)"
    unfolding stalled_for_def beat_ms [OF assms] by linarith+
qed

text \<open>The heartbeat at a time, given the times of the beats in order: that of the last beat by then.\<close>

definition heartbeat_at :: "nat list \<Rightarrow> nat \<Rightarrow> heartbeat" where
  "heartbeat_at beats t = fold beat (filter (\<lambda>b. b \<le> t) beats) \<lparr>last_ms = 0\<rparr>"

lemma fold_beat: "bs \<noteq> [] \<Longrightarrow> fold beat bs hb = beat (last bs) hb'"
  by (induction bs arbitrary: hb rule: rev_induct) (simp_all add: beat_def)

lemma heartbeat_at_last:
  "filter (\<lambda>b. b \<le> t) beats \<noteq> [] \<Longrightarrow> heartbeat_at beats t = beat (last (filter (\<lambda>b. b \<le> t) beats)) \<lparr>last_ms = 0\<rparr>"
  unfolding heartbeat_at_def by (rule fold_beat)

text \<open>Beats at most \<open>gap\<close> apart, from a time before \<open>t0\<close> until \<open>gap\<close> before \<open>t1\<close>.\<close>

definition covers :: "nat \<Rightarrow> nat list \<Rightarrow> nat \<Rightarrow> nat \<Rightarrow> bool" where
  "covers gap beats t0 t1 \<longleftrightarrow>
     sorted beats \<and> beats \<noteq> [] \<and> hd beats \<le> t0 \<and> successively (\<lambda>a b. b \<le> a + gap) beats \<and> t1 \<le> last beats + gap"

lemma covers_recent:
  "covers gap beats t0 t1 \<Longrightarrow> t0 \<le> t \<Longrightarrow> t \<le> t1 \<Longrightarrow>
     \<exists>b. b \<in> set beats \<and> b = last (filter (\<lambda>b. b \<le> t) beats) \<and> filter (\<lambda>b. b \<le> t) beats \<noteq> [] \<and> t \<le> b + gap"
proof (induction beats arbitrary: t0)
  case Nil
  then show ?case by (simp add: covers_def)
next
  case (Cons a bs)
  show ?case
  proof (cases "bs = [] \<or> t < hd bs")
    case True
    have "filter (\<lambda>b. b \<le> t) bs = []"
      using True Cons.prems(1) by (cases bs) (auto simp: covers_def filter_empty_conv)
    moreover have "a \<le> t" using Cons.prems by (simp add: covers_def)
    moreover have "t \<le> a + gap" using True Cons.prems by (cases bs) (auto simp: covers_def)
    ultimately show ?thesis by auto
  next
    case False
    then have "covers gap bs t t1" using Cons.prems by (cases bs) (auto simp: covers_def)
    from Cons.IH [OF this order_refl Cons.prems(3)] obtain b where
      "b \<in> set bs" "b = last (filter (\<lambda>b. b \<le> t) bs)" "filter (\<lambda>b. b \<le> t) bs \<noteq> []" "t \<le> b + gap" by blast
    moreover from this have "last (filter (\<lambda>b. b \<le> t) (a # bs)) = last (filter (\<lambda>b. b \<le> t) bs)" by simp
    ultimately show ?thesis by fastforce
  qed
qed

lemma sorted_le_last: "sorted xs \<Longrightarrow> x \<in> set xs \<Longrightarrow> x \<le> last xs"
  by (induction xs) auto

section \<open>When the watchdog fires\<close>

text \<open>
  As long as the beats are at most the stall timeout less a millisecond apart, the watchdog never
  ends the process, however late its thread wakes up.
\<close>

lemma watchdog_quiet_on:
  assumes "covers gap beats t t1" "gap + ns_per_ms \<le> stall_timeout"
    and "list_all (\<lambda>b. b div ns_per_ms < 2 ^ 64) beats"
    and "t + length sleeps * poll_interval + sum_list sleeps \<le> t1"
  shows "watchdog_loop (heartbeat_at beats) stall_timeout poll_interval t sleeps = None"
  using assms(1,4)
proof (induction sleeps arbitrary: t)
  case (Cons late sleeps)
  let ?t = "t + poll_interval + late"
  have le: "?t \<le> t1" using Cons.prems(2) by simp
  obtain b where b: "b \<in> set beats" "b = last (filter (\<lambda>b. b \<le> ?t) beats)" "filter (\<lambda>b. b \<le> ?t) beats \<noteq> []" "?t \<le> b + gap"
    using covers_recent [OF Cons.prems(1) _ le] by auto
  have "b div ns_per_ms < 2 ^ 64" using b(1) assms(3) by (simp add: list_all_iff)
  then have "\<not> stalled_for stall_timeout ?t (beat b \<lparr>last_ms = 0\<rparr>)"
    using stalled_after_beat(1) [of b stall_timeout ?t] b(4) assms(2) by fastforce
  then have "\<not> stalled_for stall_timeout ?t (heartbeat_at beats ?t)"
    using heartbeat_at_last [OF b(3)] b(2) by simp
  moreover have "covers gap beats ?t t1" using Cons.prems(1) by (auto simp: covers_def)
  ultimately show ?case using Cons.IH [of ?t] Cons.prems(2) by (simp add: Let_def algebra_simps)
qed simp

lemma watchdog_fires_by:
  assumes "beats \<noteq> []" "sorted beats" "list_all (\<lambda>b. b div ns_per_ms < 2 ^ 64) beats"
    and "list_all (\<lambda>late. late \<le> d) sleeps"
    and "max t (last beats + stall_timeout) < t + length sleeps * poll_interval"
  shows "\<exists>u. watchdog_loop (heartbeat_at beats) stall_timeout poll_interval t sleeps = Some u \<and>
           u \<le> max t (last beats + stall_timeout) + poll_interval + d"
  using assms(4,5)
proof (induction sleeps arbitrary: t)
  case (Cons late sleeps)
  let ?t = "t + poll_interval + late"
  show ?case
  proof (cases "stalled_for stall_timeout ?t (heartbeat_at beats ?t)")
    case True
    then show ?thesis using Cons.prems(1) by (intro exI [of _ ?t]) (auto simp: Let_def max_def)
  next
    case False
    have "\<not> last beats + stall_timeout < ?t"
    proof
      assume late_t: "last beats + stall_timeout < ?t"
      have "b \<le> last beats" if "b \<in> set beats" for b by (rule sorted_le_last [OF assms(2) that])
      then have "filter (\<lambda>b. b \<le> ?t) beats = beats" using late_t by (fastforce simp: filter_id_conv)
      then have "heartbeat_at beats ?t = beat (last beats) \<lparr>last_ms = 0\<rparr>" using heartbeat_at_last [of ?t beats] assms(1) by simp
      moreover have "last beats div ns_per_ms < 2 ^ 64" using assms(1,3) by (simp add: list_all_iff)
      ultimately show False using stalled_after_beat(2) [OF _ late_t] False by metis
    qed
    then have le: "?t \<le> last beats + stall_timeout" by simp
    then have m: "max ?t (last beats + stall_timeout) = last beats + stall_timeout"
      "max t (last beats + stall_timeout) = last beats + stall_timeout" by simp_all
    with Cons.prems have "max ?t (last beats + stall_timeout) < ?t + length sleeps * poll_interval"
      by (simp add: algebra_simps)
    with Cons.IH [of ?t] Cons.prems(1) False m show ?thesis by (simp add: Let_def)
  qed
qed simp

text \<open>
  C14: When the beats stop, the watchdog does end the process: at the latest the stall timeout, one
  poll interval and the lateness of its thread after the last beat.
\<close>

theorem watchdog_fires:
  assumes "beats \<noteq> []" "sorted beats" "list_all (\<lambda>b. b div ns_per_ms < 2 ^ 64) beats"
    and "list_all (\<lambda>late. late \<le> d) sleeps" "t \<le> last beats"
    and "last beats + stall_timeout < t + length sleeps * poll_interval"
  shows "\<exists>u. watchdog_loop (heartbeat_at beats) stall_timeout poll_interval t sleeps = Some u \<and>
           u \<le> last beats + stall_timeout + poll_interval + d"
  using watchdog_fires_by [OF assms(1-4), of t stall_timeout poll_interval] assms(5,6) by (simp add: max_def)

theorem watchdog_fires_witness:
  "\<exists>u. watchdog_loop (heartbeat_at [7000000]) 30000000 10000000 0 [500, 0, 9, 0] = Some u \<and> u \<le> 7000000 + 30000000 + 10000000 + 500"
proof -
  have "\<exists>u. watchdog_loop (heartbeat_at [7000000]) 30000000 10000000 0 [500, 0, 9, 0] = Some u \<and>
      u \<le> last [7000000] + 30000000 + 10000000 + 500"
    by (rule watchdog_fires) simp_all
  then show ?thesis by simp
qed

end
