(* ===== verification/Accept_Loop.thy ===== *)
theory Accept_Loop
  imports In_Flight Watchdog
begin

text \<open>
  The accept loops of \<open>src/main.rs\<close>: connections are accepted on two listeners, handled by tasks
  that hold a permit of one semaphore, and every turn of a loop beats the heartbeat. Times are in
  nanoseconds. The turns of the two loops and the ends of the tasks are interleaved; \<open>'c\<close> is the
  type of an accepted stream with its peer.
\<close>

definition MAX_CONNECTIONS :: nat where
  "MAX_CONNECTIONS = 1024"

datatype inbound_protocol = Http | Https

section \<open>Permits\<close>

record semaphore =
  permits :: nat

definition try_acquire_owned :: "semaphore \<Rightarrow> semaphore option" where
  "try_acquire_owned s = (if permits s = 0 then None else Some (s\<lparr>permits := permits s - 1\<rparr>))"

definition drop_permit :: "semaphore \<Rightarrow> semaphore" where
  "drop_permit s = s\<lparr>permits := permits s + 1\<rparr>"

interpretation connections: slot_pool "\<lambda>s. permits s \<le> MAX_CONNECTIONS" try_acquire_owned drop_permit
  "\<lambda>s. MAX_CONNECTIONS - permits s" "\<lambda>_. MAX_CONNECTIONS"
  by unfold_locales (auto simp: try_acquire_owned_def drop_permit_def MAX_CONNECTIONS_def split: if_splits)

section \<open>The loops\<close>

text \<open>A loop: the time of its last turn, and when its interval ticks next.\<close>

record loop =
  last_turn :: nat
  next_tick :: nat

record 'c server =
  time :: nat
  beats :: "nat list"
  limit :: semaphore
  loops :: "inbound_protocol \<Rightarrow> loop option"
  tasks :: "(inbound_protocol \<times> 'c) list"
  refused :: "'c list"
  ended :: "error option"

text \<open>
  The start of a loop at time \<open>t\<close>: the first tick is due at once. After a tick taken at \<open>t\<close>, missed
  ones are skipped: the next is due at the next multiple of the interval after \<open>t\<close>.
\<close>

definition new_loop :: "nat \<Rightarrow> loop" where
  "new_loop t = \<lparr>last_turn = t, next_tick = t\<rparr>"

definition skip_missed :: "nat \<Rightarrow> nat \<Rightarrow> nat" where
  "skip_missed due t = due + ACCEPT_HEARTBEAT_INTERVAL * ((t - due) div ACCEPT_HEARTBEAT_INTERVAL + 1)"

definition turn :: "inbound_protocol \<Rightarrow> nat \<Rightarrow> 'c server \<Rightarrow> 'c server" where
  "turn p t s = s\<lparr>time := t, beats := beats s @ [t],
     loops := (loops s)(p := map_option (\<lambda>l. l\<lparr>last_turn := t\<rparr>) (loops s p))\<rparr>"

text \<open>The two branches of the \<open>select!\<close>, and the end of a task, which drops its permit.\<close>

definition on_accept :: "inbound_protocol \<Rightarrow> nat \<Rightarrow> 'c result \<Rightarrow> 'c server \<Rightarrow> 'c server" where
  "on_accept p t r s =
     (let s1 = turn p t s
      in case r of
           Inl e \<Rightarrow> s1\<lparr>ended := Some e\<rparr>
         | Inr c \<Rightarrow>
             (case try_acquire_owned (limit s1) of
                None \<Rightarrow> s1\<lparr>refused := refused s1 @ [c]\<rparr>
              | Some l \<Rightarrow> s1\<lparr>limit := l, tasks := (p, c) # tasks s1\<rparr>))"

definition on_tick :: "inbound_protocol \<Rightarrow> nat \<Rightarrow> 'c server \<Rightarrow> 'c server" where
  "on_tick p t s =
     (let s1 = turn p t s
      in s1\<lparr>loops := (loops s1)(p := map_option (\<lambda>l. l\<lparr>next_tick := skip_missed (next_tick l) t\<rparr>) (loops s1 p))\<rparr>)"

definition on_task_end :: "nat \<Rightarrow> nat \<Rightarrow> 'c server \<Rightarrow> 'c server" where
  "on_task_end t i s =
     s\<lparr>time := t, tasks := take i (tasks s) @ drop (Suc i) (tasks s), limit := drop_permit (limit s)\<rparr>"

definition accept_loops :: "bool \<Rightarrow> nat \<Rightarrow> 'c server" where
  "accept_loops http t =
     \<lparr>time = t, beats = [t], limit = \<lparr>permits = MAX_CONNECTIONS\<rparr>,
      loops = (\<lambda>p. case p of Http \<Rightarrow> if http then Some (new_loop t) else None | Https \<Rightarrow> Some (new_loop t)),
      tasks = [], refused = [], ended = None\<rparr>"

text \<open>
  The runtime polls a loop at most \<open>d\<close> after its tick is due or its last turn, whichever is later:
  until then time may pass, unless a loop has ended, which ends the process.
\<close>

definition on_time :: "nat \<Rightarrow> nat \<Rightarrow> 'c server \<Rightarrow> bool" where
  "on_time d t s \<longleftrightarrow>
     time s \<le> t \<and> ended s = None \<and>
     list_all (\<lambda>p. case loops s p of None \<Rightarrow> True | Some l \<Rightarrow> t \<le> max (last_turn l) (next_tick l) + d) [Http, Https]"

inductive serving :: "nat \<Rightarrow> bool \<Rightarrow> nat \<Rightarrow> 'c server \<Rightarrow> bool" for d http t0 where
  start: "serving d http t0 (accept_loops http t0)"
| accepted: "serving d http t0 s \<Longrightarrow> on_time d t s \<Longrightarrow> loops s p \<noteq> None \<Longrightarrow> serving d http t0 (on_accept p t r s)"
| ticked: "serving d http t0 s \<Longrightarrow> on_time d t s \<Longrightarrow> loops s p = Some l \<Longrightarrow> next_tick l \<le> t \<Longrightarrow>
    serving d http t0 (on_tick p t s)"
| task_ended: "serving d http t0 s \<Longrightarrow> on_time d t s \<Longrightarrow> i < length (tasks s) \<Longrightarrow> serving d http t0 (on_task_end t i s)"

lemma turn_simps [simp]:
  "time (turn p t s) = t" "beats (turn p t s) = beats s @ [t]" "limit (turn p t s) = limit s"
  "tasks (turn p t s) = tasks s" "refused (turn p t s) = refused s" "ended (turn p t s) = ended s"
  "loops (turn p t s) = (loops s)(p := map_option (\<lambda>l. l\<lparr>last_turn := t\<rparr>) (loops s p))"
  by (simp_all add: turn_def)

lemma on_accept_simps [simp]:
  "time (on_accept p t r s) = t" "beats (on_accept p t r s) = beats s @ [t]" "loops (on_accept p t r s) = loops (turn p t s)"
  by (simp_all add: on_accept_def Let_def split: sum.splits option.splits)

lemma on_tick_simps [simp]:
  "time (on_tick p t s) = t" "beats (on_tick p t s) = beats s @ [t]" "limit (on_tick p t s) = limit s"
  "tasks (on_tick p t s) = tasks s"
  by (simp_all add: on_tick_def Let_def)

lemma on_task_end_simps [simp]:
  "time (on_task_end t i s) = t" "beats (on_task_end t i s) = beats s" "loops (on_task_end t i s) = loops s"
  by (simp_all add: on_task_end_def)

text \<open>An error of \<open>accept\<close> is the end: nothing happens any more after it.\<close>

lemma accept_error_ends: "ended (on_accept p t (Inl e) s) = Some e \<and> \<not> on_time d t' (on_accept p t (Inl e) s)"
  by (simp add: on_accept_def on_time_def Let_def)

text \<open>
  What every step of the loops keeps holds as long as they serve.
\<close>

locale server_invariant =
  fixes d :: nat and I :: "'c server \<Rightarrow> bool"
  assumes accepts: "I s \<Longrightarrow> on_time d t s \<Longrightarrow> loops s p \<noteq> None \<Longrightarrow> I (on_accept p t r s)"
    and ticks: "I s \<Longrightarrow> on_time d t s \<Longrightarrow> loops s p = Some l \<Longrightarrow> next_tick l \<le> t \<Longrightarrow> I (on_tick p t s)"
    and ends: "I s \<Longrightarrow> on_time d t s \<Longrightarrow> i < length (tasks s) \<Longrightarrow> I (on_task_end t i s)"
begin

lemma serving_keeps: "serving d http t0 s \<Longrightarrow> I (accept_loops http t0) \<Longrightarrow> I s"
  by (induction rule: serving.induct) (auto intro: accepts ticks ends)

end

section \<open>The permits are the running tasks\<close>

definition permits_ok :: "'c server \<Rightarrow> bool" where
  "permits_ok s \<longleftrightarrow> permits (limit s) \<le> MAX_CONNECTIONS \<and> MAX_CONNECTIONS - permits (limit s) = length (tasks s)"

lemma on_accept_permits: "permits_ok s \<Longrightarrow> permits_ok (on_accept p t r s)"
proof (cases r)
  case (Inr c)
  assume ok: "permits_ok s"
  show ?thesis
  proof (cases "try_acquire_owned (limit s)")
    case (Some l)
    with Inr ok connections.acquire_some [of "limit s" l] show ?thesis by (simp add: permits_ok_def on_accept_def Let_def)
  qed (use Inr ok in \<open>simp add: permits_ok_def on_accept_def Let_def\<close>)
qed (simp add: permits_ok_def on_accept_def Let_def)

lemma on_task_end_permits: "permits_ok s \<Longrightarrow> i < length (tasks s) \<Longrightarrow> permits_ok (on_task_end t i s)"
proof -
  assume a: "permits_ok s" "i < length (tasks s)"
  then have "0 < MAX_CONNECTIONS - permits (limit s)" by (auto simp: permits_ok_def)
  with a connections.give_back [of "limit s"] show ?thesis by (simp add: permits_ok_def on_task_end_def)
qed

interpretation permit_count: server_invariant d permits_ok for d
  by unfold_locales (auto simp: on_accept_permits on_task_end_permits, simp add: permits_ok_def)

lemma permits_start: "permits_ok (accept_loops http t0)"
  by (simp add: permits_ok_def accept_loops_def)

lemma permits_ok_room: "permits_ok s \<Longrightarrow> length (tasks s) + permits (limit s) = 1024"
  unfolding permits_ok_def MAX_CONNECTIONS_def by linarith

text \<open>
  C12: However accepts, failures and the ends of tasks interleave, the connections being handled are
  exactly those holding a permit, at most 1024: no permit is lost. A further connection is refused
  exactly when 1024 are being handled, and a finished one makes room again.
\<close>

theorem connection_limit:
  assumes "serving d http t0 s"
  shows "length (tasks s) + permits (limit s) = 1024 \<and>
    (if length (tasks s) = 1024
     then tasks (on_accept p t (Inr c) s) = tasks s \<and> refused (on_accept p t (Inr c) s) = refused s @ [c]
     else tasks (on_accept p t (Inr c) s) = (p, c) # tasks s \<and> refused (on_accept p t (Inr c) s) = refused s)"
proof -
  have inv: "permits_ok s" using permit_count.serving_keeps [OF assms permits_start] .
  note eq = permits_ok_room [OF inv]
  show ?thesis
  proof (cases "try_acquire_owned (limit s)")
    case None
    with connections.acquire_none [of "limit s"] inv have "MAX_CONNECTIONS \<le> length (tasks s)" by (simp add: permits_ok_def)
    with eq have "length (tasks s) = 1024" unfolding MAX_CONNECTIONS_def by linarith
    with None eq show ?thesis by (simp add: on_accept_def Let_def)
  next
    case (Some l)
    with connections.acquire_none [of "limit s"] inv have "length (tasks s) \<noteq> 1024" by (simp add: permits_ok_def MAX_CONNECTIONS_def)
    with Some eq show ?thesis by (simp add: on_accept_def Let_def)
  qed
qed

theorem connection_limit_witness:
  "length (tasks (on_accept Https 5 (Inr ''a'') (accept_loops False 0))) +
     permits (limit (on_accept Https 5 (Inr ''a'') (accept_loops False 0))) = 1024"
proof -
  have "serving 9 False 0 (accept_loops False 0 :: string server)" by (rule serving.start)
  then have "serving 9 False 0 (on_accept Https 5 (Inr ''a'') (accept_loops False 0))"
    by (rule serving.accepted) (simp_all add: on_time_def accept_loops_def new_loop_def)
  from connection_limit [OF this] show ?thesis by blast
qed

section \<open>A live loop keeps the watchdog quiet\<close>

lemma skip_missed_bound: "due \<le> t \<Longrightarrow> t < skip_missed due t \<and> skip_missed due t \<le> t + ACCEPT_HEARTBEAT_INTERVAL"
proof -
  assume "due \<le> t"
  let ?P = ACCEPT_HEARTBEAT_INTERVAL
  have "0 < ?P" by (simp add: ACCEPT_HEARTBEAT_INTERVAL_def)
  then have "?P * ((t - due) div ?P) \<le> t - due" "t - due < ?P * ((t - due) div ?P) + ?P"
    using mult_div_mod_eq [of ?P "t - due"] mod_less_divisor [of ?P "t - due"] by linarith+
  with \<open>due \<le> t\<close> show ?thesis unfolding skip_missed_def distrib_left mult_1_right by linarith
qed

definition beats_ok :: "nat \<Rightarrow> nat \<Rightarrow> nat list \<Rightarrow> nat \<Rightarrow> bool" where
  "beats_ok gap t0 bs t \<longleftrightarrow>
     sorted bs \<and> bs \<noteq> [] \<and> hd bs = t0 \<and> successively (\<lambda>a b. b \<le> a + gap) bs \<and> last bs \<le> t \<and> t \<le> last bs + gap"

lemma beats_ok_snoc: "beats_ok gap t0 bs t \<Longrightarrow> last bs \<le> u \<Longrightarrow> u \<le> last bs + gap \<Longrightarrow> beats_ok gap t0 (bs @ [u]) u"
  using sorted_le_last [of bs] by (fastforce simp: beats_ok_def sorted_append successively_append_iff)

definition loop_ok :: "nat list \<Rightarrow> loop \<Rightarrow> bool" where
  "loop_ok bs l \<longleftrightarrow> last_turn l \<le> last bs \<and> next_tick l \<le> last_turn l + ACCEPT_HEARTBEAT_INTERVAL"

definition server_ok :: "nat \<Rightarrow> nat \<Rightarrow> 'c server \<Rightarrow> bool" where
  "server_ok d t0 s \<longleftrightarrow>
     beats_ok (ACCEPT_HEARTBEAT_INTERVAL + d) t0 (beats s) (time s) \<and> loops s Https \<noteq> None \<and>
     (\<forall>p l. loops s p = Some l \<longrightarrow> loop_ok (beats s) l)"

lemma on_time_beats:
  assumes "server_ok d t0 s" "on_time d t s"
  shows "last (beats s) \<le> t \<and> t \<le> last (beats s) + (ACCEPT_HEARTBEAT_INTERVAL + d)"
proof -
  obtain l where l: "loops s Https = Some l" using assms(1) by (auto simp: server_ok_def)
  with assms have "loop_ok (beats s) l" "t \<le> max (last_turn l) (next_tick l) + d" "time s \<le> t" "last (beats s) \<le> time s"
    by (auto simp: server_ok_def on_time_def beats_ok_def)
  then show ?thesis by (auto simp: loop_ok_def max_def split: if_splits)
qed

lemma server_ok_start: "server_ok d t0 (accept_loops http t0)"
  by (auto simp: server_ok_def beats_ok_def loop_ok_def accept_loops_def new_loop_def split: inbound_protocol.splits if_splits)

text \<open>The beat of a turn keeps the beats dense, and the other loop no later than it was.\<close>

lemma turn_beats:
  assumes "server_ok d t0 s" "on_time d t s"
  shows "beats_ok (ACCEPT_HEARTBEAT_INTERVAL + d) t0 (beats s @ [t]) t"
    and "loops s q = Some l \<Longrightarrow> loop_ok (beats s @ [t]) l"
proof -
  note t = on_time_beats [OF assms]
  show "beats_ok (ACCEPT_HEARTBEAT_INTERVAL + d) t0 (beats s @ [t]) t"
    using assms(1) t by (intro beats_ok_snoc [where t = "time s"]) (auto simp: server_ok_def)
  show "loop_ok (beats s @ [t]) l" if "loops s q = Some l"
    using assms(1) t that by (fastforce simp: server_ok_def loop_ok_def)
qed

interpretation heartbeats: server_invariant d "server_ok d t0" for d t0
proof
  fix s :: "'a server" and t p r
  assume a: "server_ok d t0 s" "on_time d t s"
  note turn_beats [OF this] on_time_beats [OF this]
  with a show "server_ok d t0 (on_accept p t r s)"
    by (fastforce simp: server_ok_def loop_ok_def split: if_splits)
next
  fix s :: "'a server" and t p l
  assume a: "server_ok d t0 s" "on_time d t s" "loops s p = Some l" "next_tick l \<le> t"
  with turn_beats [OF a(1,2)] skip_missed_bound [OF a(4)] show "server_ok d t0 (on_tick p t s)"
    by (auto simp: server_ok_def on_tick_def Let_def loop_ok_def split: if_splits)
next
  fix s :: "'a server" and t i
  assume "server_ok d t0 s" "on_time d t s"
  with on_time_beats [OF this] show "server_ok d t0 (on_task_end t i s)" by (simp add: server_ok_def beats_ok_def)
qed

lemma server_ok_quiet:
  assumes "server_ok d t0 s" "d \<le> 28000000000" "time s div ns_per_ms < 2 ^ 64"
    and "t0 \<le> t" "t + length sleeps * WATCHDOG_POLL_INTERVAL + sum_list sleeps \<le> time s"
  shows "watchdog_loop (heartbeat_at (beats s)) WATCHDOG_STALL_TIMEOUT WATCHDOG_POLL_INTERVAL t sleeps = None"
proof -
  have inv: "beats_ok (ACCEPT_HEARTBEAT_INTERVAL + d) t0 (beats s) (time s)" using assms(1) by (simp add: server_ok_def)
  have "b \<le> time s" if "b \<in> set (beats s)" for b using sorted_le_last [OF _ that] inv by (fastforce simp: beats_ok_def)
  then have "b div ns_per_ms < 2 ^ 64" if "b \<in> set (beats s)" for b
    using that assms(3) div_le_mono le_less_trans by blast
  then have small: "list_all (\<lambda>b. b div ns_per_ms < 2 ^ 64) (beats s)" by (simp add: list_all_iff)
  have cov: "covers (ACCEPT_HEARTBEAT_INTERVAL + d) (beats s) t (time s)" using inv assms(4) by (auto simp: covers_def beats_ok_def)
  have "ACCEPT_HEARTBEAT_INTERVAL + d + ns_per_ms \<le> WATCHDOG_STALL_TIMEOUT"
    using assms(2) by (simp add: ACCEPT_HEARTBEAT_INTERVAL_def WATCHDOG_STALL_TIMEOUT_def)
  from watchdog_quiet_on [OF cov this small assms(5)] show ?thesis .
qed

text \<open>
  C13: As long as the runtime polls the accept loops no later than 28 seconds after they are due, the
  watchdog does not end the process: idle or under load, and whatever the connections do, the turns
  of the loops keep the heartbeat fresh.
\<close>

theorem live_loops_keep_watchdog_quiet:
  assumes "serving d http t0 s" "d \<le> 28000000000" "time s div 1000000 < 2 ^ 64"
    and "t0 \<le> t" "t + length sleeps * WATCHDOG_POLL_INTERVAL + sum_list sleeps \<le> time s"
  shows "watchdog_loop (heartbeat_at (beats s)) WATCHDOG_STALL_TIMEOUT WATCHDOG_POLL_INTERVAL t sleeps = None"
  by (rule server_ok_quiet [OF heartbeats.serving_keeps [OF assms(1) server_ok_start] assms(2-5)])

theorem live_loops_keep_watchdog_quiet_witness:
  "watchdog_loop (heartbeat_at (beats (on_tick Https 2000000000 (accept_loops False 0 :: string server))))
     WATCHDOG_STALL_TIMEOUT WATCHDOG_POLL_INTERVAL 0 [7] = None"
proof -
  have "serving 2000000000 False 0 (accept_loops False 0 :: string server)" by (rule serving.start)
  then have "serving 2000000000 False 0 (on_tick Https 2000000000 (accept_loops False 0 :: string server))"
    by (rule serving.ticked [where l = "new_loop 0"]) (simp_all add: on_time_def accept_loops_def new_loop_def)
  from live_loops_keep_watchdog_quiet [OF this, of 0 "[7]"] show ?thesis by (simp add: WATCHDOG_POLL_INTERVAL_def)
qed

end
