(* ===== verification/Server.thy ===== *)
theory Server
  imports Relay_Spec Reload_Spec Accept_Loop Http Tls
begin

text \<open>
  The rest of \<open>src/main.rs\<close>: what a task does with a connection, from the first bytes of the client
  to the end of the relay, and the start of the process.
\<close>

definition INITIAL_READ_TIMEOUT :: nat where
  "INITIAL_READ_TIMEOUT = 10000"

definition INITIAL_UPSTREAM_WRITE_TIMEOUT :: nat where
  "INITIAL_UPSTREAM_WRITE_TIMEOUT = 10000"

definition RELAY_IDLE_TIMEOUT :: nat where
  "RELAY_IDLE_TIMEOUT = 5 * 60 * 1000"

section \<open>One connection\<close>

text \<open>
  A handled connection: its result, \<open>None\<close> if the relay waits for ever; the milliseconds until the
  relay started or the connection failed before; the client's stream at the end; and the tunnel, as
  it was handed over and at the end, if there was one.
\<close>

record handled =
  outcome_of :: "unit result option"
  opening_ms :: nat
  client :: conn
  tunnels :: "(proxy_stream \<times> proxy_stream) option"

text \<open>\<open>timeout(d, upstream.write_all(bs)).await.context(m)??\<close>, with the tunnel afterwards.\<close>

definition timeout_write :: "nat \<Rightarrow> string \<Rightarrow> bytes \<Rightarrow> proxy_stream \<Rightarrow> unit result \<times> nat \<times> proxy_stream" where
  "timeout_write d m bs u =
     (case tunnel_write (write_all bs) u of
        None \<Rightarrow> (Inl (Context (lit m) (Msg (lit ''deadline has elapsed''))), d, u)
      | Some (r, u') \<Rightarrow>
          (let t = clock (tunnel_conn u') - clock (tunnel_conn u)
           in if t \<le> d then (r, t, u') else (Inl (Context (lit m) (Msg (lit ''deadline has elapsed''))), d, u')))"

definition read_target :: "inbound_protocol \<Rightarrow> conn \<Rightarrow> ((target \<times> bytes) \<times> conn) result \<times> nat" where
  "read_target p c =
     (case p of
        Http \<Rightarrow> timeout_context INITIAL_READ_TIMEOUT ''timed out reading HTTP header'' read_http_target c
      | Https \<Rightarrow> timeout_context INITIAL_READ_TIMEOUT ''timed out reading TLS ClientHello'' read_https_target c)"

text \<open>The two streams' clocks run in the same time base; the relay starts when both have been reached.\<close>

definition handle_connection ::
  "('tls, 'name) network \<Rightarrow> (bytes \<Rightarrow> str) \<Rightarrow> relay_env \<Rightarrow> 'tls runtime \<Rightarrow> inbound_protocol \<Rightarrow> conn \<Rightarrow> handled" where
  "handle_connection net b64 renv rt p c =
     (case read_target p c of
        (Inl e, t1) \<Rightarrow> \<lparr>outcome_of = Some (Inl e), opening_ms = t1, client = c, tunnels = None\<rparr>
      | (Inr ((target, initial), c1), t1) \<Rightarrow>
          (let hops = lookup (routing rt) (t_host target)
           in case connect_with_fallback net b64 hops target of
                (Inl e, t2, _) \<Rightarrow> \<lparr>outcome_of = Some (Inl e), opening_ms = t1 + t2, client = c1, tunnels = None\<rparr>
              | (Inr up, t2, _) \<Rightarrow>
                  (case timeout_write INITIAL_UPSTREAM_WRITE_TIMEOUT ''timed out writing initial traffic upstream'' initial up of
                     (Inl e, t3, up1) \<Rightarrow>
                       \<lparr>outcome_of = Some (Inl e), opening_ms = t1 + t2 + t3, client = c1, tunnels = Some (up, up1)\<rparr>
                   | (Inr _, t3, up1) \<Rightarrow>
                       (case copy_bidirectional_with_idle_timeout (renv\<lparr>idle_timeout := RELAY_IDLE_TIMEOUT\<rparr>) c1 up1
                               (max (clock c1) (clock (tunnel_conn up1))) of
                          (r, st) \<Rightarrow>
                            \<lparr>outcome_of = map_option (\<lambda>r. try_res (with_context ''relay traffic'' r) (\<lambda>_. Inr ())) r,
                             opening_ms = t1 + t2 + t3, client = inbound st, tunnels = Some (up, upstream st)\<rparr>))))"

lemma read_target_prefix:
  assumes "fst (read_target p c) = Inr ((target, initial), c1)"
  shows "initial @ pending c1 = pending c \<and> sent c1 = sent c \<and> mode c1 = mode c"
proof (cases p)
  case Http
  with assms have "read_http_target c = Some (Inr (target, initial), c1)"
    by (auto simp: read_target_def timeout_context_Inr)
  then have "read_until_header_end c = Some (Inr initial, c1)" by (auto simp: read_http_target_def io_bind_Inr)
  from read_until_result [OF this [unfolded read_until_header_end_def]] show ?thesis
    by (auto simp: header_decide_def split: if_splits)
next
  case Https
  with assms have "read_https_target c = Some (Inr (target, initial), c1)"
    by (auto simp: read_target_def timeout_context_Inr)
  from read_until_result [OF this [unfolded read_https_target_def]] show ?thesis
    by (auto simp: hello_decide_def split: if_splits option.splits client_hello_status.splits)
qed

lemma timeout_write_sent:
  assumes "timeout_write d m bs u = (r, t, u')"
  obtains k where "sent (tunnel_conn u') = sent (tunnel_conn u) @ take k bs" "r = Inr () \<Longrightarrow> take k bs = bs"
    "tunnel_bytes u' = tunnel_bytes u" "t \<le> d"
proof (cases "tunnel_write (write_all bs) u")
  case None
  with assms that [of 0] show thesis by (auto simp: timeout_write_def)
next
  case (Some w)
  obtain r1 u1 where w: "w = (r1, u1)" by fastforce
  note tw = tunnel_write_conn [OF Some [unfolded w]]
  obtain k where k: "sent (tunnel_conn u1) = sent (tunnel_conn u) @ take k bs" "r1 = Inr () \<Longrightarrow> take k bs = bs"
    "pending (tunnel_conn u1) = pending (tunnel_conn u)"
    using write_all_sent tw by blast
  with tw have "tunnel_bytes u1 = tunnel_bytes u" by blast
  with k assms Some w show thesis by (intro that [of k]) (auto simp: timeout_write_def Let_def split: if_splits)
qed

lemma handle_connection_cases:
  obtains (no_target) e t where "read_target p c = (Inl e, t)"
      "handle_connection net b64 renv rt p c = \<lparr>outcome_of = Some (Inl e), opening_ms = t, client = c, tunnels = None\<rparr>"
  | (no_tunnel) target initial c1 t1 e t2 w where "read_target p c = (Inr ((target, initial), c1), t1)"
      "connect_with_fallback net b64 (lookup (routing rt) (t_host target)) target = (Inl e, t2, w)"
      "handle_connection net b64 renv rt p c = \<lparr>outcome_of = Some (Inl e), opening_ms = t1 + t2, client = c1, tunnels = None\<rparr>"
  | (no_write) target initial c1 t1 up t2 w e t3 up1 where "read_target p c = (Inr ((target, initial), c1), t1)"
      "connect_with_fallback net b64 (lookup (routing rt) (t_host target)) target = (Inr up, t2, w)"
      "timeout_write INITIAL_UPSTREAM_WRITE_TIMEOUT ''timed out writing initial traffic upstream'' initial up = (Inl e, t3, up1)"
      "handle_connection net b64 renv rt p c =
         \<lparr>outcome_of = Some (Inl e), opening_ms = t1 + t2 + t3, client = c1, tunnels = Some (up, up1)\<rparr>"
  | (relayed) target initial c1 t1 up t2 w t3 up1 r st where "read_target p c = (Inr ((target, initial), c1), t1)"
      "connect_with_fallback net b64 (lookup (routing rt) (t_host target)) target = (Inr up, t2, w)"
      "timeout_write INITIAL_UPSTREAM_WRITE_TIMEOUT ''timed out writing initial traffic upstream'' initial up = (Inr (), t3, up1)"
      "copy_bidirectional_with_idle_timeout (renv\<lparr>idle_timeout := RELAY_IDLE_TIMEOUT\<rparr>) c1 up1
         (max (clock c1) (clock (tunnel_conn up1))) = (r, st)"
      "handle_connection net b64 renv rt p c =
         \<lparr>outcome_of = map_option (\<lambda>r. try_res (with_context ''relay traffic'' r) (\<lambda>_. Inr ())) r,
          opening_ms = t1 + t2 + t3, client = inbound st, tunnels = Some (up, upstream st)\<rparr>"
proof -
  obtain r1 t1 where r1: "read_target p c = (r1, t1)" by fastforce
  show thesis
  proof (cases r1)
    case (Inl e)
    with r1 no_target show thesis by (simp add: handle_connection_def)
  next
    case (Inr x)
    then obtain target initial c1 where x: "r1 = Inr ((target, initial), c1)" by (metis surj_pair)
    obtain r2 t2 w where r2: "connect_with_fallback net b64 (lookup (routing rt) (t_host target)) target = (r2, t2, w)"
      by (metis surj_pair)
    show thesis
    proof (cases r2)
      case (Inl e)
      with r1 x r2 no_tunnel show thesis by (simp add: handle_connection_def Let_def)
    next
      case up: (Inr up)
      obtain r3 t3 up1 where r3: "timeout_write INITIAL_UPSTREAM_WRITE_TIMEOUT ''timed out writing initial traffic upstream'' initial up = (r3, t3, up1)"
        by (metis surj_pair)
      show thesis
      proof (cases r3)
        case (Inl e)
        with r1 x r2 up r3 no_write show thesis by (simp add: handle_connection_def Let_def)
      next
        case (Inr u)
        obtain r st where "copy_bidirectional_with_idle_timeout (renv\<lparr>idle_timeout := RELAY_IDLE_TIMEOUT\<rparr>) c1 up1
            (max (clock c1) (clock (tunnel_conn up1))) = (r, st)" by fastforce
        with r1 x r2 up r3 Inr relayed show thesis by (simp add: handle_connection_def Let_def)
      qed
    qed
  qed
qed

lemma connection_bytes:
  "let h = handle_connection net b64 renv rt p c
   in case tunnels h of
        None \<Rightarrow> sent (client h) = sent c \<and> (\<exists>e. outcome_of h = Some (Inl e))
      | Some (up, up') \<Rightarrow>
          (\<exists>target initial c1. fst (read_target p c) = Inr ((target, initial), c1) \<and>
             fst (connect_with_fallback net b64 (lookup (routing rt) (t_host target)) target) = Inr up) \<and>
          (\<exists>x l y m. sent (tunnel_conn up') = sent (tunnel_conn up) @ x \<and> pending c = x @ l \<and>
             sent (client h) = sent c @ y \<and> tunnel_bytes up = y @ m \<and>
             (case outcome_of h of Some (Inr _) \<Rightarrow> l = [] \<and> m = [] | _ \<Rightarrow> True))"
proof (cases rule: handle_connection_cases [where net = net and ?b64.0 = b64 and renv = renv and rt = rt and p = p and c = c])
  case (no_target e t)
  then show ?thesis by simp
next
  case (no_tunnel target initial c1 t1 e t2 w)
  with read_target_prefix [of p c target initial c1] show ?thesis by simp
next
  case (no_write target initial c1 t1 up t2 w e t3 up1)
  have i: "initial @ pending c1 = pending c" "sent c1 = sent c" using read_target_prefix [of p c target initial c1] no_write(1) by simp_all
  obtain k where k: "sent (tunnel_conn up1) = sent (tunnel_conn up) @ take k initial"
    using timeout_write_sent [OF no_write(3)] by blast
  have "pending c = take k initial @ (drop k initial @ pending c1)" using i(1) by (metis append_assoc append_take_drop_id)
  with no_write i(2) k show ?thesis by (auto intro!: exI [of _ "take k initial"])
next
  case (relayed target initial c1 t1 up t2 w t3 up1 r st)
  have i: "initial @ pending c1 = pending c" "sent c1 = sent c" using read_target_prefix [of p c target initial c1] relayed(1) by simp_all
  obtain k where k: "sent (tunnel_conn up1) = sent (tunnel_conn up) @ take k initial" "take k initial = initial"
    "tunnel_bytes up1 = tunnel_bytes up"
    using timeout_write_sent [OF relayed(3)] by metis
  obtain x y l m where f: "sent (tunnel_conn (upstream st)) = sent (tunnel_conn up1) @ x" "pending c1 = x @ l"
    "sent (inbound st) = sent c1 @ y" "tunnel_bytes up1 = y @ m" "\<And>v. r = Some (Inr v) \<Longrightarrow> l = [] \<and> m = []"
    by (rule relay_forwardsE [OF relayed(4)]) blast
  have "case map_option (\<lambda>r. try_res (with_context ''relay traffic'' r) (\<lambda>_. Inr ())) r of Some (Inr _) \<Rightarrow> l = [] \<and> m = [] | _ \<Rightarrow> True"
    using f(5) by (auto simp: with_context_def split: option.splits sum.splits)
  moreover have "sent (tunnel_conn (upstream st)) = sent (tunnel_conn up) @ (initial @ x)" "pending c = (initial @ x) @ l"
    "sent (inbound st) = sent c @ y" "tunnel_bytes up = y @ m"
    using f(1-4) k i by simp_all
  moreover have "fst (read_target p c) = Inr ((target, initial), c1)"
    "fst (connect_with_fallback net b64 (lookup (routing rt) (t_host target)) target) = Inr up"
    using relayed(1,2) by simp_all
  ultimately show ?thesis unfolding Let_def relayed(5) handled.simps option.case prod.case by blast
qed

text \<open>
  C2: The proxy is transparent. Whatever the client, the proxies and the network do: a client whose
  connection cannot be opened gets no byte; otherwise the tunnel leads to the host read from the
  client's first bytes, through the first working proxy of its rule, and what is written to it after
  the handshake is a prefix of all the client sent, from its very first byte; what the client gets
  is a prefix of what comes out of the tunnel. If the connection ends without an error, both are
  complete.
\<close>

theorem connection_transparent:
  "let h = handle_connection net b64 renv rt p c
   in case tunnels h of
        None \<Rightarrow> sent (client h) = sent c \<and> (\<exists>e. outcome_of h = Some (Inl e))
      | Some (up, up') \<Rightarrow>
          (\<exists>target initial c1. fst (read_target p c) = Inr ((target, initial), c1) \<and>
             fst (connect_with_fallback net b64 (lookup (routing rt) (t_host target)) target) = Inr up) \<and>
          (\<exists>x l y m. sent (tunnel_conn up') = sent (tunnel_conn up) @ x \<and> pending c = x @ l \<and>
             sent (client h) = sent c @ y \<and> tunnel_bytes up = y @ m \<and>
             (case outcome_of h of Some (Inr _) \<Rightarrow> l = [] \<and> m = [] | _ \<Rightarrow> True))"
  by (rule connection_bytes)

text \<open>
  C21: Opening a connection never hangs: the request is read, the tunnel opened and the first bytes
  passed on, or it fails, within ten seconds to read, thirty for each proxy of the rule, and ten to
  write. Only the relay may go on for ever.
\<close>

theorem opening_bounded:
  "let h = handle_connection net b64 renv rt p c
   in (case fst (read_target p c) of
         Inl _ \<Rightarrow> opening_ms h \<le> 10000
       | Inr ((target, _), _) \<Rightarrow> opening_ms h \<le> 20000 + 30000 * length (lookup (routing rt) (t_host target))) \<and>
      (case outcome_of h of None \<Rightarrow> tunnels h \<noteq> None | Some _ \<Rightarrow> True)"
proof -
  have r: "t \<le> 10000" if "read_target p c = (x, t)" for x t
  proof -
    have "snd (read_target p c) \<le> 10000"
      by (cases p) (simp_all add: read_target_def INITIAL_READ_TIMEOUT_def timeout_context_bounded)
    with that show ?thesis by simp
  qed
  have w: "t \<le> 10000" if "timeout_write INITIAL_UPSTREAM_WRITE_TIMEOUT m bs u = (x, t, u')" for m bs u x t u'
    using timeout_write_sent [OF that] by (auto simp: INITIAL_UPSTREAM_WRITE_TIMEOUT_def)
  show ?thesis
  proof (cases rule: handle_connection_cases [where net = net and ?b64.0 = b64 and renv = renv and rt = rt and p = p and c = c])
    case (no_target e t)
    with r show ?thesis by simp
  next
    case (no_tunnel target initial c1 t1 e t2 w)
    with r [OF no_tunnel(1)] fallback_time [OF no_tunnel(2)] show ?thesis by simp
  next
    case (no_write target initial c1 t1 up t2 w' e t3 up1)
    with r [OF no_write(1)] fallback_time [OF no_write(2)] w [OF no_write(3)] show ?thesis by simp
  next
    case (relayed target initial c1 t1 up t2 w' t3 up1 x st)
    with r [OF relayed(1)] fallback_time [OF relayed(2)] w [OF relayed(3)] show ?thesis
      by (simp add: Let_def split: option.splits)
  qed
qed

lemma timeout_write_accepts:
  assumes "mode (tunnel_conn u) = Accepts"
  obtains u' where "timeout_write d m bs u = (Inr (), 0, u')" "mode (tunnel_conn u') = Accepts"
    "incoming (tunnel_conn u') = incoming (tunnel_conn u)"
proof -
  obtain u' where "tunnel_write (write_all bs) u = Some (Inr (), u')" "mode (tunnel_conn u') = Accepts"
    "incoming (tunnel_conn u') = incoming (tunnel_conn u)" "clock (tunnel_conn u') = clock (tunnel_conn u)"
    using tunnel_write_accepts [OF assms] by blast
  with that show thesis by (simp add: timeout_write_def)
qed

lemma connection_completes:
  assumes "fst (read_target p c) = Inr ((target, initial), c1)"
    and "fst (connect_with_fallback net b64 (lookup (routing rt) (t_host target)) target) = Inr up"
    and "mode c = Accepts" "mode (tunnel_conn up) = Accepts"
    and "prompt RELAY_IDLE_TIMEOUT (incoming c1)" "prompt RELAY_IDLE_TIMEOUT (incoming (tunnel_conn up))"
    and "shutdown_a renv = Some (Inr ())" "shutdown_b renv = Some (Inr ())"
  shows "\<exists>up'. outcome_of (handle_connection net b64 renv rt p c) = Some (Inr ()) \<and>
    tunnels (handle_connection net b64 renv rt p c) = Some (up, up') \<and>
    sent (tunnel_conn up') = sent (tunnel_conn up) @ pending c \<and>
    sent (client (handle_connection net b64 renv rt p c)) = sent c @ tunnel_bytes up"
proof -
  note i = read_target_prefix [OF assms(1)]
  obtain u1 where u1: "timeout_write INITIAL_UPSTREAM_WRITE_TIMEOUT ''timed out writing initial traffic upstream'' initial up = (Inr (), 0, u1)"
    "mode (tunnel_conn u1) = Accepts" "incoming (tunnel_conn u1) = incoming (tunnel_conn up)"
    using timeout_write_accepts [OF assms(4)] by blast
  obtain k where k: "sent (tunnel_conn u1) = sent (tunnel_conn up) @ initial" "tunnel_bytes u1 = tunnel_bytes up"
    using timeout_write_sent [OF u1(1)] by metis
  let ?env = "renv\<lparr>idle_timeout := RELAY_IDLE_TIMEOUT\<rparr>" and ?t = "max (clock c1) (clock (tunnel_conn u1))"
  have "\<exists>st. copy_bidirectional_with_idle_timeout ?env c1 u1 ?t =
             (Some (Inr (of_nat (length (pending c1)), of_nat (length (tunnel_bytes u1)))), st) \<and>
           sent (tunnel_conn (upstream st)) = sent (tunnel_conn u1) @ pending c1 \<and> sent (inbound st) = sent c1 @ tunnel_bytes u1 \<and>
           a_shut st \<and> b_shut st"
    by (rule relay_finishes) (use assms i u1 in simp_all)
  then obtain st where st: "copy_bidirectional_with_idle_timeout ?env c1 u1 ?t =
      (Some (Inr (of_nat (length (pending c1)), of_nat (length (tunnel_bytes u1)))), st)"
    "sent (tunnel_conn (upstream st)) = sent (tunnel_conn u1) @ pending c1" "sent (inbound st) = sent c1 @ tunnel_bytes u1" by blast
  obtain t1 where t1: "read_target p c = (Inr ((target, initial), c1), t1)" using assms(1) by (metis prod.collapse)
  obtain t2 w where t2: "connect_with_fallback net b64 (lookup (routing rt) (t_host target)) target = (Inr up, t2, w)"
    using assms(2) by (metis prod.collapse)
  have "handle_connection net b64 renv rt p c =
      \<lparr>outcome_of = Some (Inr ()), opening_ms = t1 + t2, client = inbound st, tunnels = Some (up, upstream st)\<rparr>"
    by (simp add: handle_connection_def t1 t2 Let_def u1(1) st(1))
  moreover have "sent (tunnel_conn (upstream st)) = sent (tunnel_conn up) @ pending c" using st(2) k i by (metis append_assoc)
  moreover have "sent (inbound st) = sent c @ tunnel_bytes up" using st(3) k i by simp
  ultimately show ?thesis by simp
qed

text \<open>
  C3: A well-behaved connection is served in full: if the client names its host in time, a proxy of
  the rule can be reached, and both ends take what is written and finish without pausing for five
  minutes, then the connection ends without an error, the server has got every byte of the client
  and the client every byte of the server.
\<close>

theorem connection_served:
  assumes "fst (read_target p c) = Inr ((target, initial), c1)"
    and "fst (connect_with_fallback net b64 (lookup (routing rt) (t_host target)) target) = Inr up"
    and "mode c = Accepts" "mode (tunnel_conn up) = Accepts"
    and "prompt RELAY_IDLE_TIMEOUT (incoming c1)" "prompt RELAY_IDLE_TIMEOUT (incoming (tunnel_conn up))"
    and "shutdown_a renv = Some (Inr ())" "shutdown_b renv = Some (Inr ())"
  shows "\<exists>up'. outcome_of (handle_connection net b64 renv rt p c) = Some (Inr ()) \<and>
    tunnels (handle_connection net b64 renv rt p c) = Some (up, up') \<and>
    sent (tunnel_conn up') = sent (tunnel_conn up) @ pending c \<and>
    sent (client (handle_connection net b64 renv rt p c)) = sent c @ tunnel_bytes up"
  by (rule connection_completes [OF assms])

definition served_request :: bytes where
  "served_request = lit ''GET / HTTP/1.1'' @ CRLF @ lit ''Host: a.b'' @ CRLF @ CRLF"

definition served_client :: conn where
  "served_client = \<lparr>clock = 5, incoming = [(20, Data served_request), (3, Data [66]), (9000, Eof)], sent = [], mode = Accepts\<rparr>"

definition served_proxy :: conn where
  "served_proxy = \<lparr>clock = 7, incoming = [(1, Data [5, 0]), (2, Data [5, 0, 0, 1, 0, 0, 0, 0, 0, 0]),
     (9, Data [79, 75]), (4, Eof)], sent = [], mode = Accepts\<rparr>"

definition served_runtime :: "unit runtime" where
  "served_runtime = \<lparr>routing = \<lparr>table = [], fallback = [\<lparr>hop_name = lit ''jp'',
     hop_proxy = \<lparr>kind = Socks5, host = lit ''p'', port = 1080, username = None, password = None, tls_connector = None\<rparr>\<rparr>]\<rparr>,
     hostnames = [], fingerprint = 0\<rparr>"

definition served_net :: "(unit, str) network" where
  "served_net = \<lparr>dial_tcp = (\<lambda>_ _. Some (30, Inr served_proxy)), server_name = Inr, tls_handshake = (\<lambda>_ _ _. None)\<rparr>"

definition served_target :: target where
  "served_target = \<lparr>t_host = lit ''a.b'', t_port = 80\<rparr>"

definition served_hop :: "unit hop" where
  "served_hop = \<lparr>hop_name = lit ''jp'',
     hop_proxy = \<lparr>kind = Socks5, host = lit ''p'', port = 1080, username = None, password = None, tls_connector = None\<rparr>\<rparr>"

definition served_tunnel :: proxy_stream where
  "served_tunnel = Plain (new_prefixed
     \<lparr>clock = 10, incoming = [(9, Data [79, 75]), (4, Eof)], sent = [5,1,0,5,1,0,3,3,97,46,98,0,80], mode = Accepts\<rparr> [])"

lemma served_read:
  "fst (read_target Http served_client) =
     Inr ((served_target, served_request), \<lparr>clock = 25, incoming = [(3, Data [66]), (9000, Eof)], sent = [], mode = Accepts\<rparr>)"
proof -
  have "read_http_target served_client =
      Some (Inr (served_target, served_request), \<lparr>clock = 25, incoming = [(3, Data [66]), (9000, Eof)], sent = [], mode = Accepts\<rparr>)"
    by code_simp
  then show ?thesis by (simp add: read_target_def timeout_context_Inr served_client_def INITIAL_READ_TIMEOUT_def)
qed

lemma served_connect: "fst (connect_with_fallback served_net id [served_hop] served_target) = Inr served_tunnel"
proof -
  have "socks5_connect (hop_proxy served_hop) served_target served_proxy =
      Some (Inr (), \<lparr>clock = 10, incoming = [(9, Data [79, 75]), (4, Eof)], sent = [5,1,0,5,1,0,3,3,97,46,98,0,80], mode = Accepts\<rparr>)"
    by code_simp
  then have "connect served_net id (hop_proxy served_hop) served_target = (Inr served_tunnel, 33)"
    by (simp add: connect_def then_timed_def timeout_dial_def timeout_context_def timeout_def served_net_def served_hop_def
        served_tunnel_def UPSTREAM_CONNECT_TIMEOUT_def PROXY_HANDSHAKE_TIMEOUT_def) (simp add: served_proxy_def)
  then show ?thesis by (simp add: connect_with_fallback_def)
qed

lemma served_streams:
  "mode served_client = Accepts" "sent served_client = []" "mode (tunnel_conn served_tunnel) = Accepts"
  "prompt RELAY_IDLE_TIMEOUT [(3, Data [66]), (9000, Eof)]" "prompt RELAY_IDLE_TIMEOUT (incoming (tunnel_conn served_tunnel))"
  "tunnel_bytes served_tunnel = lit ''OK''" "shutdown_a sample_relay_env = Some (Inr ())" "shutdown_b sample_relay_env = Some (Inr ())"
  by (simp_all add: served_client_def served_tunnel_def new_prefixed_def sample_relay_env_def RELAY_IDLE_TIMEOUT_def)
    (simp add: pending_def lit_def tunnel_bytes.simps prefixed_bytes_def)

theorem connection_served_witness:
  "outcome_of (handle_connection served_net id sample_relay_env served_runtime Http served_client) = Some (Inr ()) \<and>
   sent (client (handle_connection served_net id sample_relay_env served_runtime Http served_client)) = lit ''OK''"
proof -
  have "lookup (routing served_runtime) (t_host served_target) = [served_hop]"
    by (simp add: lookup_def served_runtime_def served_hop_def)
  with connection_served [OF served_read, of served_net id served_runtime served_tunnel sample_relay_env] served_connect served_streams
  show ?thesis by auto
qed

section \<open>The start of the process\<close>

record cli_args =
  config_arg :: str
  listen_arg :: "ip_addr option"
  hosts_arg :: "path option"
  no_hosts_arg :: bool
  no_http_arg :: bool
  refresh_arg :: "u64 option"
  log_level :: str

definition overrides_of :: "cli_args \<Rightarrow> cli_overrides" where
  "overrides_of cli = \<lparr>cli_listen = listen_arg cli, cli_hosts = hosts_arg cli, no_hosts = no_hosts_arg cli,
     no_http = no_http_arg cli, cli_refresh = refresh_arg cli\<rparr>"

text \<open>
  What the start depends on, besides what a reload depends on (its settings apart): setting up the
  logging, parsing a URL, the calls of the operating system, and the forms of errors as text.
\<close>

record ('tls, 'url) host_env =
  try_init :: "str \<Rightarrow> unit result"
  url_of :: "str \<Rightarrow> 'url result"
  canonical :: "path \<Rightarrow> path result"
  bind :: "ip_addr \<Rightarrow> u16 \<Rightarrow> unit result"
  debug_duration :: "nat \<Rightarrow> str"
  show_err :: "error \<Rightarrow> str"
  show_chain :: "error \<Rightarrow> str"
  reloads :: "'tls reload_env"

definition init_tracing :: "('tls, 'url) host_env \<Rightarrow> str \<Rightarrow> unit result" where
  "init_tracing henv level =
     (case try_init henv level of
        Inl e \<Rightarrow> Inl (Msg (lit ''initialize logging: '' @ show_err henv e))
      | Inr u \<Rightarrow> Inr u)"

text \<open>What the start does that others can see, in order.\<close>

datatype action = Heartbeat | Watching | Listening ip_addr u16 | SyncingHosts | Reloading | Accepting inbound_protocol

record ('tls, 'url) started =
  reload_env_of :: "'tls reload_env"
  source_of :: "'url config_source"
  state_of :: "'tls reload_state"

definition bind_context :: "ip_addr \<Rightarrow> string \<Rightarrow> str" where
  "bind_context ip p = lit ''bind '' @ ip_to_string ip @ lit p"

definition bound :: "str \<Rightarrow> unit result \<Rightarrow> unit result" where
  "bound m r = (case r of Inl e \<Rightarrow> Inl (Context m e) | Inr u \<Rightarrow> Inr u)"

text \<open>The end of \<open>main\<close>: the reload loop is spawned and the accept loops run.\<close>

definition accepting :: "static_settings \<Rightarrow> action list" where
  "accepting st = [Reloading, Heartbeat] @ (if http st then [Accepting Http] else []) @ [Accepting Https]"

definition start_listening ::
  "('tls, 'url) host_env \<Rightarrow> 'tls reload_env \<Rightarrow> 'url config_source \<Rightarrow> 'tls reload_state \<Rightarrow>
     action list \<times> fs \<times> ('tls, 'url) started result" where
  "start_listening henv renv source s =
     (let st = settings renv
      in case bound (bind_context (listen st) '':443'') (bind henv (listen st) 443) of
           Inl e \<Rightarrow> ([], filesys s, Inl e)
         | Inr _ \<Rightarrow>
             (case (if http st then bound (bind_context (listen st) '':80'') (bind henv (listen st) 80) else Inr ()) of
                Inl e \<Rightarrow> ([Listening (listen st) 443], filesys s, Inl e)
              | Inr _ \<Rightarrow>
                  (let s1 = apply_hosts renv (routes s) s
                   in ([Listening (listen st) 443] @ (if http st then [Listening (listen st) 80] else []) @
                         [Heartbeat, SyncingHosts, Heartbeat] @ accepting st,
                       filesys s1, Inr \<lparr>reload_env_of = renv, source_of = source, state_of = s1\<rparr>))))"

definition start_main :: "('tls, 'url) host_env \<Rightarrow> cli_args \<Rightarrow> fs \<Rightarrow> action list \<times> fs \<times> ('tls, 'url) started result" where
  "start_main henv cli f =
     (case init_tracing henv (log_level cli) of
        Inl e \<Rightarrow> ([], f, Inl e)
      | Inr _ \<Rightarrow>
          (case parse_source (url_of henv) (config_arg cli) of
             Inl e \<Rightarrow> ([Heartbeat, Watching], f, Inl e)
           | Inr source \<Rightarrow>
               (case fetch_with_hard_timeout (fetch_at (reloads henv) 0) CONFIG_FETCH_HARD_TIMEOUT
                       \<lparr>now = 0, slots = new_in_flight MAX_IN_FLIGHT_FETCHES, running = []\<rparr> of
                  (Inl e, _) \<Rightarrow> ([Heartbeat, Watching], f, 
                    Inl (Msg (fetch_error_fmt (debug_duration henv) (show_err henv) (show_chain henv) e)))
                | (Inr t, w) \<Rightarrow>
                    (let acts = [Heartbeat, Watching, Heartbeat]
                     in case try_res (parse_yaml (serde_yaml (reloads henv)) t) (\<lambda>yaml.
                          try_res (merge_settings yaml (overrides_of cli)) (\<lambda>st.
                          try_res (from_yaml (url_parse (reloads henv)) (tls_client (reloads henv)) (siphash (reloads henv)) yaml) (\<lambda>rt.
                          Inr (yaml, st, rt)))) of
                          Inl e \<Rightarrow> (acts, f, Inl e)
                        | Inr (yaml, st, rt) \<Rightarrow>
                            (case start_listening henv ((reloads henv)\<lparr>settings := st\<rparr>) (prepare_source (canonical henv) source)
                                    \<lparr>world = w, routes = rt, receivers = True, last_yaml = yaml, filesys = f, journal = []\<rparr> of
                               (acts', f', r) \<Rightarrow> (acts @ [Heartbeat] @ acts', f', r))))))"

lemma merge_settings_loopback: "merge_settings yaml cli = Inr st \<Longrightarrow> is_loopback (listen st) \<and> refresh st \<noteq> 0"
  by (auto simp: merge_settings_def Let_def split: if_splits)

lemma fetch_at_start:
  assumes "fetch_with_hard_timeout run d \<lparr>now = 0, slots = new_in_flight m, running = []\<rparr> = (Inr t, w)"
  shows "slots w = new_in_flight m \<and> running w = []"
proof -
  have "\<exists>u. run = Finishes u (Inr t) \<and> u \<le> d \<and> m \<noteq> 0 \<and>
      w = wait_until u \<lparr>now = 0, slots = (new_in_flight m)\<lparr>current := 1\<rparr>, running = [Some u]\<rparr>"
    using assms by (auto simp: fetch_with_hard_timeout_def try_acquire_def new_in_flight_def Let_def
        split: if_splits fetch_run.splits sum.splits)
  then show ?thesis by (auto simp: wait_until_def over_def release_def new_in_flight_def)
qed

text \<open>A start that gets as far as listening, and one that does not.\<close>

lemma start_main_cases:
  obtains (failed) acts e where "start_main henv cli f = (acts, f, Inl e)" "set acts \<subseteq> {Heartbeat, Watching}"
  | (configured) t w yaml st rt source acts f' r where
      "fetch_with_hard_timeout (fetch_at (reloads henv) 0) CONFIG_FETCH_HARD_TIMEOUT
         \<lparr>now = 0, slots = new_in_flight MAX_IN_FLIGHT_FETCHES, running = []\<rparr> = (Inr t, w)"
      "parse_yaml (serde_yaml (reloads henv)) t = Inr yaml" "merge_settings yaml (overrides_of cli) = Inr st"
      "from_yaml (url_parse (reloads henv)) (tls_client (reloads henv)) (siphash (reloads henv)) yaml = Inr rt"
      "start_listening henv ((reloads henv)\<lparr>settings := st\<rparr>) source
         \<lparr>world = w, routes = rt, receivers = True, last_yaml = yaml, filesys = f, journal = []\<rparr> = (acts, f', r)"
      "start_main henv cli f = ([Heartbeat, Watching, Heartbeat, Heartbeat] @ acts, f', r)"
proof (cases "\<exists>acts e. start_main henv cli f = (acts, f, Inl e) \<and> set acts \<subseteq> {Heartbeat, Watching}")
  case True
  with failed show thesis by blast
next
  case False
  obtain u where i: "init_tracing henv (log_level cli) = Inr u"
    using False by (cases "init_tracing henv (log_level cli)") (auto simp: start_main_def)
  with False obtain source where p: "parse_source (url_of henv) (config_arg cli) = Inr source"
    by (cases "parse_source (url_of henv) (config_arg cli)") (auto simp: start_main_def)
  obtain r1 w where r1: "fetch_with_hard_timeout (fetch_at (reloads henv) 0) CONFIG_FETCH_HARD_TIMEOUT
      \<lparr>now = 0, slots = new_in_flight MAX_IN_FLIGHT_FETCHES, running = []\<rparr> = (r1, w)" by fastforce
  with False i p obtain t where t: "r1 = Inr t" by (cases r1) (auto simp: start_main_def)
  note known = i p r1 t
  obtain yaml where y: "parse_yaml (serde_yaml (reloads henv)) t = Inr yaml"
    using False known by (cases "parse_yaml (serde_yaml (reloads henv)) t") (auto simp: start_main_def Let_def)
  obtain st where st: "merge_settings yaml (overrides_of cli) = Inr st"
    using False known y by (cases "merge_settings yaml (overrides_of cli)") (auto simp: start_main_def Let_def)
  obtain rt where rt: "from_yaml (url_parse (reloads henv)) (tls_client (reloads henv)) (siphash (reloads henv)) yaml = Inr rt"
    using False known y st
    by (cases "from_yaml (url_parse (reloads henv)) (tls_client (reloads henv)) (siphash (reloads henv)) yaml")
      (auto simp: start_main_def Let_def)
  obtain acts f' r where l: "start_listening henv ((reloads henv)\<lparr>settings := st\<rparr>) (prepare_source (canonical henv) source)
      \<lparr>world = w, routes = rt, receivers = True, last_yaml = yaml, filesys = f, journal = []\<rparr> = (acts, f', r)"
    by (metis surj_pair)
  show thesis
    by (rule configured [OF r1 [unfolded t] y st rt l]) (simp add: start_main_def Let_def known y st rt l)
qed

definition loopback_only :: "action list \<Rightarrow> bool" where
  "loopback_only acts \<longleftrightarrow> list_all (\<lambda>a. case a of Listening ip p \<Rightarrow> is_loopback ip \<and> (p = 443 \<or> p = 80) | _ \<Rightarrow> True) acts"

lemma start_listening_result:
  assumes "start_listening henv renv source s = (acts, f', r)" "is_loopback (listen (settings renv))"
  shows "loopback_only acts \<and>
    (case r of
       Inl _ \<Rightarrow> f' = filesys s \<and> SyncingHosts \<notin> set acts \<and> Reloading \<notin> set acts \<and> list_all (\<lambda>a. case a of Accepting _ \<Rightarrow> False | _ \<Rightarrow> True) acts
     | Inr x \<Rightarrow> x = \<lparr>reload_env_of = renv, source_of = source, state_of = apply_hosts renv (routes s) s\<rparr> \<and>
         bind henv (listen (settings renv)) 443 = Inr () \<and>
         (if http (settings renv) then Accepting Http \<in> set acts \<and> bind henv (listen (settings renv)) 80 = Inr ()
          else Accepting Http \<notin> set acts))"
  using assms
  by (auto simp: start_listening_def Let_def loopback_only_def accepting_def bound_def split: sum.splits if_splits)

text \<open>
  C15: The process never listens on anything but loopback addresses, on ports 443 and 80. A start that
  fails, whatever the reason (the log filter, the source, the fetch, the configuration, a port in
  use), leaves the hosts file as it was, accepts nothing and starts no reloading. A start that
  succeeds has a well-formed configuration, the routing it gives, and both ports it needs.
\<close>

theorem start_safe:
  "case start_main henv cli f of (acts, f', r) \<Rightarrow>
     loopback_only acts \<and>
     (case r of
        Inl _ \<Rightarrow> f' = f \<and> SyncingHosts \<notin> set acts \<and> Reloading \<notin> set acts \<and> list_all (\<lambda>a. case a of Accepting _ \<Rightarrow> False | _ \<Rightarrow> True) acts
      | Inr x \<Rightarrow>
          let yaml = last_yaml (state_of x); st = settings (reload_env_of x)
          in wf_config yaml \<and> merge_settings yaml (overrides_of cli) = Inr st \<and>
             from_yaml (url_parse (reloads henv)) (tls_client (reloads henv)) (siphash (reloads henv)) yaml = Inr (routes (state_of x)) \<and>
             bind henv (listen st) 443 = Inr () \<and> (if http st then bind henv (listen st) 80 = Inr () else Accepting Http \<notin> set acts))"
proof (cases rule: start_main_cases [of henv cli f])
  case (failed acts e)
  then have "Listening ip p \<notin> set acts" "Accepting q \<notin> set acts" "SyncingHosts \<notin> set acts" "Reloading \<notin> set acts" for ip p q by auto
  with failed show ?thesis by (auto simp: loopback_only_def list_all_iff split: action.splits)
next
  case (configured t w yaml st rt source acts f' r)
  note l = start_listening_result [OF configured(5)] merge_settings_loopback [OF configured(3)]
  show ?thesis
  proof (cases r)
    case (Inl e)
    with l configured(6) show ?thesis by (simp add: loopback_only_def)
  next
    case (Inr x)
    with l configured(2-4,6) parse_yaml_config [OF configured(2)] show ?thesis
      by (auto simp: loopback_only_def Let_def)
  qed
qed

text \<open>How a started process begins.\<close>

lemma start_main_state:
  assumes "start_main henv cli f = (acts, f', Inr x)"
  shows "slots_ok (world (state_of x))" "slots_max (slots (world (state_of x))) = MAX_IN_FLIGHT_FETCHES"
    "built_from (reload_env_of x) (last_yaml (state_of x)) (routes (state_of x))"
proof -
  have "slots_ok (world (state_of x)) \<and> slots_max (slots (world (state_of x))) = MAX_IN_FLIGHT_FETCHES \<and>
    built_from (reload_env_of x) (last_yaml (state_of x)) (routes (state_of x))"
  proof (cases rule: start_main_cases [of henv cli f])
    case (failed acts e)
    with assms show ?thesis by simp
  next
    case (configured t w yaml st rt source acts' f'' r)
    note l = start_listening_result [OF configured(5)] merge_settings_loopback [OF configured(3)]
    let ?env = "(reloads henv)\<lparr>settings := st\<rparr>"
    let ?s = "\<lparr>world = w, routes = rt, receivers = True, last_yaml = yaml, filesys = f, journal = []\<rparr>"
    have x: "reload_env_of x = ?env" "state_of x = apply_hosts ?env rt ?s" using l configured(6) assms by auto
    have "slots_ok w \<and> slots_max (slots w) = MAX_IN_FLIGHT_FETCHES"
      using fetch_at_start [OF configured(1)] by (simp add: slots_ok_def new_in_flight_def)
    then have "slots_ok (world (state_of x)) \<and> slots_max (slots (world (state_of x))) = MAX_IN_FLIGHT_FETCHES"
      using apply_hosts_world [where s = ?s and env = ?env and rt = rt] unfolding x by simp
    moreover have "built_from (reload_env_of x) (last_yaml (state_of x)) (routes (state_of x))"
      using parse_yaml_config [OF configured(2)] configured(4) unfolding x by (simp add: built_from_def)
    ultimately show ?thesis by simp
  qed
  then show "slots_ok (world (state_of x))" "slots_max (slots (world (state_of x))) = MAX_IN_FLIGHT_FETCHES"
    "built_from (reload_env_of x) (last_yaml (state_of x)) (routes (state_of x))" by blast+
qed

definition sample_host :: "(unit, unit) host_env" where
  "sample_host = \<lparr>try_init = (\<lambda>_. Inr ()), url_of = (\<lambda>_. Inr ()), canonical = (\<lambda>p. Inr p), bind = (\<lambda>_ _. Inr ()),
     debug_duration = (\<lambda>_. []), show_err = (\<lambda>_. []), show_chain = (\<lambda>_. []), reloads = sample_env\<rparr>"

definition sample_cli :: cli_args where
  "sample_cli = \<lparr>config_arg = lit ''nya.yaml'', listen_arg = None, hosts_arg = None, no_hosts_arg = True, no_http_arg = False,
     refresh_arg = None, log_level = lit ''info''\<rparr>"

lemma sample_start:
  assumes "from_yaml up () (\<lambda>_. 0) sample_config = Inr rt"
  obtains acts f' x where
    "start_main (sample_host\<lparr>reloads := sample_env\<lparr>url_parse := up\<rparr>\<rparr>) sample_cli
       \<lparr>files = (\<lambda>_. None), script = [], new_perms = 420\<rparr> = (acts, f', Inr x)"
    "routes (state_of x) = rt" "http (settings (reload_env_of x))"
proof -
  have u: "parse_source (\<lambda>_. Inr () :: unit result) (lit ''nya.yaml'') = Inr (File (path_from (lit ''nya.yaml'')))" by code_simp
  obtain w where w: "fetch_with_hard_timeout (Finishes 40 (Inr [])) CONFIG_FETCH_HARD_TIMEOUT sample_world = (Inr [], w)"
    using fetch_Inr [of sample_world "Finishes 40 (Inr [])" CONFIG_FETCH_HARD_TIMEOUT "[]"]
    by (auto simp: CONFIG_FETCH_HARD_TIMEOUT_def new_in_flight_def MAX_IN_FLIGHT_FETCHES_def)
  let ?st = "\<lparr>listen = V4 127 0 0 2, http = True, hosts_path = None, refresh = 30\<rparr>"
  have st: "merge_settings sample_config (overrides_of sample_cli) = Inr ?st" by code_simp
  let ?x = "\<lparr>reload_env_of = sample_env\<lparr>url_parse := up, settings := ?st\<rparr>,
      source_of = prepare_source (\<lambda>p. Inr p) (File (path_from (lit ''nya.yaml''))),
      state_of = \<lparr>world = w, routes = rt, receivers = True, last_yaml = sample_config,
        filesys = \<lparr>files = (\<lambda>_. None), script = [], new_perms = 420\<rparr>, journal = []\<rparr>\<rparr> :: (unit, unit) started"
  have "\<exists>acts f'. start_main (sample_host\<lparr>reloads := sample_env\<lparr>url_parse := up\<rparr>\<rparr>) sample_cli
       \<lparr>files = (\<lambda>_. None), script = [], new_perms = 420\<rparr> = (acts, f', Inr ?x)"
    using u w st sample_parses assms
    by (simp add: start_main_def init_tracing_def sample_host_def sample_cli_def sample_env_def sample_world_def start_listening_def
        bound_def Let_def apply_hosts_def)
  then show thesis using that by auto
qed

end
