(* ===== verification/Session_Tests.thy ===== *)
theory Session_Tests
  imports Unit_Tests Server
begin

text \<open>
  The unit tests of reloading, the watchdog, the relay and the accept loop, on the model, as in
  \<open>Unit_Tests\<close>. The relay and the watchdog take their timeouts as arguments and run with those of
  the tests; where the code uses a constant, it is that of a release build, and a sleep that exceeds
  a timeout exceeds it by as much.
\<close>

lemmas reload_evaluation =
  new_in_flight_def try_acquire_def release_def over_def wait_until_def fetch_with_hard_timeout_def
  CONFIG_FETCH_HARD_TIMEOUT_def MAX_IN_FLIGHT_FETCHES_def logged_def apply_hosts_def install_def reload_once_def
  sleep_until_def warn_ignored_runtime_changes_def

lemmas watchdog_evaluation =
  beat_def new_heartbeat_def stalled_for_def heartbeat_at_def

lemmas relay_evaluation =
  relay_loop.simps RELAY_BUFFER_def read_a_def read_b_def ready_def earliest_def select_def from_a_def from_b_def
  relay_turn_def prefixed_write_def tunnel_write_def copy_bidirectional_with_idle_timeout_def

section \<open>Reloading\<close>

definition reload_sample_text :: str where
  "reload_sample_text = [10] @ test_lines [
     ''proxies:'', ''  jp: http://127.0.0.1:8080'', ''  us: http://127.0.0.1:8081'',
     ''rules:'', ''  example.com: us'', ''  default: jp'']"

definition other_text :: str where
  "other_text = [10] @ test_lines [
     ''proxies:'', ''  jp: http://127.0.0.1:8080'', ''  us: http://127.0.0.1:8099'',
     ''rules:'', ''  example.com: us'', ''  other.example: jp'', ''  default: jp'']"

definition reload_sample_doc :: yaml_doc where
  "reload_sample_doc = config_sample_yaml\<lparr>
     doc_rules := [(lit ''example.com'', InStr (lit ''us'')), (lit ''default'', InStr (lit ''jp''))]\<rparr>"

definition other_doc :: yaml_doc where
  "other_doc = config_sample_yaml\<lparr>
     doc_proxies := [(lit ''jp'', lit ''http://127.0.0.1:8080''), (lit ''us'', lit ''http://127.0.0.1:8099'')],
     doc_rules := [(lit ''example.com'', InStr (lit ''us'')), (lit ''other.example'', InStr (lit ''jp'')),
                   (lit ''default'', InStr (lit ''jp''))]\<rparr>"

definition test_settings :: static_settings where
  "test_settings = \<lparr>listen = V4 127 0 0 1, http = True, hosts_path = None, refresh = 30\<rparr>"

text \<open>The environment of a reload whose fetch does \<open>run\<close>.\<close>

definition fetching :: "fetch_run \<Rightarrow> unit reload_env" where
  "fetching run =
     \<lparr>serde_yaml = (\<lambda>t. if t = reload_sample_text then Inr reload_sample_doc
                        else if t = other_text then Inr other_doc else bail ''yaml''),
      url_parse = test_url, tls_client = (), siphash = test_hash, settings = test_settings,
      fetch_at = (\<lambda>_. run), sync_ms = 0\<rparr>"

definition seed_runtime :: "(file_config \<times> unit runtime) result" where
  "seed_runtime =
     (case parse_yaml (serde_yaml (fetching Hangs)) reload_sample_text of
        Inl e \<Rightarrow> Inl e
      | Inr cfg \<Rightarrow> (case routed cfg of Inl e \<Rightarrow> Inl e | Inr rt \<Rightarrow> Inr (cfg, rt)))"

definition seed_state :: "file_config \<times> unit runtime \<Rightarrow> unit reload_state" where
  "seed_state seed =
     \<lparr>world = \<lparr>now = 0, slots = new_in_flight MAX_IN_FLIGHT_FETCHES, running = []\<rparr>, routes = snd seed, receivers = True,
      last_yaml = fst seed, filesys = empty_fs, journal = []\<rparr>"

definition reload_timeout_does_not_block_next_poll :: bool where
  "reload_timeout_does_not_block_next_poll =
     (case seed_runtime of
        Inl _ \<Rightarrow> False
      | Inr seed \<Rightarrow>
          (let before = fingerprint (snd seed);
               s1 = reload_once (fetching (Finishes (CONFIG_FETCH_HARD_TIMEOUT + 150) (Inr reload_sample_text))) (seed_state seed);
               s2 = sleep_until (now (world s1) + 2000) s1;
               s3 = reload_once (fetching (Finishes 0 (Inr other_text))) s2
           in fingerprint (routes s1) = before \<and> current (slots (world s2)) = 0 \<and>
              fingerprint (routes s3) \<noteq> before \<and> current (slots (world s3)) = 0))"

definition failing_fetch :: fetch_run where
  "failing_fetch = Finishes 0 (bail ''synthetic fetch failure'')"

definition slow_fetch :: fetch_run where
  "slow_fetch = Finishes (CONFIG_FETCH_HARD_TIMEOUT + 50) (bail ''slow fetch'')"

text \<open>The slots after a fetch that hangs has been given up.\<close>

definition hung_fetch :: "fetch_world \<Rightarrow> fetch_world" where
  "hung_fetch w = snd (fetch_with_hard_timeout Hangs CONFIG_FETCH_HARD_TIMEOUT w)"

definition poll_logs_completed_failed_and_skipped :: bool where
  "poll_logs_completed_failed_and_skipped =
     (case seed_runtime of
        Inl _ \<Rightarrow> False
      | Inr seed \<Rightarrow>
          (let s1 = reload_once (fetching (Finishes 0 (Inr reload_sample_text))) (seed_state seed);
               s2 = reload_once (fetching failing_fetch) s1;
               s3 = s2\<lparr>world := hung_fetch (hung_fetch (world s2))\<rparr>;
               s4 = reload_once (fetching Hangs) s3
           in journal s4 = [PollCompleted False, PollFailed, PollSkipped 2]))"

definition in_flight_cap_skips_third_fetch :: bool where
  "in_flight_cap_skips_third_fetch =
     (let w = hung_fetch (hung_fetch \<lparr>now = 0, slots = new_in_flight MAX_IN_FLIGHT_FETCHES, running = []\<rparr>)
      in fst (fetch_with_hard_timeout Hangs CONFIG_FETCH_HARD_TIMEOUT w) = Inl (InFlight 2))"

lemmas test_reloads = test_yamls test_routing reload_sample_text_def other_text_def test_lines_def reload_sample_doc_def
  other_doc_def test_settings_def fetching_def seed_runtime_def seed_state_def failing_fetch_def slow_fetch_def hung_fetch_def
  empty_fs_def

lemma fetching_simps [simp]:
  "url_parse (fetching run) = test_url" "siphash (fetching run) = test_hash" "settings (fetching run) = test_settings"
  "fetch_at (fetching run) t = run" "tls_client (fetching run) = ()"
  by (simp_all add: fetching_def)

definition reload_sample_config :: file_config where
  "reload_sample_config = projr (yaml reload_sample_doc)"
definition other_config :: file_config where
  "other_config = projr (yaml other_doc)"

text \<open>What the two texts parse to, and how they are routed.\<close>

lemma parse_yaml_test: "parse_yaml sy t = parse_yaml (\<lambda>_. sy t) t'"
  by (simp add: parse_yaml_def)

lemma texts_differ: "reload_sample_text \<noteq> other_text"
  by (simp add: reload_sample_text_def other_text_def test_lines_def lit_def)

lemma sample_docs:
  "yaml reload_sample_doc = Inr reload_sample_config" "yaml other_doc = Inr other_config"
  unfolding reload_sample_config_def other_config_def
  by (simp_all add: reload_sample_doc_def other_doc_def test_yamls evaluation)

lemma sample_texts:
  "parse_yaml (serde_yaml (fetching run)) reload_sample_text = Inr reload_sample_config"
  "parse_yaml (serde_yaml (fetching run)) other_text = Inr other_config"
  using sample_docs texts_differ parse_yaml_test [of "serde_yaml (fetching run)" _ "[]"]
  by (simp_all add: fetching_def yaml_def)

definition reload_sample_runtime :: "unit runtime" where
  "reload_sample_runtime = projr (routed reload_sample_config)"
definition other_runtime :: "unit runtime" where
  "other_runtime = projr (routed other_config)"

lemma sample_routed:
  "from_yaml test_url () test_hash reload_sample_config = Inr reload_sample_runtime"
  "from_yaml test_url () test_hash other_config = Inr other_runtime"
  unfolding reload_sample_runtime_def other_runtime_def reload_sample_config_def other_config_def
  by (simp_all add: reload_sample_doc_def other_doc_def test_yamls test_routing evaluation)

lemma sample_fingerprints: "fingerprint other_runtime \<noteq> fingerprint reload_sample_runtime"
  unfolding from_yaml_fingerprint [OF sample_routed(1)] from_yaml_fingerprint [OF sample_routed(2)]
  by (simp add: other_config_def reload_sample_config_def reload_sample_doc_def other_doc_def test_yamls test_routing evaluation)

lemma seed_runtime_Inr: "seed_runtime = Inr (reload_sample_config, reload_sample_runtime)"
  by (simp add: seed_runtime_def sample_texts routed_def sample_routed)

lemma seed_state_simps [simp]:
  "world (seed_state seed) = \<lparr>now = 0, slots = new_in_flight MAX_IN_FLIGHT_FETCHES, running = []\<rparr>" "routes (seed_state seed) = snd seed"
  "receivers (seed_state seed)" "last_yaml (seed_state seed) = fst seed" "journal (seed_state seed) = []"
  by (simp_all add: seed_state_def)

lemma test_settings_simps [simp]: "hosts_path test_settings = None"
  by (simp add: test_settings_def)

text \<open>The tests.\<close>

lemma reload_test: "reload_timeout_does_not_block_next_poll"
  using sample_fingerprints
  by (simp add: reload_timeout_does_not_block_next_poll_def seed_runtime_Inr reload_evaluation sample_texts sample_routed Let_def word_le_nat_alt)

lemma poll_test: "poll_logs_completed_failed_and_skipped"
  by (simp add: poll_logs_completed_failed_and_skipped_def seed_runtime_Inr failing_fetch_def hung_fetch_def reload_evaluation sample_texts
      sample_routed Let_def word_le_nat_alt bail_def)

lemma cap_test: "in_flight_cap_skips_third_fetch"
  by (simp add: in_flight_cap_skips_third_fetch_def hung_fetch_def reload_evaluation word_le_nat_alt)

section \<open>The watchdog\<close>

text \<open>In nanoseconds: a stall timeout of 150 ms, and a poll interval of 20 ms.\<close>

definition test_watchdog :: "nat list \<Rightarrow> nat \<Rightarrow> nat option" where
  "test_watchdog bs polls = watchdog_loop (heartbeat_at bs) 150000000 20000000 0 (replicate polls 0)"

definition watchdog_trips_when_heartbeat_stops :: bool where
  "watchdog_trips_when_heartbeat_stops =
     (case test_watchdog [0] 15 of None \<Rightarrow> False | Some t \<Rightarrow> t \<le> 300000000)"

definition watchdog_stays_quiet_when_beating :: bool where
  "watchdog_stays_quiet_when_beating =
     (test_watchdog (map (\<lambda>i. i * 20000000) [0..<20]) 20 = None)"

lemma successively_regular: "successively (\<lambda>a b. b \<le> a + g) (map (\<lambda>i. i * g) [0..<n])" for g :: nat
proof (induction n)
  case (Suc n)
  then show ?case by (cases n) (auto simp: successively_append_iff)
qed simp

lemma sorted_regular: "sorted (map (\<lambda>i. i * g) [0..<n])" for g :: nat
  unfolding sorted_map by (rule sorted_wrt_mono_rel [OF _ sorted_upt]) simp

lemma covers_regular: "covers g (map (\<lambda>i. i * g) [0..<Suc n]) 0 (Suc n * g)"
  using successively_regular [of g "Suc n"] sorted_regular [of g "Suc n"]
  by (simp add: covers_def hd_map last_map del: upt_Suc)

lemma watchdog_tests: "watchdog_trips_when_heartbeat_stops" "watchdog_stays_quiet_when_beating"
proof -
  show "watchdog_trips_when_heartbeat_stops"
    using watchdog_fires_by [of "[0]" 0 "replicate 15 0" 0 150000000 20000000]
    by (auto simp: watchdog_trips_when_heartbeat_stops_def test_watchdog_def list_all_iff)
  show "watchdog_stays_quiet_when_beating"
    unfolding watchdog_stays_quiet_when_beating_def test_watchdog_def
    using covers_regular [of 20000000 19]
    by (intro watchdog_quiet_on [of 20000000]) (auto simp: list_all_iff sum_list_replicate)
qed

section \<open>The relay\<close>

definition duplex :: "(nat \<times> recv) list \<Rightarrow> conn" where
  "duplex events = \<lparr>clock = 0, incoming = events, sent = [], mode = Accepts\<rparr>"

definition relay_test :: "nat \<Rightarrow> (nat \<times> recv) list \<Rightarrow> (nat \<times> recv) list \<Rightarrow> (u64 \<times> u64) result option \<times> relay" where
  "relay_test idle a b =
     copy_bidirectional_with_idle_timeout
       \<lparr>idle_timeout = idle, shutdown_a = Some (Inr ()), shutdown_b = Some (Inr ()), pick = (\<lambda>_. hd)\<rparr>
       (duplex a) (Plain (new_prefixed (duplex b) [])) 0"

definition relay_closes_after_idle_timeout :: bool where
  "relay_closes_after_idle_timeout =
     (case relay_test 30 [(0, Data (lit ''hello''))] [] of
        (r, st) \<Rightarrow> r = Some (bail ''relay idle timeout'') \<and> sent (tunnel_conn (upstream st)) = lit ''hello'')"

definition relay_resets_idle_timeout_when_traffic_flows :: bool where
  "relay_resets_idle_timeout_when_traffic_flows =
     (case relay_test 80 [(0, Data (lit ''a'')), (30, Data (lit ''b'')), (30, Data (lit ''c'')), (30, Eof)] [(90, Eof)] of
        (Some (Inr (a, b)), st) \<Rightarrow> a = 3 \<and> sent (tunnel_conn (upstream st)) = lit ''abc''
      | _ \<Rightarrow> False)"

lemma relay_tests: "relay_closes_after_idle_timeout" "relay_resets_idle_timeout_when_traffic_flows"
  by (simp_all add: relay_closes_after_idle_timeout_def relay_resets_idle_timeout_when_traffic_flows_def relay_test_def
      duplex_def evaluation relay_evaluation)

section \<open>Connections\<close>

definition test_renv :: relay_env where
  "test_renv = \<lparr>idle_timeout = 0, shutdown_a = Some (Inr ()), shutdown_b = Some (Inr ()), pick = (\<lambda>_. hd)\<rparr>"

definition test_runtime :: "unit runtime result" where
  "test_runtime = single_proxy test_url () (lit ''http://127.0.0.1:9'')"

definition handle_connection_times_out_reading_initial_http_header :: bool where
  "handle_connection_times_out_reading_initial_http_header =
     (case test_runtime of
        Inl _ \<Rightarrow> False
      | Inr rt \<Rightarrow>
          (case outcome_of (handle_connection (test_net []) test_b64 test_renv rt Http (duplex [])) of
             Some (Inl (Context m _)) \<Rightarrow> m = lit ''timed out reading HTTP header''
           | _ \<Rightarrow> False))"

text \<open>A connection is still accepted: it gets a permit and a task, in place of the test's channel.\<close>

definition fetch_failure_does_not_stop_userspace_accept :: bool where
  "fetch_failure_does_not_stop_userspace_accept =
     (case (test_runtime, yaml jp_doc) of
        (Inr rt, Inr cfg) \<Rightarrow>
          (let before = fingerprint rt;
               s1 = reload_once (fetching failing_fetch) (seed_state (cfg, rt));
               s2 = reload_once (fetching slow_fetch) s1;
               accepting = on_accept Http 0 (Inr ()) (accept_loops True 0)
           in fingerprint (routes s1) = before \<and> fingerprint (routes s2) = before \<and>
              tasks accepting = [(Http, ())] \<and> ended accepting = None)
      | _ \<Rightarrow> False)"

lemma header_timeout_test: "handle_connection_times_out_reading_initial_http_header"
  by (simp add: handle_connection_times_out_reading_initial_http_header_def test_runtime_def single_proxy_def test_url_def
      test_renv_def test_network duplex_def handle_connection_def read_target_def read_http_target_def
      read_until_header_end_def INITIAL_READ_TIMEOUT_def evaluation)

lemma jp_yaml: "\<exists>cfg. yaml jp_doc = Inr cfg"
  by (simp add: test_yamls evaluation)

lemma test_runtime_Inr: "\<exists>rt. test_runtime = Inr rt"
  by (simp add: test_runtime_def single_proxy_def test_url_def evaluation)

lemma accept_test: "fetch_failure_does_not_stop_userspace_accept"
proof -
  obtain cfg rt where cfg: "yaml jp_doc = Inr cfg" and rt: "test_runtime = Inr rt"
    using jp_yaml test_runtime_Inr by blast
  show ?thesis
    unfolding fetch_failure_does_not_stop_userspace_accept_def cfg rt
    by (simp add: failing_fetch_def slow_fetch_def reload_evaluation Let_def word_le_nat_alt bail_def on_accept_def
      accept_loops_def try_acquire_owned_def MAX_CONNECTIONS_def)
qed

text \<open>
  The ticks of the HTTP loop, at the intervals of a release build: the last beat is later than the
  first one, and a watchdog that looks for three times the stall timeout stays quiet.
\<close>

definition ticks :: "nat \<Rightarrow> unit server \<Rightarrow> unit server" where
  "ticks n = fold (\<lambda>i. on_tick Http (i * ACCEPT_HEARTBEAT_INTERVAL)) [0..<n]"

definition idle_accept_loop_beats_without_clients :: bool where
  "idle_accept_loop_beats_without_clients =
     (let before = last_ms (new_heartbeat 0);
          s1 = ticks 4 (accept_loops True 0);
          s2 = ticks 94 (accept_loops True 0)
      in last_ms (heartbeat_at (beats s1) (3 * ACCEPT_HEARTBEAT_INTERVAL)) > before \<and>
         watchdog_loop (heartbeat_at (beats s2)) WATCHDOG_STALL_TIMEOUT WATCHDOG_POLL_INTERVAL 0 (replicate 93 0) = None)"

lemma ticks_beats: "beats (ticks n s) = beats s @ map (\<lambda>i. i * ACCEPT_HEARTBEAT_INTERVAL) [0..<n]"
proof -
  have "beats (fold (\<lambda>i. on_tick Http (i * ACCEPT_HEARTBEAT_INTERVAL)) is s) = beats s @ map (\<lambda>i. i * ACCEPT_HEARTBEAT_INTERVAL) is" for "is"
    by (induction "is" arbitrary: s) simp_all
  then show ?thesis by (simp add: ticks_def)
qed

lemma covers_again: "covers g (b # bs) t0 t1 \<Longrightarrow> covers g (b # b # bs) t0 t1"
  by (simp add: covers_def)

lemma ticks_cover: "covers ACCEPT_HEARTBEAT_INTERVAL (beats (ticks (Suc n) (accept_loops True 0))) 0 (Suc n * ACCEPT_HEARTBEAT_INTERVAL)"
proof -
  have "map (\<lambda>i. i * ACCEPT_HEARTBEAT_INTERVAL) [0..<Suc n] = 0 # map (\<lambda>i. i * ACCEPT_HEARTBEAT_INTERVAL) [1..<Suc n]"
    by (simp add: upt_conv_Cons del: upt_Suc)
  with covers_regular [of ACCEPT_HEARTBEAT_INTERVAL n] show ?thesis
    unfolding ticks_beats by (simp add: accept_loops_def covers_again del: upt_Suc)
qed

lemma idle_test: "idle_accept_loop_beats_without_clients"
proof -
  have "watchdog_loop (heartbeat_at (beats (ticks 94 (accept_loops True 0)))) WATCHDOG_STALL_TIMEOUT WATCHDOG_POLL_INTERVAL 0
      (replicate 93 0) = None"
    using ticks_cover [of 93]
    by (intro watchdog_quiet_on [of ACCEPT_HEARTBEAT_INTERVAL])
      (auto simp: ticks_beats list_all_iff accept_loops_def ACCEPT_HEARTBEAT_INTERVAL_def WATCHDOG_STALL_TIMEOUT_def
        WATCHDOG_POLL_INTERVAL_def sum_list_replicate simp del: upt_Suc)
  moreover have "last_ms (heartbeat_at (beats (ticks 4 (accept_loops True 0))) (3 * ACCEPT_HEARTBEAT_INTERVAL)) > last_ms (new_heartbeat 0)"
    by (simp add: ticks_beats upt_rec ACCEPT_HEARTBEAT_INTERVAL_def accept_loops_def watchdog_evaluation)
  ultimately show ?thesis by (simp add: idle_accept_loop_beats_without_clients_def)
qed

end
