(* ===== verification/Process.thy ===== *)
theory Process
  imports Server
begin

text \<open>
  The running process: the accept loops, the tasks of their connections and the reloading thread,
  interleaved. They share only the published routing, which a task reads once, when it knows the host
  its client wants. Each connection has a network of its own behind it, since the proxies need not
  answer two connections alike (a TLS server name is its text there); its time, as that of the
  reloads, is its own.
\<close>

section \<open>Steps\<close>

text \<open>
  A connection: its client, the network that its proxies are reached through, what its relay depends on,
  and, once the task has looked its host up, the state of reloading at that moment, of which the task
  takes the routing published.
\<close>

record 'tls session =
  peer :: conn
  outside :: "('tls, str) network"
  relaying :: relay_env
  looked_at :: "'tls reload_state option"

definition new_session :: "conn \<times> ('tls, str) network \<times> relay_env \<Rightarrow> 'tls session" where
  "new_session x = (case x of (c, net, renv) \<Rightarrow> \<lparr>peer = c, outside = net, relaying = renv, looked_at = None\<rparr>)"

text \<open>
  \<open>history\<close> are the states that reloading has been in, the present one last; \<open>closed\<close> are the connections
  whose tasks have ended, with what became of them.
\<close>

record 'tls process =
  frontend :: "'tls session server"
  backend :: "'tls reload_state"
  history :: "'tls reload_state list"
  closed :: "(inbound_protocol \<times> 'tls session \<times> handled) list"

definition names_host :: "inbound_protocol \<Rightarrow> 'tls session \<Rightarrow> bool" where
  "names_host p s = (\<not> isl (fst (read_target p (peer s))))"

text \<open>\<open>runtime.borrow()\<close> in the task of the \<open>i\<close>-th connection.\<close>

definition on_borrow :: "nat \<Rightarrow> 'tls process \<Rightarrow> 'tls process" where
  "on_borrow i w =
     (case tasks (frontend w) ! i of
        (p, s) \<Rightarrow> w\<lparr>frontend := (frontend w)\<lparr>tasks := (tasks (frontend w))[i := (p, s\<lparr>looked_at := Some (backend w)\<rparr>)]\<rparr>\<rparr>)"

text \<open>What becomes of a connection; one that never names a host never looks at the routing.\<close>

definition session_result :: "(bytes \<Rightarrow> str) \<Rightarrow> 'tls process \<Rightarrow> inbound_protocol \<Rightarrow> 'tls session \<Rightarrow> handled" where
  "session_result b64 w p s =
     handle_connection (outside s) b64 (relaying s)
       (case looked_at s of Some b \<Rightarrow> routes b | None \<Rightarrow> routes (backend w)) p (peer s)"

definition on_close :: "(bytes \<Rightarrow> str) \<Rightarrow> nat \<Rightarrow> nat \<Rightarrow> 'tls process \<Rightarrow> 'tls process" where
  "on_close b64 t i w =
     (case tasks (frontend w) ! i of
        (p, s) \<Rightarrow> w\<lparr>frontend := on_task_end t i (frontend w), closed := closed w @ [(p, s, session_result b64 w p s)]\<rparr>)"

text \<open>A step of reloading, to the state \<open>s\<close>.\<close>

definition on_reloading :: "'tls reload_state \<Rightarrow> 'tls process \<Rightarrow> 'tls process" where
  "on_reloading s w = w\<lparr>backend := s, history := history w @ [s]\<rparr>"

text \<open>
  The runs of the process, from the state \<open>s0\<close> its start has left: \<open>b64\<close> is the encoder of the base64 crate,
  \<open>d\<close> how late the runtime may poll an accept loop.
\<close>

inductive process_run :: "'tls reload_env \<Rightarrow> 'tls reload_state \<Rightarrow> (bytes \<Rightarrow> str) \<Rightarrow> nat \<Rightarrow> nat \<Rightarrow> 'tls process \<Rightarrow> bool"
  for env s0 b64 d t0 where
  up: "process_run env s0 b64 d t0 \<lparr>frontend = accept_loops (http (settings env)) t0, backend = s0, history = [s0], closed = []\<rparr>"
| accepted: "process_run env s0 b64 d t0 w \<Longrightarrow> on_time d t (frontend w) \<Longrightarrow> loops (frontend w) p \<noteq> None \<Longrightarrow>
    process_run env s0 b64 d t0 (w\<lparr>frontend := on_accept p t (map_sum id new_session r) (frontend w)\<rparr>)"
| ticked: "process_run env s0 b64 d t0 w \<Longrightarrow> on_time d t (frontend w) \<Longrightarrow> loops (frontend w) p = Some l \<Longrightarrow> next_tick l \<le> t \<Longrightarrow>
    process_run env s0 b64 d t0 (w\<lparr>frontend := on_tick p t (frontend w)\<rparr>)"
| borrowed: "process_run env s0 b64 d t0 w \<Longrightarrow> ended (frontend w) = None \<Longrightarrow> i < length (tasks (frontend w)) \<Longrightarrow>
    tasks (frontend w) ! i = (p, s) \<Longrightarrow> looked_at s = None \<Longrightarrow> names_host p s \<Longrightarrow> process_run env s0 b64 d t0 (on_borrow i w)"
| finished: "process_run env s0 b64 d t0 w \<Longrightarrow> on_time d t (frontend w) \<Longrightarrow> i < length (tasks (frontend w)) \<Longrightarrow>
    tasks (frontend w) ! i = (p, s) \<Longrightarrow> (looked_at s \<noteq> None \<longleftrightarrow> names_host p s) \<Longrightarrow>
    outcome_of (session_result b64 w p s) \<noteq> None \<Longrightarrow> process_run env s0 b64 d t0 (on_close b64 t i w)"
| reloaded: "process_run env s0 b64 d t0 w \<Longrightarrow> ended (frontend w) = None \<Longrightarrow>
    process_run env s0 b64 d t0 (on_reloading (reload_once env (backend w)) w)"
| slept: "process_run env s0 b64 d t0 w \<Longrightarrow> ended (frontend w) = None \<Longrightarrow>
    process_run env s0 b64 d t0 (on_reloading (sleep_until t (backend w)) w)"
| warned: "process_run env s0 b64 d t0 w \<Longrightarrow> ended (frontend w) = None \<Longrightarrow>
    process_run env s0 b64 d t0 (on_reloading (logged [WatchEventFailed] (backend w)) w)"

lemma on_borrow_simps [simp]:
  "backend (on_borrow i w) = backend w" "closed (on_borrow i w) = closed w" "history (on_borrow i w) = history w"
  by (simp_all add: on_borrow_def split: prod.splits)

lemma on_reloading_simps [simp]:
  "frontend (on_reloading s w) = frontend w" "closed (on_reloading s w) = closed w"
  "backend (on_reloading s w) = s" "history (on_reloading s w) = history w @ [s]"
  by (simp_all add: on_reloading_def)

section \<open>The parts of the process\<close>

text \<open>
  Seen from the accept loops, a task is its client, and what it has borrowed does not matter: then the
  front end of the process does what the accept loops alone do. The back end does what reloading alone does.
\<close>

definition map_server :: "('c \<Rightarrow> 'd) \<Rightarrow> 'c server \<Rightarrow> 'd server" where
  "map_server f s =
     \<lparr>time = time s, beats = beats s, limit = limit s, loops = loops s, tasks = map (map_prod id f) (tasks s),
      refused = map f (refused s), ended = ended s\<rparr>"

lemma map_server_simps [simp]:
  "time (map_server f s) = time s" "beats (map_server f s) = beats s" "limit (map_server f s) = limit s"
  "loops (map_server f s) = loops s" "length (tasks (map_server f s)) = length (tasks s)" "ended (map_server f s) = ended s"
  "on_time d t (map_server f s) = on_time d t s"
  by (simp_all add: map_server_def on_time_def)

lemma map_server_start: "map_server f (accept_loops h t0) = accept_loops h t0"
  by (simp add: map_server_def accept_loops_def)

lemma map_server_accept: "map_server f (on_accept p t r s) = on_accept p t (map_sum id f r) (map_server f s)"
  by (simp add: map_server_def on_accept_def turn_def Let_def split: sum.splits option.splits)

lemma map_server_tick: "map_server f (on_tick p t s) = on_tick p t (map_server f s)"
  by (simp add: map_server_def on_tick_def turn_def Let_def)

lemma map_server_end: "map_server f (on_task_end t i s) = on_task_end t i (map_server f s)"
  by (simp add: map_server_def on_task_end_def take_map drop_map)

lemma map_server_borrow: "i < length (tasks (frontend w)) \<Longrightarrow> map_server peer (frontend (on_borrow i w)) = map_server peer (frontend w)"
proof -
  assume i: "i < length (tasks (frontend w))"
  obtain p s where s: "tasks (frontend w) ! i = (p, s)" by force
  have "(map (map_prod id peer) (tasks (frontend w)))[i := (p, peer s)] = map (map_prod id peer) (tasks (frontend w))"
    using i s by (simp add: list_update_same_conv)
  with s show ?thesis by (simp add: on_borrow_def map_server_def map_update)
qed

lemma peer_new_session [simp]: "map_sum id peer (map_sum id new_session r) = map_sum id fst r"
  by (cases r) (simp_all add: new_session_def split: prod.splits)

lemma process_serving: "process_run env s0 b64 d t0 w \<Longrightarrow> serving d (http (settings env)) t0 (map_server peer (frontend w))"
proof (induction rule: process_run.induct)
  case (ticked w t p l)
  then show ?case by (simp add: map_server_tick serving.ticked)
next
  case (finished w t i p s)
  then show ?case by (simp add: on_close_def map_server_end serving.task_ended)
qed (simp_all add: map_server_start map_server_accept map_server_borrow serving.start serving.accepted)

lemma process_reloading: "process_run env s0 b64 d t0 w \<Longrightarrow> reloading env s0 (backend w)"
  by (induction rule: process_run.induct) (auto simp: on_close_def intro: reloading.intros split: prod.splits)

lemma reloading_process:
  assumes "reloading env (backend w) s" "process_run env s0 b64 d t0 w" "ended (frontend w) = None"
  shows "\<exists>w'. process_run env s0 b64 d t0 w' \<and> backend w' = s \<and> frontend w' = frontend w \<and> closed w' = closed w"
  using assms(1)
proof (induction rule: reloading.induct)
  case begun
  show ?case using assms(2) by blast
next
  case (slept s t)
  then obtain w' where "process_run env s0 b64 d t0 w'" "backend w' = s" "frontend w' = frontend w" "closed w' = closed w" by blast
  with process_run.slept [of env s0 b64 d t0 w' t] assms(3) show ?case by force
next
  case (warned s)
  then obtain w' where "process_run env s0 b64 d t0 w'" "backend w' = s" "frontend w' = frontend w" "closed w' = closed w" by blast
  with process_run.warned [of env s0 b64 d t0 w'] assms(3) show ?case by force
next
  case (reloaded s)
  then obtain w' where "process_run env s0 b64 d t0 w'" "backend w' = s" "frontend w' = frontend w" "closed w' = closed w" by blast
  with process_run.reloaded [of env s0 b64 d t0 w'] assms(3) show ?case by force
qed

lemma process_tasks: "process_run env s0 b64 d t0 w \<Longrightarrow> length (tasks (frontend w)) + permits (limit (frontend w)) = 1024"
  using permits_ok_room [OF permit_count.serving_keeps [OF process_serving permits_start], of env s0 b64 d t0 w] by simp

text \<open>From any point on, as long as no accept loop has failed, the reloading loop can run as it runs alone.\<close>

lemma process_runs_reload_loop:
  assumes "process_run env s0 b64 d t0 w" "ended (frontend w) = None"
  shows "\<exists>w'. process_run env s0 b64 d t0 w' \<and> frontend w' = frontend w \<and> closed w' = closed w \<and>
    backend w' = fst (run_reload_loop env source recommended_watcher watch es rounds (backend w))"
  using reloading_process [OF run_reloading [OF reloading.begun] assms] by blast

text \<open>The watchdog does not end a process whose accept loops are polled in time.\<close>

lemma process_quiet:
  assumes "process_run env s0 b64 d t0 w" "d \<le> 28000000000" "time (frontend w) div ns_per_ms < 2 ^ 64"
    and "t0 \<le> t" "t + length sleeps * WATCHDOG_POLL_INTERVAL + sum_list sleeps \<le> time (frontend w)"
  shows "watchdog_loop (heartbeat_at (beats (frontend w))) WATCHDOG_STALL_TIMEOUT WATCHDOG_POLL_INTERVAL t sleeps = None"
  using server_ok_quiet [OF heartbeats.serving_keeps [OF process_serving [OF assms(1)] server_ok_start] assms(2)] assms(3-5) by simp

section \<open>Which proxy a connection goes through\<close>

text \<open>The proxies a configuration names for a host: those of a rule for it, or else of the default rule.\<close>

definition proxy_for :: "'tls reload_env \<Rightarrow> file_config \<Rightarrow> str \<Rightarrow> 'tls hop \<Rightarrow> bool" where
  "proxy_for env y h hop \<longleftrightarrow>
     (\<exists>key names. (key, ProxyRef names) \<in> set (rules y) \<and> hop_name hop \<in> set names \<and>
        proxy_of (url_parse env) (tls_client env) y (hop_name hop) = Some (hop_proxy hop) \<and>
        (if \<exists>(k, _) \<in> set (rules y). \<not> is_default k \<and> eq_ignore_ascii_case k (trim_end_matches 46 h)
         then \<not> is_default key \<and> eq_ignore_ascii_case key (trim_end_matches 46 h)
         else is_default key))"

lemma built_from_proxy_for:
  assumes "built_from env y rt" "hop \<in> set (lookup (routing rt) h)"
  shows "proxy_for env y h hop"
proof -
  have y: "from_yaml (url_parse env) (tls_client env) (siphash env) y = Inr rt" "wf_config y"
    using assms(1) by (simp_all add: built_from_def)
  from lookup_names [OF y, of h] obtain key names where
    k: "(key, ProxyRef names) \<in> set (rules y)" "hops_for (url_parse env) (tls_client env) y names (lookup (routing rt) h)"
    "if \<exists>(k, _) \<in> set (rules y). \<not> is_default k \<and> eq_ignore_ascii_case k (trim_end_matches 46 h)
     then \<not> is_default key \<and> eq_ignore_ascii_case key (trim_end_matches 46 h) else is_default key"
    by blast
  have "hop_name hop \<in> set names" "proxy_of (url_parse env) (tls_client env) y (hop_name hop) = Some (hop_proxy hop)"
    using k(2) assms(2) by (auto simp: hops_for_def)
  with k(1,3) show ?thesis unfolding proxy_for_def by blast
qed

text \<open>
  What a hop found for a host, by the routing of the state \<open>b\<close> of reloading, has to do with the configurations
  of \<open>past\<close>. One of them, remembered in \<open>b\<close> or before and with the fingerprint of \<open>b\<close>'s, names it for the host;
  and so does the one of \<open>b\<close> itself, unless the two have the same hash although different bytes were fed to
  it, or one has a host in two spellings.
\<close>

definition named_by :: "'tls reload_env \<Rightarrow> 'tls reload_state set \<Rightarrow> 'tls reload_state \<Rightarrow> str \<Rightarrow> 'tls hop \<Rightarrow> bool" where
  "named_by env past b h hop \<longleftrightarrow>
     (\<exists>s1 \<in> past. reloading env s1 b \<and>
        routing_fingerprint (siphash env) (last_yaml s1) = routing_fingerprint (siphash env) (last_yaml b) \<and>
        proxy_for env (last_yaml s1) h hop \<and>
        (fingerprint_stream (last_yaml s1) = fingerprint_stream (last_yaml b) \<and>
         one_spelling (last_yaml s1) \<and> one_spelling (last_yaml b) \<longrightarrow> proxy_for env (last_yaml b) h hop))"

lemma in_force_named:
  assumes "in_force env past b" "hop \<in> set (lookup (routing (routes b)) h)"
  shows "named_by env past b h hop"
proof -
  obtain s1 r where s: "s1 \<in> past" "reloading env s1 b" "built_from env (last_yaml s1) (routes b)"
    "built_from env (last_yaml b) r" "fingerprint r = fingerprint (routes b)"
    using assms(1) by (auto simp: in_force_def)
  have "proxy_for env (last_yaml b) h hop"
    if "fingerprint_stream (last_yaml s1) = fingerprint_stream (last_yaml b)" "one_spelling (last_yaml s1)" "one_spelling (last_yaml b)"
    using built_from_proxy_for [OF s(4)] built_from_stream [OF s(3,4) that(2,3,1), of h] assms(2) by simp
  with s built_from_proxy_for [OF s(3) assms(2)] built_from_fingerprint [OF s(3)] built_from_fingerprint [OF s(4)]
  show ?thesis unfolding named_by_def by auto
qed

lemma named_by_mono: "named_by env past b h hop \<Longrightarrow> past \<subseteq> past' \<Longrightarrow> named_by env past' b h hop"
  unfolding named_by_def by blast

text \<open>
  The way of a connection: its proxy is the first of those its routing gives for the host that can be
  connected to over the connection's own network, at the proxy's own address.
\<close>

definition went_through ::
  "(bytes \<Rightarrow> str) \<Rightarrow> 'tls session \<Rightarrow> 'tls hop list \<Rightarrow> target \<Rightarrow> 'tls hop \<Rightarrow> proxy_stream \<Rightarrow> bool" where
  "went_through b64 s hops target hop up \<longleftrightarrow>
     (\<exists>before behind. hops = before @ hop # behind \<and>
        list_all (\<lambda>x. isl (fst (connect (outside s) b64 (hop_proxy x) target))) before) \<and>
     fst (connect (outside s) b64 (hop_proxy hop) target) = Inr up \<and>
     (\<exists>delay tcp. dial_tcp (outside s) (host (hop_proxy hop)) (port (hop_proxy hop)) = Some (delay, Inr tcp) \<and> delay \<le> 10000)"

lemma fallback_went_through:
  assumes "fst (connect_with_fallback (outside s) b64 hops target) = Inr up"
  obtains hop where "hop \<in> set hops" "went_through b64 s hops target hop up"
proof -
  obtain before hop behind where f: "hops = before @ hop # behind" "fst (connect (outside s) b64 (hop_proxy hop) target) = Inr up"
    "\<forall>x \<in> set before. isl (fst (connect (outside s) b64 (hop_proxy x) target))"
    by (rule fallback_Inr [OF assms])
  with connect_grants [OF f(2)] show thesis by (intro that [of hop]) (auto simp: went_through_def list_all_iff)
qed

section \<open>The whole program\<close>

text \<open>What a connection that is closed has been, from the first byte of the client to the last of the server.\<close>

definition kept_promise ::
  "'tls reload_env \<Rightarrow> 'tls reload_state set \<Rightarrow> (bytes \<Rightarrow> str) \<Rightarrow> inbound_protocol \<times> 'tls session \<times> handled \<Rightarrow> bool" where
  "kept_promise env past b64 e \<longleftrightarrow> (case e of (p, s, h) \<Rightarrow>
     (case tunnels h of
        None \<Rightarrow> sent (client h) = sent (peer s) \<and> (\<exists>e. outcome_of h = Some (Inl e))
      | Some (up, up') \<Rightarrow>
          (\<exists>target initial c1 b hop.
             fst (read_target p (peer s)) = Inr ((target, initial), c1) \<and> looked_at s = Some b \<and> b \<in> past \<and>
             went_through b64 s (lookup (routing (routes b)) (t_host target)) target hop up \<and>
             named_by env past b (t_host target) hop) \<and>
          (\<exists>a l b m. sent (tunnel_conn up') = sent (tunnel_conn up) @ a \<and> pending (peer s) = a @ l \<and>
             sent (client h) = sent (peer s) @ b \<and> tunnel_bytes up = b @ m \<and>
             (case outcome_of h of Some (Inr _) \<Rightarrow> l = [] \<and> m = [] | _ \<Rightarrow> True))))"

lemma kept_promise_mono: "kept_promise env past b64 e \<Longrightarrow> past \<subseteq> past' \<Longrightarrow> kept_promise env past' b64 e"
  unfolding kept_promise_def using named_by_mono [of env past _ _ _ past']
  by (auto split: option.splits) (metis subsetD)+

definition session_ok :: "'tls reload_env \<Rightarrow> 'tls reload_state set \<Rightarrow> 'tls session \<Rightarrow> bool" where
  "session_ok env past s \<longleftrightarrow> (case looked_at s of None \<Rightarrow> True | Some b \<Rightarrow> b \<in> past \<and> in_force env past b)"

lemma session_ok_mono: "session_ok env past s \<Longrightarrow> past \<subseteq> past' \<Longrightarrow> session_ok env past' s"
  using in_force_mono by (auto simp: session_ok_def split: option.splits)

lemma on_accept_tasks: "set (tasks (on_accept p t r s)) \<subseteq> (case r of Inl _ \<Rightarrow> {} | Inr c \<Rightarrow> {(p, c)}) \<union> set (tasks s)"
  by (auto simp: on_accept_def Let_def split: sum.splits option.splits)

lemma session_result_kept:
  assumes "session_ok env past s" "looked_at s \<noteq> None \<longleftrightarrow> names_host p s"
  shows "kept_promise env past b64 (p, s, session_result b64 w p s)"
proof -
  let ?rt = "case looked_at s of Some b \<Rightarrow> routes b | None \<Rightarrow> routes (backend w)" and ?h = "session_result b64 w p s"
  note b = connection_bytes [of "outside s" b64 "relaying s" ?rt p "peer s", folded session_result_def, unfolded Let_def]
  show ?thesis
  proof (cases "tunnels ?h")
    case None
    with b show ?thesis by (simp add: kept_promise_def)
  next
    case (Some us)
    obtain up up' where us: "us = (up, up')" by (cases us)
    from b Some us obtain target initial c1 where
      t: "fst (read_target p (peer s)) = Inr ((target, initial), c1)"
      "fst (connect_with_fallback (outside s) b64 (lookup (routing ?rt) (t_host target)) target) = Inr up" by auto
    then obtain k where k: "looked_at s = Some k" using assms(2) by (auto simp: names_host_def)
    then have ok: "k \<in> past" "in_force env past k" using assms(1) by (simp_all add: session_ok_def)
    obtain hop where hop: "hop \<in> set (lookup (routing (routes k)) (t_host target))"
      "went_through b64 s (lookup (routing (routes k)) (t_host target)) target hop up"
      by (rule fallback_went_through [OF t(2)]) (simp add: k)
    have "named_by env past k (t_host target) hop" by (rule in_force_named [OF ok(2) hop(1)])
    with t(1) k ok(1) hop(2) b Some us show ?thesis unfolding kept_promise_def by (simp, blast)
  qed
qed

definition promises :: "'tls reload_env \<Rightarrow> (bytes \<Rightarrow> str) \<Rightarrow> 'tls process \<Rightarrow> bool" where
  "promises env b64 w \<longleftrightarrow>
     backend w \<in> set (history w) \<and> in_force env (set (history w)) (backend w) \<and>
     (\<forall>(p, s) \<in> set (tasks (frontend w)). session_ok env (set (history w)) s) \<and>
     list_all (kept_promise env (set (history w)) b64) (closed w)"

lemma promises_reloading:
  assumes "promises env b64 w" "in_force env (insert s (set (history w))) s"
  shows "promises env b64 (on_reloading s w)"
  using assms session_ok_mono [of env "set (history w)" _ "insert s (set (history w))"]
    kept_promise_mono [of env "set (history w)" b64 _ "insert s (set (history w))"]
  by (fastforce simp: promises_def list_all_iff)

lemma process_sessions:
  assumes "process_run env s0 b64 d t0 w" "built_from env (last_yaml s0) (routes s0)"
  shows "promises env b64 w"
  using assms(1)
proof (induction rule: process_run.induct)
  case up
  show ?case using assms(2) by (simp add: promises_def accept_loops_def in_force_start)
next
  case (accepted w t p r)
  have "session_ok env past (new_session c)" for past c by (simp add: session_ok_def new_session_def split: prod.splits)
  with accepted.IH on_accept_tasks [of p t "map_sum id new_session r" "frontend w"] show ?case
    by (cases r) (fastforce simp: promises_def)+
next
  case (ticked w t p l)
  then show ?case by (simp add: promises_def)
next
  case (borrowed w i p s)
  have "session_ok env (set (history w)) (s\<lparr>looked_at := Some (backend w)\<rparr>)"
    using borrowed.IH by (simp add: session_ok_def promises_def)
  moreover have "set (xs[i := x]) \<subseteq> insert x (set xs)" for xs :: "(inbound_protocol \<times> 'a session) list" and x
    by (rule set_update_subset_insert)
  ultimately show ?case using borrowed by (fastforce simp: on_borrow_def promises_def)
next
  case (finished w t i p s)
  have "session_ok env (set (history w)) s"
    using finished.IH nth_mem [OF finished.hyps(3)] finished.hyps(4) by (auto simp: promises_def)
  from session_result_kept [OF this finished.hyps(5)]
  have "kept_promise env (set (history w)) b64 (p, s, session_result b64 w p s)" .
  moreover have "set (tasks (on_task_end t i (frontend w))) \<subseteq> set (tasks (frontend w))"
    by (auto simp: on_task_end_def dest: in_set_takeD in_set_dropD)
  ultimately show ?case using finished by (auto simp: on_close_def promises_def)
next
  case (reloaded w)
  have "in_force env (insert (reload_once env (backend w)) (set (history w))) (reload_once env (backend w))"
    using reloaded.IH by (auto simp: promises_def intro: reload_once_in_force)
  with reloaded.IH show ?case by (rule promises_reloading)
next
  case (slept w t)
  have "in_force env (insert (sleep_until t (backend w)) (set (history w))) (sleep_until t (backend w))"
    by (rule in_force_kept [of env "set (history w)" "backend w"]) (use slept.IH in \<open>auto simp: promises_def reloading.slept\<close>)
  with slept.IH show ?case by (rule promises_reloading)
next
  case (warned w)
  have "in_force env (insert (logged [WatchEventFailed] (backend w)) (set (history w))) (logged [WatchEventFailed] (backend w))"
    by (rule in_force_kept [of env "set (history w)" "backend w"]) (use warned.IH in \<open>auto simp: promises_def reloading.warned\<close>)
  with warned.IH show ?case by (rule promises_reloading)
qed

text \<open>
  C1: The program as a whole. However the accept loops, the connections and the reloads of a started
  process interleave, and whatever the clients, the proxies, the network and the configuration source
  do: a connection that was closed either never got a tunnel, and its client no byte, or it went to the
  host named in its client's first bytes, over its own network, through the first proxy that could be
  connected to, at that proxy's address, of those the routing of the moment gave for the host. That proxy
  is named for the host by the configuration last accepted then, or by one accepted before it in this
  run and with the same fingerprint. What each side received is a prefix of what the other sent, all of it
  if the connection ended without an error. Connections and free permits are 1024 together, and at most
  two fetches are in flight; and the routing is always in force in this sense. Nothing is assumed of the
  parser, the hash or the network.
\<close>

theorem process_keeps_promises:
  assumes "start_main henv cli f = (acts, f', Inr x)"
    and "process_run (reload_env_of x) (state_of x) b64 d t0 w"
  shows "list_all (kept_promise (reload_env_of x) (set (history w)) b64) (closed w) \<and>
    length (tasks (frontend w)) + permits (limit (frontend w)) = 1024 \<and>
    length (running (world (backend w))) \<le> 2 \<and>
    in_force (reload_env_of x) (set (history w)) (backend w)"
proof -
  note s = start_main_state [OF assms(1)]
  have "length (running (world (backend w))) \<le> 2"
    using slot_loop.reloading_keeps [OF process_reloading [OF assms(2)], of MAX_IN_FLIGHT_FETCHES] s(1,2)
    by (auto simp: slots_ok_def MAX_IN_FLIGHT_FETCHES_def word_le_nat_alt)
  with process_sessions [OF assms(2) s(3)] process_tasks [OF assms(2)] show ?thesis by (simp add: promises_def)
qed

definition served_url :: "str \<Rightarrow> url_parts result" where
  "served_url u = Inr \<lparr>url_scheme = lit ''socks5'', url_host_str = Some (lit ''p''), url_port_or_known_default = Some 1080,
     url_username = [], url_password = None\<rparr>"

definition served_routes :: "unit runtime" where
  "served_routes = projr (from_yaml served_url () (\<lambda>_. 0) sample_config)"

lemma served_routes: "from_yaml served_url () (\<lambda>_. 0) sample_config = Inr served_routes"
  "lookup (routing served_routes) (lit ''a.b'') = [served_hop]"
proof -
  have "case from_yaml served_url () (\<lambda>_. 0) sample_config of Inl _ \<Rightarrow> False
        | Inr rt \<Rightarrow> lookup (routing rt) (lit ''a.b'') = [served_hop]" by code_simp
  then show "from_yaml served_url () (\<lambda>_. 0) sample_config = Inr served_routes"
    "lookup (routing served_routes) (lit ''a.b'') = [served_hop]"
    by (auto simp: served_routes_def split: sum.splits)
qed

text \<open>A client is accepted, its host looked up, and its connection served in full.\<close>

lemma served_run:
  fixes env :: "unit reload_env"
  assumes "http (settings env)" "routes s0 = served_routes"
  defines "h \<equiv> handle_connection served_net id sample_relay_env served_routes Http served_client"
  obtains w s where "process_run env s0 id 9 0 w" "closed w = [(Http, s, h)]"
proof -
  let ?new = "(served_client, served_net, sample_relay_env)"
  let ?w1 = "\<lparr>frontend = on_accept Http 0 (map_sum id new_session (Inr ?new)) (accept_loops True 0),
    backend = s0, history = [s0], closed = []\<rparr> :: unit process"
  let ?w2 = "on_borrow 0 ?w1"
  let ?s = "\<lparr>peer = served_client, outside = served_net, relaying = sample_relay_env, looked_at = Some s0\<rparr>"
  have t1: "tasks (frontend ?w1) = [(Http, new_session ?new)]" "ended (frontend ?w1) = None"
    by (simp_all add: on_accept_def accept_loops_def try_acquire_owned_def MAX_CONNECTIONS_def Let_def)
  have t2: "tasks (frontend ?w2) = [(Http, ?s)]" using t1 by (simp add: on_borrow_def new_session_def)
  have ot: "on_time 9 0 (frontend ?w2)"
    using t1 by (simp add: on_borrow_def on_time_def on_accept_def accept_loops_def new_loop_def try_acquire_owned_def
        MAX_CONNECTIONS_def Let_def)
  have named: "names_host Http (new_session ?new)" by (simp add: names_host_def new_session_def served_read)
  have r: "session_result id ?w2 Http ?s = h" using assms(2) by (simp add: session_result_def h_def)
  have ends: "outcome_of h = Some (Inr ())"
    using connection_completes [OF served_read, of served_net id served_routes served_tunnel sample_relay_env]
      served_connect served_streams served_routes(2) by (auto simp: h_def served_target_def)
  have start: "on_time 9 0 (accept_loops True 0 :: unit session server)"
    "\<exists>l. loops (accept_loops True 0 :: unit session server) Http = Some l"
    by (simp_all add: on_time_def accept_loops_def new_loop_def)
  have "process_run env s0 id 9 0 ?w1"
    using process_run.accepted [OF process_run.up [of env s0 id 9 0], of 0 Http "Inr ?new"] assms(1) start by simp
  then have "process_run env s0 id 9 0 ?w2"
    by (rule process_run.borrowed [where p = Http and s = "new_session ?new"])
      (use t1 named in \<open>simp_all add: new_session_def\<close>)
  then have "process_run env s0 id 9 0 (on_close id 0 0 ?w2)"
    by (rule process_run.finished [OF _ ot, where p = Http and s = ?s])
      (use t2 named ends r in \<open>simp_all add: names_host_def new_session_def\<close>)
  moreover have "closed (on_close id 0 0 ?w2) = [(Http, ?s, h)]" using t2 r by (simp add: on_close_def)
  ultimately show thesis by (rule that)
qed

theorem process_keeps_promises_witness:
  "\<exists>acts f' x w s h.
     start_main (sample_host\<lparr>reloads := sample_env\<lparr>url_parse := served_url\<rparr>\<rparr>) sample_cli
       \<lparr>files = (\<lambda>_. None), script = [], new_perms = 420\<rparr> = (acts, f', Inr x) \<and>
     process_run (reload_env_of x) (state_of x) id 9 0 w \<and> closed w = [(Http, s, h)] \<and>
     kept_promise (reload_env_of x) (set (history w)) id (Http, s, h) \<and> sent (client h) = lit ''OK''"
proof -
  obtain acts f' x where x: "start_main (sample_host\<lparr>reloads := sample_env\<lparr>url_parse := served_url\<rparr>\<rparr>) sample_cli
       \<lparr>files = (\<lambda>_. None), script = [], new_perms = 420\<rparr> = (acts, f', Inr x)"
    "routes (state_of x) = served_routes" "http (settings (reload_env_of x))"
    by (rule sample_start [OF served_routes(1)])
  let ?h = "handle_connection served_net id sample_relay_env served_routes Http served_client"
  obtain w s where w: "process_run (reload_env_of x) (state_of x) id 9 0 w" "closed w = [(Http, s, ?h)]"
    by (rule served_run [OF x(3,2)])
  have "sent (client ?h) = lit ''OK''"
    using connection_completes [OF served_read, of served_net id served_routes served_tunnel sample_relay_env]
      served_connect served_streams served_routes(2) by (auto simp: served_target_def)
  moreover have "kept_promise (reload_env_of x) (set (history w)) id (Http, s, ?h)"
    using process_keeps_promises [OF x(1) w(1)] w(2) by simp
  ultimately show ?thesis using x(1) w by blast
qed

end
