(* ===== verification/Spec2Isabelle.thy ===== *)
theory Spec2Isabelle
  imports Hosts_Sync Session_Tests Process
begin

text \<open>
  A verification library of nyasniproxy, a proxy that listens on a loopback address, reads the host
  a client wants from the HTTP \<open>Host\<close> header or the TLS server name, and opens a tunnel to it through
  an upstream HTTP, HTTPS or SOCKS5 proxy chosen by the rules of a configuration.

  \<^bold>\<open>How the program works\<close>

  \<open>main\<close> merges the command line with the configuration, writes the host names of the rules into a
  managed block of the hosts file, and starts four kinds of activity: two accept loops (ports 443
  and 80), a task for every connection, a thread that reloads the configuration (it watches the file
  or polls the URL), and a watchdog thread that ends the process when the accept loops stop beating.
  A task reads the client's first bytes until they name a host, looks the host up in the routing,
  tries the proxies of the rule in order, writes the bytes it has read to the tunnel, and relays
  until both sides end. A reload that succeeds replaces the routing that later connections use.

  \<^bold>\<open>Which theory models what\<close>

  \<^item> \<open>Nya_Prelude\<close>: machine integers, byte strings, errors, slices with panics, substring search.
    \<open>Rust_Str\<close>, \<open>Ip_Addr\<close>, \<open>Fs\<close>, \<open>Net_Stream\<close>: what the program uses of the standard library and of
    tokio: \<open>str\<close>, \<open>IpAddr\<close>, files with a script of faults, and connections with a clock, reads,
    writes and \<open>timeout\<close>. Nothing in them is code of the program.
  \<^item> \<open>Target\<close> is \<open>src/target.rs\<close>: \<open>parse_host_port\<close>, \<open>is_valid_hostname\<close>, \<open>format_target\<close>.
  \<^item> \<open>Http\<close> is \<open>src/http.rs\<close> and \<open>Tls\<close> is \<open>src/tls.rs\<close>: the parsers of the first bytes and the loops
    that read a connection until they have decided.
  \<^item> \<open>Hosts\<close> is \<open>src/hosts.rs\<close>, \<open>Hosts_Sync\<close> what it promises.
  \<^item> \<open>Config\<close> is \<open>src/config.rs\<close>: sources, limits, what the program checks while deserialising, the
    merging of settings.
  \<^item> \<open>Proxy\<close> is \<open>src/proxy.rs\<close>: proxy URLs, CONNECT, SOCKS5, connecting, and \<open>PrefixedStream\<close> with
    its reading and writing side. \<open>Proxy_Spec\<close> has what the handshakes promise, \<open>Tunnel\<close> what reading
    the tunnel gives.
  \<^item> \<open>Router\<close> is \<open>src/router.rs\<close>: the table, lookups, the fingerprint, fallback. \<open>Router_Spec\<close> and
    \<open>Fingerprint\<close> have their properties.
  \<^item> \<open>In_Flight\<close> and \<open>Reload\<close> are \<open>src/reload.rs\<close>: the fetch slots, a fetch with its hard timeout, one
    reload (\<open>reload_once\<close>), and the loops \<open>watch_loop\<close> and \<open>poll_loop\<close>. \<open>Reload_Spec\<close> has what
    reloading promises.
  \<^item> \<open>Watchdog\<close> is \<open>src/watchdog.rs\<close>: the heartbeat and the thread that looks at it.
  \<^item> \<open>Accept_Loop\<close>, \<open>Relay\<close> and \<open>Server\<close> are \<open>src/main.rs\<close>: the accept loops with their permits, the
    relay, and a whole connection (\<open>handle_connection\<close>) and the start of the process (\<open>start_main\<close>).
    \<open>Relay_Spec\<close> has what the relay promises.
  \<^item> \<open>Process\<close> is the running process, after the last lines of \<open>main\<close>: the accept loops, the tasks of
    the connections, each with its one \<open>runtime.borrow()\<close>, and the reloads, interleaved, with the
    theorem that spans them; seen from each of its parts, a run of the process is a run of that part.
    \<open>Clients\<close>, below \<open>Reload\<close>, is the set-up of the HTTP client and of TLS (\<open>http_client\<close> of
    \<open>src/config.rs\<close>, \<open>tls_client_config\<close> and \<open>ensure_crypto_provider\<close> of \<open>src/proxy.rs\<close>).
  \<^item> \<open>Unit_Tests\<close> and \<open>Session_Tests\<close> are the program's own unit tests, run on the model by evaluation:
    on the inputs its authors chose, the definitions answer as the tests expect.

  \<^bold>\<open>How state and effects are represented\<close>

  A \<open>Result<T>\<close> is \<open>error + 'a\<close>. Of a message only its fixed part is kept: names and sizes that
  \<open>format!\<close> puts into it are left out, and contexts are kept. A panic, where the code can raise one,
  is \<open>None\<close> of an option. A connection (\<open>conn\<close>) holds what the peer will still do, event by event
  with the time that passes before each, what was written to it, and its clock; an operation that
  never completes has no result. A write takes no time; if the peer stops draining, the write never
  completes, and the bytes of it that did go out are not represented. Two activities that run at the
  same time are interleaved: the threads at the fetch counter by \<open>interleaving\<close>, step by atomic
  step; the accept loops, their tasks and accept failures by \<open>serving\<close>; the reads of the relay by a
  choice function over the branches of \<open>select!\<close> that are ready; and all of them together by
  \<open>process_run\<close>. Everything proved of them holds for every interleaving. The connections and the
  reloading thread share nothing but the published routing, of which a connection takes one value,
  when it knows the host: so what a connection does between its steps in \<open>process_run\<close> is the function
  \<open>handle_connection\<close> of that value, and the step that closes it adds the result.
  The file system consumes a script of outcomes, so a theorem about it covers every fault.

  Clocks are in milliseconds for connections and reloads, in nanoseconds for the heartbeat, as the
  code has them. A timer behaves as \<open>tokio::time::interval\<close> documents for the \<open>MissedTickBehavior\<close>
  the code sets (\<open>Skip\<close> in the accept loops, \<open>Delay\<close> when polling), without the few milliseconds by
  which tokio lets a tick be late before it counts as missed. Timeouts and intervals are those
  of a release build, not the shorter ones of \<open>cfg(test)\<close>.

  \<^bold>\<open>The contracts between components (locales)\<close>

  \<^item> \<open>prefix_parser\<close> (\<open>Net_Stream\<close>): a decision on the bytes read so far that more bytes do not revoke;
    then the cut into chunks does not matter. Interpreted on the HTTP head and the TLS record.
  \<^item> \<open>byte_source\<close> (\<open>Tunnel\<close>): reading yields the bytes of a source in order, without a panic, and an
    empty read means the end. \<open>stream_source\<close> is such a source whose reads cannot fail to answer, and a
    \<open>PrefixedStream\<close> over one is again a byte source (a sublocale). Interpreted on connections, and
    through them on the tunnel; the relay's properties rest on it.
  \<^item> \<open>slot_pool\<close> (\<open>In_Flight\<close>): taking a slot fails only when all are taken, and a slot released can be
    taken again. Interpreted on \<open>InFlightFetches\<close> and on the semaphore of the connections.
  \<^item> \<open>server_invariant\<close> (\<open>Accept_Loop\<close>): what accepting, ticking and the end of a task keep, the
    accept loops keep. Interpreted on the count of the permits and on the beats of the heartbeat.
  \<^item> \<open>reload_invariant\<close> (\<open>Reload_Spec\<close>): what sleeping, a warning and one reload keep, holds in every
    state that reloading reaches (\<open>reloading\<close>), and so along both loops. Interpreted on the slots and on
    the state in which all slots are held by fetches that hang.

  \<^bold>\<open>What the properties show\<close>

  \<^item> The whole program: however connections and reloads interleave, a connection goes, over the network
    of its own, through the first proxy of its routing that can be connected to, at that proxy's address;
    the proxy is named for the host by the configuration last accepted when the host was looked up, or
    by an earlier one of the run with the same fingerprint; and each side receives a prefix of what the
    other sent. An earlier configuration can be in force because a reload installs the new routing only
    if its fingerprint, a hash of 64 bits, is different; nothing is assumed of that hash.
  \<^item> A connection: the proxy is transparent and serves a well-behaved client in full; opening it is
    bounded in time; the relay forwards exactly, keeps its idle deadline, and is suspended by a write
    that blocks.
  \<^item> The parsers: no panic on any bytes; the result does not depend on how the network cuts the bytes
    up; round trips with an encoder; acceptance is exactly a grammar.
  \<^item> Upstream proxies: a tunnel is handed over only after the proxy has granted it, its bytes are
    exactly those after the handshake, and a server that follows the RFCs is understood.
  \<^item> Routing: a lookup gives the rule's proxies, the order of hash maps does not matter where no two
    keys differ only in case, configurations with the same fingerprint bytes route alike, and where keys
    do differ only in case each of them may be the one that counts.
  \<^item> The hosts file: the exact text a replacement gives, what is left after any fault, and that a
    second run changes nothing.
  \<^item> Configuration: what a parsed configuration satisfies, when there are settings (loopback only),
    when a fetch succeeds.
  \<^item> Reloading: what a reload may change and when it completes, that changes are seen and polls regular,
    and that two hung fetches end reloading.
  \<^item> The process: a start that fails has no effect, at most 1024 connections are handled, live accept
    loops keep the watchdog quiet, and stalled ones make it fire.

  \<^bold>\<open>Bounds and fuel\<close>

  The loops that end are total functions with a measure: \<open>read_until\<close> and \<open>read_exact\<close> by the events
  still to come, \<open>relay_loop\<close> by those of both sides and the bytes buffered (a turn takes at least one
  byte or ends a side), \<open>watch_loop\<close> by the events of the watcher, the parsers by the bytes left. A
  peer that goes on for ever is covered by every finite part of what it does: its script is arbitrary,
  and the theorems on prefixes hold for each. \<open>poll_loop\<close> and \<open>watchdog_loop\<close> never end by themselves;
  their number of rounds is a horizon, and the theorems hold for every horizon.

  \<^bold>\<open>Not modelled\<close>

  \<^item> The parser that \<open>clap\<close> derives from the \<open>Cli\<close> struct and the formatting done by \<open>tracing\<close>. What is
    logged matters where it is the code's own decision: fallback warnings and the outcome of a reload.
  \<^item> Crates: \<open>serde_yaml\<close> and the code \<open>serde\<close> derives for standard types, \<open>url\<close>, \<open>base64\<close>, \<open>notify\<close>,
    the TLS sessions, the dialling of addresses, the hash function, the builders of TLS configurations and the
    HTTP client are parameters.
  \<^item> Code only compiled for tests, such as the channel of accepted streams in the accept loop, and the
    branches for Windows.
\<close>

end
